theory Spec2Isabelle
  imports Main "HOL-Library.Word"
begin

unbundle bit_operations_syntax

section \<open>Board primitives (core.hpp)\<close>

text \<open>Squares are \<open>uint8_t\<close> values 0..80 with the sentinel \<open>SQ_NONE = 0xFF\<close>; rows and
  columns are C \<open>int\<close>s (they go to -1 and 9 before the bounds check).\<close>

definition N :: int where "N = 9"

definition SQ_N :: nat where "SQ_N = 81"

definition SQ_NONE :: nat where "SQ_NONE = 255"

datatype Color = White | Black

fun other :: "Color \<Rightarrow> Color" where
  "other White = Black"
| "other Black = White"

text \<open>\<open>static_cast<int>(c)\<close> of a colour: the index into the two-element arrays.\<close>

fun colorIdx :: "Color \<Rightarrow> nat" where
  "colorIdx White = 0"
| "colorIdx Black = 1"

datatype PieceType = Mason | Catapult | Lancer | Pegasus | Minister | Sovereign | Count

fun ptIdx :: "PieceType \<Rightarrow> nat" where
  "ptIdx Mason = 0"
| "ptIdx Catapult = 1"
| "ptIdx Lancer = 2"
| "ptIdx Pegasus = 3"
| "ptIdx Minister = 4"
| "ptIdx Sovereign = 5"
| "ptIdx Count = 6"

datatype MoveType = Normal | MasonConstruct | MasonCommand | CatapultMove
  | CatapultRangedDemolish | Bastion

datatype WinReason = NoReason | Regicide | Entombment

definition inBounds :: "int \<Rightarrow> int \<Rightarrow> bool" where
  "inBounds r c = (r \<ge> 0 \<and> r < N \<and> c \<ge> 0 \<and> c < N)"

definition sq :: "int \<Rightarrow> int \<Rightarrow> nat" where
  "sq r c = nat (r * N + c)"

definition row :: "nat \<Rightarrow> int" where
  "row s = int s div N"

definition col :: "nat \<Rightarrow> int" where
  "col s = int s mod N"

definition isKeep :: "int \<Rightarrow> int \<Rightarrow> bool" where
  "isKeep r c = (r \<ge> 3 \<and> r \<le> 5 \<and> c \<ge> 3 \<and> c \<le> 5)"

definition isKeepSq :: "nat \<Rightarrow> bool" where
  "isKeepSq s = (s \<noteq> SQ_NONE \<and> isKeep (row s) (col s))"

section \<open>The 81-bit set (bitboard81.hpp)\<close>

record Bitboard81 =
  lo :: "64 word"
  hi :: "64 word"

definition bbEmpty :: Bitboard81 where
  "bbEmpty = \<lparr> lo = 0, hi = 0 \<rparr>"

definition bb_any :: "Bitboard81 \<Rightarrow> bool" where
  "bb_any bb = (lo bb OR hi bb \<noteq> 0)"

definition bb_test :: "Bitboard81 \<Rightarrow> nat \<Rightarrow> bool" where
  "bb_test bb s =
     (if s = SQ_NONE then False
      else if s < 64 then (drop_bit s (lo bb)) AND 1 \<noteq> 0
      else (drop_bit (s - 64) (hi bb)) AND 1 \<noteq> 0)"

definition bb_set :: "Bitboard81 \<Rightarrow> nat \<Rightarrow> Bitboard81" where
  "bb_set bb s =
     (if s = SQ_NONE then bb
      else if s < 64 then bb\<lparr> lo := lo bb OR push_bit s 1 \<rparr>
      else bb\<lparr> hi := hi bb OR push_bit (s - 64) 1 \<rparr>)"

definition bb_reset :: "Bitboard81 \<Rightarrow> nat \<Rightarrow> Bitboard81" where
  "bb_reset bb s =
     (if s = SQ_NONE then bb
      else if s < 64 then bb\<lparr> lo := lo bb AND NOT (push_bit s 1) \<rparr>
      else bb\<lparr> hi := hi bb AND NOT (push_bit (s - 64) 1) \<rparr>)"

text \<open>\<open>std::countr_zero\<close>: the number of consecutive 0 bits from the least significant
  one; 64 for the word 0.\<close>

definition countr_zero :: "64 word \<Rightarrow> nat" where
  "countr_zero w = length (takeWhile (\<lambda>i. \<not> bit w i) [0..<64])"

text \<open>\<open>pop_lsb\<close> returns the popped square and the reduced set.\<close>

definition pop_lsb :: "Bitboard81 \<Rightarrow> nat \<times> Bitboard81" where
  "pop_lsb bb =
     (if lo bb \<noteq> 0 then (countr_zero (lo bb), bb\<lparr> lo := lo bb AND (lo bb - 1) \<rparr>)
      else (countr_zero (hi bb) + 64, bb\<lparr> hi := hi bb AND (hi bb - 1) \<rparr>))"

text \<open>The loop \<open>while (bb.any()) { s = bb.pop_lsb(); ... }\<close> visits these squares, in
  this order.\<close>

lemma word_and_pred_less: "w \<noteq> 0 \<Longrightarrow> unat (w AND (w - 1)) < unat w" for w :: "64 word"
proof -
  assume nz: "w \<noteq> 0"
  have "w AND (w - 1) \<le> w - 1" by (rule word_and_le1)
  then have "unat (w AND (w - 1)) \<le> unat (w - 1)" by (simp add: word_le_nat_alt)
  moreover have "unat (w - 1) < unat w" using nz by (simp add: unat_minus_one unat_gt_0)
  ultimately show ?thesis by simp
qed

function bbSquares :: "Bitboard81 \<Rightarrow> nat list" where
  "bbSquares bb =
     (if bb_any bb then (case pop_lsb bb of (s, bb') \<Rightarrow> s # bbSquares bb') else [])"
  by pat_completeness auto
termination
proof (relation "measure (\<lambda>bb. unat (lo bb) + unat (hi bb))", goal_cases)
  case 1
  show ?case by simp
next
  case (2 bb s bb')
  show ?case
  proof (cases "lo bb = 0")
    case True
    then have "hi bb \<noteq> 0" using 2 by (simp add: bb_any_def)
    then have "unat (hi bb AND (hi bb - 1)) < unat (hi bb)" by (rule word_and_pred_less)
    then show ?thesis using True 2 by (simp add: pop_lsb_def)
  next
    case False
    then have "unat (lo bb AND (lo bb - 1)) < unat (lo bb)" by (rule word_and_pred_less)
    then show ?thesis using False 2 by (simp add: pop_lsb_def)
  qed
qed

declare bbSquares.simps [simp del]

section \<open>Precomputed tables (tables.hpp, buildTables)\<close>

text \<open>Direction indices: 0:N, 1:S, 2:W, 3:E, 4:NW, 5:NE, 6:SW, 7:SE.\<close>

definition DIRS8 :: "(int \<times> int) list" where
  "DIRS8 = [(-1, 0), (1, 0), (0, -1), (0, 1), (-1, -1), (-1, 1), (1, -1), (1, 1)]"

definition DIRS4 :: "(int \<times> int) list" where
  "DIRS4 = [(-1, 0), (1, 0), (0, -1), (0, 1)]"

definition KNIGHT :: "(int \<times> int) list" where
  "KNIGHT = [(-2, -1), (-2, 1), (-1, -2), (-1, 2), (1, -2), (1, 2), (2, -1), (2, 1)]"

text \<open>The target lists of \<open>buildTables\<close>: for each offset in order, the square when it is
  in bounds. \<open>knightCount\<close> and \<open>kingCount\<close> are the lengths of these lists.\<close>

definition targetsFrom :: "(int \<times> int) list \<Rightarrow> nat \<Rightarrow> nat list" where
  "targetsFrom ds s =
     map (\<lambda>(dr, dc). sq (row s + dr) (col s + dc))
       (filter (\<lambda>(dr, dc). inBounds (row s + dr) (col s + dc)) ds)"

definition knightTargets :: "nat \<Rightarrow> nat list" where
  "knightTargets s = targetsFrom KNIGHT s"

definition kingTargets :: "nat \<Rightarrow> nat list" where
  "kingTargets s = targetsFrom DIRS8 s"

text \<open>The ray loop \<open>while (inBounds(rr, cc)) { ray[len++] = sq(rr, cc); rr += d.r; cc += d.c; }\<close>.
  The directions of \<open>DIRS8\<close> are never (0, 0); the guard on the direction makes the
  function total.\<close>

function rayWalk :: "int \<Rightarrow> int \<Rightarrow> int \<Rightarrow> int \<Rightarrow> nat list" where
  "rayWalk rr cc dr dc =
     (if inBounds rr cc \<and> (dr \<noteq> 0 \<or> dc \<noteq> 0)
      then sq rr cc # rayWalk (rr + dr) (cc + dc) dr dc else [])"
  by pat_completeness auto
termination
  by (relation "measure (\<lambda>(rr, cc, dr, dc).
        if dr > 0 then nat (9 - rr) else if dr < 0 then nat (rr + 1)
        else if dc > 0 then nat (9 - cc) else nat (cc + 1))")
     (auto simp: inBounds_def N_def)

declare rayWalk.simps [simp del]

definition ray :: "nat \<Rightarrow> nat \<Rightarrow> nat list" where
  "ray s dir = (case DIRS8 ! dir of (dr, dc) \<Rightarrow> rayWalk (row s + dr) (col s + dc) dr dc)"

subsection \<open>Zobrist keys\<close>

text \<open>\<open>splitmix64\<close> advances the seed it is given by reference and returns the mixed
  value: the pair is (new seed, result).\<close>

definition splitmix64 :: "64 word \<Rightarrow> 64 word \<times> 64 word" where
  "splitmix64 x =
     (let x' = x + 0x9E3779B97F4A7C15;
          z0 = x';
          z1 = (z0 XOR drop_bit 30 z0) * 0xBF58476D1CE4E5B9;
          z2 = (z1 XOR drop_bit 27 z1) * 0x94D049BB133111EB
      in (x', z2 XOR drop_bit 31 z2))"

definition zobristSeed :: "64 word" where
  "zobristSeed = 0xC17ADE10A5F00D42"

text \<open>The seed after \<open>n\<close> calls, and the key the call number \<open>n\<close> (from 0) returns.
  \<open>buildTables\<close> draws, in this order: for each colour the 6 x 81 piece keys and then the
  2 x 81 wall keys; the turn key; two bastion keys; two wallBuiltLast keys.\<close>

primrec seedAfter :: "nat \<Rightarrow> 64 word" where
  "seedAfter 0 = zobristSeed"
| "seedAfter (Suc n) = fst (splitmix64 (seedAfter n))"

definition keyAt :: "nat \<Rightarrow> 64 word" where
  "keyAt n = snd (splitmix64 (seedAfter n))"

definition pieceKeys :: "nat \<Rightarrow> nat \<Rightarrow> nat \<Rightarrow> 64 word" where
  "pieceKeys c pt s = keyAt (c * 648 + pt * 81 + s)"

definition wallKeys :: "nat \<Rightarrow> nat \<Rightarrow> nat \<Rightarrow> 64 word" where
  "wallKeys c hpIdx s = keyAt (c * 648 + 486 + hpIdx * 81 + s)"

definition turnKey :: "64 word" where
  "turnKey = keyAt 1296"

definition bastionKeys :: "nat \<Rightarrow> 64 word" where
  "bastionKeys c = keyAt (1297 + c)"

definition wallBuiltLastKeys :: "nat \<Rightarrow> 64 word" where
  "wallBuiltLastKeys c = keyAt (1299 + c)"

section \<open>Moves (move.hpp)\<close>

record Move =
  mtype :: MoveType
  mfrom :: nat
  mto :: nat
  maux1 :: nat
  maux2 :: nat

definition mkMove :: "MoveType \<Rightarrow> nat \<Rightarrow> nat \<Rightarrow> nat \<Rightarrow> nat \<Rightarrow> Move" where
  "mkMove t f d a1 a2 = \<lparr> mtype = t, mfrom = f, mto = d, maux1 = a1, maux2 = a2 \<rparr>"

section \<open>Position state (position.hpp)\<close>

text \<open>The two-element arrays indexed by colour are pairs (White, Black).\<close>

type_synonym 'a percolor = "'a \<times> 'a"

fun pcGet :: "Color \<Rightarrow> 'a percolor \<Rightarrow> 'a" where
  "pcGet White x = fst x"
| "pcGet Black x = snd x"

fun pcSet :: "Color \<Rightarrow> 'a \<Rightarrow> 'a percolor \<Rightarrow> 'a percolor" where
  "pcSet White v x = (v, snd x)"
| "pcSet Black v x = (fst x, v)"

text \<open>Board encoding (signed 8-bit, here an \<open>int\<close>): 0 empty; 1..6 and -1..-6 pieces
  (\<open>abs v - 1\<close> is the piece type, the sign the colour); 7 and -7 a wall of HP 1; 8 and -8 a
  wall of HP 2. \<open>winner\<close> is \<open>SQ_NONE\<close> for none, otherwise the colour as 0 or 1. The
  counters are C \<open>int\<close>s, modelled unbounded.\<close>

record Position =
  board :: "int list"
  turn :: Color
  bastionRight :: "bool percolor"
  wallBuiltLast :: "bool percolor"
  sovereignSq :: "nat percolor"
  wallTokens :: "int percolor"
  halfmove :: int
  fullmove :: int
  winner :: nat
  winReason :: WinReason
  pieceBB :: "Bitboard81 list percolor"
  piecesBB :: "Bitboard81 percolor"
  wallsBB :: "Bitboard81 percolor"
  wallsReinfBB :: "Bitboard81 percolor"
  hash :: "64 word"
  history :: "64 word list"

record Undo =
  prevTurn :: Color
  prevBastionRight :: "bool percolor"
  prevWallBuiltLast :: "bool percolor"
  prevSovereignSq :: "nat percolor"
  prevWallTokens :: "int percolor"
  prevHalfmove :: int
  prevFullmove :: int
  prevWinner :: nat
  prevWinReason :: WinReason
  saved :: "(nat \<times> int) list"

text \<open>\<open>saved\<close> holds the pairs \<open>(sq[i], prev[i])\<close> for \<open>i < sqCount\<close>, in order (the arrays
  have room for 6 and no action saves more than 4).\<close>

record NullUndo =
  nprevTurn :: Color
  nprevFullmove :: int

text \<open>The move counters are C \<open>int\<close>s: a value is kept in 32 bits, two's complement, so
  an increment at \<open>INT_MAX\<close> gives \<open>INT_MIN\<close>.\<close>

definition int32 :: "int \<Rightarrow> int" where
  "int32 n = (n + 2147483648) mod 4294967296 - 2147483648"

definition abs8 :: "int \<Rightarrow> int" where
  "abs8 v = (if v < 0 then - v else v)"

definition isPieceVal :: "int \<Rightarrow> bool" where
  "isPieceVal v = (abs8 v \<ge> 1 \<and> abs8 v \<le> 6)"

definition isWallVal :: "int \<Rightarrow> bool" where
  "isWallVal v = (abs8 v \<ge> 7)"

definition colorOf :: "int \<Rightarrow> Color" where
  "colorOf v = (if v > 0 then White else Black)"

text \<open>\<open>static_cast<PieceType>(a - 1)\<close>; the callers ask only when \<open>isPieceVal\<close> holds.\<close>

definition ptOfInt :: "int \<Rightarrow> PieceType" where
  "ptOfInt i = (if i = 0 then Mason else if i = 1 then Catapult else if i = 2 then Lancer
     else if i = 3 then Pegasus else if i = 4 then Minister else if i = 5 then Sovereign
     else Count)"

definition pieceOf :: "int \<Rightarrow> PieceType" where
  "pieceOf v = ptOfInt (abs8 v - 1)"

definition wallHp :: "int \<Rightarrow> int" where
  "wallHp v = abs8 v - 6"

definition makePiece :: "Color \<Rightarrow> PieceType \<Rightarrow> int" where
  "makePiece c p = (let n = 1 + int (ptIdx p) in if c = White then n else - n)"

definition makeWall :: "Color \<Rightarrow> int \<Rightarrow> int" where
  "makeWall c hp = (let n = 6 + hp in if c = White then n else - n)"

text \<open>\<open>at(s)\<close> and \<open>rawAt(s)\<close> both read \<open>b_[s]\<close>.\<close>

definition rawAt :: "Position \<Rightarrow> nat \<Rightarrow> int" where
  "rawAt p s = board p ! s"

definition gameOver :: "Position \<Rightarrow> bool" where
  "gameOver p = (winner p \<noteq> SQ_NONE)"

definition hasDominance :: "Position \<Rightarrow> Color \<Rightarrow> bool" where
  "hasDominance p c = isKeepSq (pcGet c (sovereignSq p))"

definition masonMoveRange :: "Position \<Rightarrow> nat \<Rightarrow> Color \<Rightarrow> int" where
  "masonMoveRange p masonSq c = (if hasDominance p c \<and> isKeepSq masonSq then 2 else 1)"

definition ministerMoveRange :: "Position \<Rightarrow> nat \<Rightarrow> Color \<Rightarrow> int" where
  "ministerMoveRange p ministerSq c =
     2 + (if hasDominance p c \<and> isKeepSq ministerSq then 1 else 0)"

definition sovereignMoveRange :: "Position \<Rightarrow> nat \<Rightarrow> Color \<Rightarrow> int" where
  "sovereignMoveRange p sovSq c =
     (if pcGet c (wallTokens p) > 15 then 0
      else 1 + (if hasDominance p c \<and> isKeepSq sovSq then 1 else 0))"

subsection \<open>setSquareRaw and rebuildDerived\<close>

text \<open>The two halves of \<open>setSquareRaw\<close>: taking the old content out of the bitboards and
  the hash, and putting the new content in.\<close>

definition takeOut :: "Position \<Rightarrow> nat \<Rightarrow> int \<Rightarrow> Position" where
  "takeOut p s old =
     (if old \<noteq> 0 then
        (if isPieceVal old then
           (let c = colorOf old; pt = pieceOf old; row6 = pcGet c (pieceBB p) in
            p\<lparr> pieceBB := pcSet c (row6[ptIdx pt := bb_reset (row6 ! ptIdx pt) s]) (pieceBB p),
               piecesBB := pcSet c (bb_reset (pcGet c (piecesBB p)) s) (piecesBB p),
               hash := hash p XOR pieceKeys (colorIdx c) (ptIdx pt) s \<rparr>)
         else if isWallVal old then
           (let c = colorOf old; hp = wallHp old;
                p1 = p\<lparr> wallsBB := pcSet c (bb_reset (pcGet c (wallsBB p)) s) (wallsBB p) \<rparr>;
                p2 = (if hp = 2
                      then p1\<lparr> wallsReinfBB :=
                             pcSet c (bb_reset (pcGet c (wallsReinfBB p1)) s) (wallsReinfBB p1) \<rparr>
                      else p1)
            in p2\<lparr> hash := hash p2 XOR wallKeys (colorIdx c) (nat (hp - 1)) s \<rparr>)
         else p)
      else p)"

definition putIn :: "Position \<Rightarrow> nat \<Rightarrow> int \<Rightarrow> Position" where
  "putIn p s v =
     (if v \<noteq> 0 then
        (if isPieceVal v then
           (let c = colorOf v; pt = pieceOf v; row6 = pcGet c (pieceBB p) in
            p\<lparr> pieceBB := pcSet c (row6[ptIdx pt := bb_set (row6 ! ptIdx pt) s]) (pieceBB p),
               piecesBB := pcSet c (bb_set (pcGet c (piecesBB p)) s) (piecesBB p),
               hash := hash p XOR pieceKeys (colorIdx c) (ptIdx pt) s \<rparr>)
         else if isWallVal v then
           (let c = colorOf v; hp = wallHp v;
                p1 = p\<lparr> wallsBB := pcSet c (bb_set (pcGet c (wallsBB p)) s) (wallsBB p) \<rparr>;
                p2 = (if hp = 2
                      then p1\<lparr> wallsReinfBB :=
                             pcSet c (bb_set (pcGet c (wallsReinfBB p1)) s) (wallsReinfBB p1) \<rparr>
                      else p1)
            in p2\<lparr> hash := hash p2 XOR wallKeys (colorIdx c) (nat (hp - 1)) s \<rparr>)
         else p)
      else p)"

definition setSquareRaw :: "Position \<Rightarrow> nat \<Rightarrow> int \<Rightarrow> Position" where
  "setSquareRaw p s v =
     (let old = board p ! s in
      if old = v then p
      else (let p1 = takeOut p s old;
                p2 = p1\<lparr> board := (board p1)[s := v] \<rparr>
            in putIn p2 s v))"

text \<open>One iteration of the square loop of \<open>rebuildDerived\<close>.\<close>

definition rebuildStep :: "Position \<Rightarrow> nat \<Rightarrow> Position" where
  "rebuildStep p s =
     (let v = board p ! s in
      if v = 0 then p
      else if isPieceVal v then
        (let c = colorOf v; pt = pieceOf v; row6 = pcGet c (pieceBB p);
             p1 = p\<lparr> pieceBB := pcSet c (row6[ptIdx pt := bb_set (row6 ! ptIdx pt) s]) (pieceBB p),
                     piecesBB := pcSet c (bb_set (pcGet c (piecesBB p)) s) (piecesBB p) \<rparr>;
             p2 = (if pt = Sovereign then p1\<lparr> sovereignSq := pcSet c s (sovereignSq p1) \<rparr> else p1)
         in p2\<lparr> hash := hash p2 XOR pieceKeys (colorIdx c) (ptIdx pt) s \<rparr>)
      else if isWallVal v then
        (let c = colorOf v;
             p1 = p\<lparr> wallsBB := pcSet c (bb_set (pcGet c (wallsBB p)) s) (wallsBB p) \<rparr>;
             hp = wallHp v;
             p2 = p1\<lparr> wallTokens := pcSet c (pcGet c (wallTokens p1) + hp) (wallTokens p1) \<rparr>;
             p3 = (if hp = 2
                   then p2\<lparr> wallsReinfBB :=
                          pcSet c (bb_set (pcGet c (wallsReinfBB p2)) s) (wallsReinfBB p2) \<rparr>
                   else p2)
         in p3\<lparr> hash := hash p3 XOR wallKeys (colorIdx c) (nat (hp - 1)) s \<rparr>)
      else p)"

definition initialHash :: "Position \<Rightarrow> 64 word" where
  "initialHash p =
     (let h0 = (if turn p = Black then turnKey else 0);
          h1 = (if fst (bastionRight p) then h0 XOR bastionKeys 0 else h0);
          h2 = (if fst (wallBuiltLast p) then h1 XOR wallBuiltLastKeys 0 else h1);
          h3 = (if snd (bastionRight p) then h2 XOR bastionKeys 1 else h2);
          h4 = (if snd (wallBuiltLast p) then h3 XOR wallBuiltLastKeys 1 else h3)
      in h4)"

definition rebuildDerived :: "Position \<Rightarrow> Position" where
  "rebuildDerived p =
     foldl rebuildStep
       (p\<lparr> pieceBB := (replicate 6 bbEmpty, replicate 6 bbEmpty),
           piecesBB := (bbEmpty, bbEmpty),
           wallsBB := (bbEmpty, bbEmpty),
           wallsReinfBB := (bbEmpty, bbEmpty),
           wallTokens := (0, 0),
           sovereignSq := (SQ_NONE, SQ_NONE),
           hash := initialHash p \<rparr>)
       [0..<SQ_N]"

definition isRepetition :: "Position \<Rightarrow> bool" where
  "isRepetition p = (length (filter (\<lambda>h. h = hash p) (history p)) \<ge> 2)"

subsection \<open>Attacks and Entombment\<close>

definition isPieceOf :: "int \<Rightarrow> Color \<Rightarrow> PieceType \<Rightarrow> bool" where
  "isPieceOf v c pt = (isPieceVal v \<and> colorOf v = c \<and> pieceOf v = pt)"

text \<open>The inner loop of the Catapult scan of \<open>isSquareAttackedBy\<close> along one ray: True is
  the \<open>return true\<close>, False the \<open>break\<close> or the end of the ray.\<close>

fun catapultRayHits :: "Position \<Rightarrow> Color \<Rightarrow> nat list \<Rightarrow> bool" where
  "catapultRayHits p attacker [] = False"
| "catapultRayHits p attacker (tsq # rest) =
     (let v = rawAt p tsq in
      if isWallVal v then False
      else if isPieceVal v then (colorOf v = attacker \<and> pieceOf v = Catapult)
      else catapultRayHits p attacker rest)"

fun lancerRayHits :: "Position \<Rightarrow> Color \<Rightarrow> nat list \<Rightarrow> bool" where
  "lancerRayHits p attacker [] = False"
| "lancerRayHits p attacker (tsq # rest) =
     (let v = rawAt p tsq in
      if isWallVal v then False
      else if isPieceVal v then
        (if colorOf v = attacker then
           (if pieceOf v = Lancer then True
            else if pieceOf v = Mason then lancerRayHits p attacker rest
            else False)
         else False)
      else lancerRayHits p attacker rest)"

fun ministerRayHits :: "Position \<Rightarrow> Color \<Rightarrow> int \<Rightarrow> nat list \<Rightarrow> bool" where
  "ministerRayHits p attacker step [] = False"
| "ministerRayHits p attacker step (tsq # rest) =
     (let v = rawAt p tsq in
      if isWallVal v then False
      else if isPieceVal v then
        (if colorOf v = attacker then
           (let pt = pieceOf v; dist = step + 1 in
            if pt = Minister then dist \<le> ministerMoveRange p tsq attacker
            else if pt = Sovereign then dist \<le> sovereignMoveRange p tsq attacker
            else False)
         else False)
      else ministerRayHits p attacker (step + 1) rest)"

definition masonHits :: "Position \<Rightarrow> Color \<Rightarrow> nat \<Rightarrow> bool" where
  "masonHits p attacker square =
     (let r = row square; c = col square;
          f = (if attacker = White then -1 else 1);
          mr = r - f
      in if mr \<ge> 0 \<and> mr < N then
           ((c - 1 \<ge> 0 \<and> isPieceOf (rawAt p (sq mr (c - 1))) attacker Mason)
            \<or> (c + 1 < N \<and> isPieceOf (rawAt p (sq mr (c + 1))) attacker Mason))
         else False)"

definition isSquareAttackedBy :: "Position \<Rightarrow> Color \<Rightarrow> nat \<Rightarrow> bool" where
  "isSquareAttackedBy p attacker square =
     (if square = SQ_NONE then False
      else if isWallVal (rawAt p square) then False
      else if masonHits p attacker square then True
      else if list_ex (\<lambda>from. isPieceOf (rawAt p from) attacker Pegasus) (knightTargets square)
        then True
      else if list_ex (\<lambda>dir. catapultRayHits p attacker (ray square dir)) [0..<4] then True
      else if list_ex (\<lambda>dir. lancerRayHits p attacker (ray square dir)) [4..<8] then True
      else list_ex (\<lambda>dir. ministerRayHits p attacker 0 (take 3 (ray square dir))) [0..<8])"

definition threatened :: "Position \<Rightarrow> nat \<Rightarrow> Color \<Rightarrow> bool" where
  "threatened p square forColor = isSquareAttackedBy p (other forColor) square"

definition isEntombed :: "Position \<Rightarrow> Color \<Rightarrow> bool" where
  "isEntombed p victim =
     (let k = pcGet victim (sovereignSq p) in
      if k = SQ_NONE then False
      else list_all (\<lambda>adj. isWallVal (rawAt p adj)) (kingTargets k))"

text \<open>\<open>computeAttacks\<close>: the inner ray loops, adding to the attacked set.\<close>

fun slideAttack :: "Position \<Rightarrow> Bitboard81 \<Rightarrow> nat list \<Rightarrow> Bitboard81" where
  "slideAttack p attacked [] = attacked"
| "slideAttack p attacked (tsq # rest) =
     (let v = rawAt p tsq in
      if isWallVal v then attacked
      else (let attacked' = bb_set attacked tsq in
            if isPieceVal v then attacked' else slideAttack p attacked' rest))"

fun lancerAttack :: "Position \<Rightarrow> Color \<Rightarrow> Bitboard81 \<Rightarrow> nat list \<Rightarrow> Bitboard81" where
  "lancerAttack p us attacked [] = attacked"
| "lancerAttack p us attacked (tsq # rest) =
     (let v = rawAt p tsq in
      if isWallVal v then attacked
      else (let attacked' = bb_set attacked tsq in
            if isPieceVal v then
              (if colorOf v = us \<and> pieceOf v = Mason then lancerAttack p us attacked' rest
               else attacked')
            else lancerAttack p us attacked' rest))"

definition masonAttack :: "Position \<Rightarrow> Color \<Rightarrow> Bitboard81 \<Rightarrow> nat \<Rightarrow> Bitboard81" where
  "masonAttack p us attacked s =
     (let r = row s; c = col s; f = (if us = White then -1 else 1) in
      foldl (\<lambda>acc dc.
               (let rr = r + f; cc = c + dc in
                if \<not> inBounds rr cc then acc
                else if isWallVal (rawAt p (sq rr cc)) then acc
                else bb_set acc (sq rr cc)))
        attacked [-1, 1])"

definition pegasusAttack :: "Position \<Rightarrow> Bitboard81 \<Rightarrow> nat \<Rightarrow> Bitboard81" where
  "pegasusAttack p attacked s =
     foldl (\<lambda>acc tsq. if isWallVal (rawAt p tsq) then acc else bb_set acc tsq)
       attacked (knightTargets s)"

definition pieceSquares :: "Position \<Rightarrow> Color \<Rightarrow> PieceType \<Rightarrow> nat list" where
  "pieceSquares p c pt = bbSquares (pcGet c (pieceBB p) ! ptIdx pt)"

definition computeAttacks :: "Position \<Rightarrow> Color \<Rightarrow> Bitboard81" where
  "computeAttacks p attacker =
     (let us = attacker;
          dom = hasDominance p us;
          wallCount = pcGet us (wallTokens p);
          a0 = bbEmpty;
          a1 = foldl (masonAttack p us) a0 (pieceSquares p us Mason);
          a2 = foldl (pegasusAttack p) a1 (pieceSquares p us Pegasus);
          a3 = foldl (\<lambda>acc s. foldl (\<lambda>acc' dir. slideAttack p acc' (ray s dir)) acc [0..<4])
                 a2 (pieceSquares p us Catapult);
          a4 = foldl (\<lambda>acc s. foldl (\<lambda>acc' dir. lancerAttack p us acc' (ray s dir)) acc [4..<8])
                 a3 (pieceSquares p us Lancer);
          a5 = foldl (\<lambda>acc s.
                        (let mx = 2 + (if dom \<and> isKeepSq s then 1 else 0) in
                         foldl (\<lambda>acc' dir. slideAttack p acc' (take mx (ray s dir))) acc [0..<8]))
                 a4 (pieceSquares p us Minister);
          a6 = (if wallCount \<le> 15 then
                  foldl (\<lambda>acc s.
                        (let mx = 1 + (if dom \<and> isKeepSq s then 1 else 0) in
                         foldl (\<lambda>acc' dir. slideAttack p acc' (take mx (ray s dir))) acc [0..<8]))
                    a5 (pieceSquares p us Sovereign)
                else a5)
      in a6)"

subsection \<open>Turn end and walls\<close>

definition saveSquare :: "Position \<Rightarrow> Undo \<Rightarrow> nat \<Rightarrow> Undo" where
  "saveSquare p u s =
     (if s \<in> set (map fst (saved u)) then u
      else u\<lparr> saved := saved u @ [(s, rawAt p s)] \<rparr>)"

definition addWallTokens :: "Position \<Rightarrow> Color \<Rightarrow> int \<Rightarrow> Position" where
  "addWallTokens p c d = p\<lparr> wallTokens := pcSet c (pcGet c (wallTokens p) + d) (wallTokens p) \<rparr>"

definition hitWall :: "Position \<Rightarrow> nat \<Rightarrow> Position" where
  "hitWall p wallSq =
     (let v = rawAt p wallSq in
      if \<not> isWallVal v then p
      else (let owner = colorOf v; hp = wallHp v in
            if hp = 2 then addWallTokens (setSquareRaw p wallSq (makeWall owner 1)) owner (- 1)
            else addWallTokens (setSquareRaw p wallSq 0) owner (- 1)))"

definition finalizeTurn :: "Position \<Rightarrow> Position" where
  "finalizeTurn p =
     (if winner p \<noteq> SQ_NONE then p
      else (let enemy = other (turn p) in
            if isEntombed p enemy then
              p\<lparr> winner := colorIdx (turn p), winReason := Entombment, halfmove := 0 \<rparr>
            else (let p1 = p\<lparr> hash := hash p XOR turnKey \<rparr>;
                      prev = turn p1;
                      p2 = p1\<lparr> turn := enemy \<rparr>
                  in if prev = Black then p2\<lparr> fullmove := int32 (fullmove p2 + 1) \<rparr> else p2)))"

section \<open>Move generation\<close>

text \<open>The move list is the sequence of \<open>push\<close>es; each generator returns the moves it
  pushes, in order.\<close>

definition normalMove :: "nat \<Rightarrow> nat \<Rightarrow> Move" where
  "normalMove fromSq tsq = mkMove Normal fromSq tsq SQ_NONE SQ_NONE"

text \<open>Mason: the step loop along one orthogonal direction.\<close>

fun masonOrtho :: "Position \<Rightarrow> nat \<Rightarrow> int \<Rightarrow> int \<Rightarrow> int list \<Rightarrow> Move list" where
  "masonOrtho p fromSq dr dc [] = []"
| "masonOrtho p fromSq dr dc (step # rest) =
     (let rr = row fromSq + dr * step; cc = col fromSq + dc * step in
      if \<not> inBounds rr cc then []
      else if rawAt p (sq rr cc) \<noteq> 0 then []
      else normalMove fromSq (sq rr cc) # masonOrtho p fromSq dr dc rest)"

definition masonDiagTargets :: "Position \<Rightarrow> nat \<Rightarrow> Color \<Rightarrow> nat list" where
  "masonDiagTargets p fromSq us =
     (let r = row fromSq; c = col fromSq; f = (if us = White then -1 else 1) in
      map (\<lambda>dc. sq (r + f) (c + dc))
        (filter (\<lambda>dc. inBounds (r + f) (c + dc)
                   \<and> \<not> isWallVal (rawAt p (sq (r + f) (c + dc)))
                   \<and> isPieceVal (rawAt p (sq (r + f) (c + dc)))
                   \<and> colorOf (rawAt p (sq (r + f) (c + dc))) = other us)
           [-1, 1]))"

text \<open>Lancer: one diagonal ray, passing through friendly Masons.\<close>

fun lancerMoves :: "Position \<Rightarrow> nat \<Rightarrow> Color \<Rightarrow> nat list \<Rightarrow> Move list" where
  "lancerMoves p fromSq us [] = []"
| "lancerMoves p fromSq us (tsq # rest) =
     (let v = rawAt p tsq in
      if isWallVal v then []
      else if isPieceVal v then
        (if colorOf v = us \<and> pieceOf v = Mason then lancerMoves p fromSq us rest
         else if colorOf v = other us then [normalMove fromSq tsq]
         else [])
      else normalMove fromSq tsq # lancerMoves p fromSq us rest)"

text \<open>Minister and Sovereign: one ray, cut to the range.\<close>

fun slideMoves :: "Position \<Rightarrow> nat \<Rightarrow> Color \<Rightarrow> nat list \<Rightarrow> Move list" where
  "slideMoves p fromSq us [] = []"
| "slideMoves p fromSq us (tsq # rest) =
     (let v = rawAt p tsq in
      if isWallVal v then []
      else if isPieceVal v then
        (if colorOf v = other us then [normalMove fromSq tsq] else [])
      else normalMove fromSq tsq # slideMoves p fromSq us rest)"

definition genNormalMovesForPiece :: "Position \<Rightarrow> nat \<Rightarrow> PieceType \<Rightarrow> Color \<Rightarrow> Move list" where
  "genNormalMovesForPiece p fromSq pt us =
     (case pt of
        Mason \<Rightarrow>
          (let f = (if us = White then -1 else 1);
               mx = masonMoveRange p fromSq us
           in concat (map (\<lambda>(dr, dc). masonOrtho p fromSq dr dc [1..mx]) [(f, 0), (0, -1), (0, 1)])
              @ map (normalMove fromSq) (masonDiagTargets p fromSq us))
      | Pegasus \<Rightarrow>
          map (normalMove fromSq)
            (filter (\<lambda>tsq. \<not> isWallVal (rawAt p tsq)
                       \<and> \<not> (isPieceVal (rawAt p tsq) \<and> colorOf (rawAt p tsq) = us))
               (knightTargets fromSq))
      | Lancer \<Rightarrow> concat (map (\<lambda>dir. lancerMoves p fromSq us (ray fromSq dir)) [4..<8])
      | Minister \<Rightarrow>
          (let mx = ministerMoveRange p fromSq us in
           concat (map (\<lambda>dir. slideMoves p fromSq us (take (nat mx) (ray fromSq dir))) [0..<8]))
      | Sovereign \<Rightarrow>
          (let mx = sovereignMoveRange p fromSq us in
           if mx \<le> 0 then []
           else concat (map (\<lambda>dir. slideMoves p fromSq us (take (nat mx) (ray fromSq dir))) [0..<8]))
      | Catapult \<Rightarrow> []
      | Count \<Rightarrow> [])"

text \<open>The orthogonally adjacent empty squares of a square, in \<open>DIRS4\<close> order.\<close>

definition orthEmpties :: "Position \<Rightarrow> nat \<Rightarrow> nat list" where
  "orthEmpties p s =
     map (\<lambda>(dr, dc). sq (row s + dr) (col s + dc))
       (filter (\<lambda>(dr, dc). inBounds (row s + dr) (col s + dc)
                  \<and> rawAt p (sq (row s + dr) (col s + dc)) = 0) DIRS4)"

text \<open>\<open>considerCommandDest\<close>: the lambda of \<open>genMasonExtras\<close>. It moves the Mason on the
  board with \<open>setSquareRaw\<close>, lists the variants, and moves it back; the position it
  leaves is returned with the moves.\<close>

definition considerCommandDest ::
  "nat \<Rightarrow> Color \<Rightarrow> bool \<Rightarrow> Position \<Rightarrow> nat \<Rightarrow> Move list \<times> Position" where
  "considerCommandDest masonSq us canBuild p destSq =
     (let them = other us; dstV = rawAt p destSq in
      if isPieceVal dstV \<and> colorOf dstV = them \<and> pieceOf dstV = Sovereign
      then ([mkMove MasonCommand masonSq destSq SQ_NONE SQ_NONE], p)
      else (let fromV = rawAt p masonSq;
                toV = dstV;
                p1 = setSquareRaw p destSq fromV;
                p2 = setSquareRaw p1 masonSq 0;
                skip = [mkMove MasonCommand masonSq destSq SQ_NONE SQ_NONE];
                builds = (if canBuild \<and> \<not> isSquareAttackedBy p2 them destSq
                          then map (\<lambda>wsq. mkMove MasonCommand masonSq destSq wsq SQ_NONE)
                                 (orthEmpties p2 destSq)
                          else []);
                p3 = setSquareRaw p2 masonSq fromV;
                p4 = setSquareRaw p3 destSq toV
            in (skip @ builds, p4)))"

text \<open>A loop step that calls \<open>considerCommandDest\<close> when the guard of the loop body
  holds for the candidate square; the guard reads the current board.\<close>

definition commandStep ::
  "nat \<Rightarrow> Color \<Rightarrow> bool \<Rightarrow> (Position \<Rightarrow> nat \<Rightarrow> bool) \<Rightarrow> Move list \<times> Position \<Rightarrow> int \<times> int
     \<Rightarrow> Move list \<times> Position" where
  "commandStep masonSq us canBuild guard acc d =
     (case acc of (out, p) \<Rightarrow>
        (case d of (dr, dc) \<Rightarrow>
           (let rr = row masonSq + dr; cc = col masonSq + dc in
            if \<not> inBounds rr cc then (out, p)
            else if guard p (sq rr cc)
              then (case considerCommandDest masonSq us canBuild p (sq rr cc) of
                      (ms, p') \<Rightarrow> (out @ ms, p'))
            else (out, p))))"

definition genMasonExtras ::
  "Position \<Rightarrow> nat \<Rightarrow> Color \<Rightarrow> Bitboard81 \<Rightarrow> Move list \<times> Position" where
  "genMasonExtras p masonSq us enemyAttacks =
     (let them = other us;
          canBuild = \<not> pcGet us (wallBuiltLast p);
          construct = (if canBuild \<and> \<not> bb_test enemyAttacks masonSq
                       then map (\<lambda>tsq. mkMove MasonConstruct masonSq tsq SQ_NONE SQ_NONE)
                              (orthEmpties p masonSq)
                       else []);
          eligible = list_ex (\<lambda>adj. isPieceVal (rawAt p adj) \<and> colorOf (rawAt p adj) = us
                                \<and> pieceOf (rawAt p adj) = Minister) (kingTargets masonSq)
      in if \<not> eligible then (construct, p)
         else (let f = (if us = White then -1 else 1);
                   acc1 = foldl (commandStep masonSq us canBuild (\<lambda>q t. rawAt q t = 0))
                            (construct, p) [(f, 0), (0, -1), (0, 1)];
                   acc2 = foldl (commandStep masonSq us canBuild
                                   (\<lambda>q t. \<not> isWallVal (rawAt q t) \<and> isPieceVal (rawAt q t)
                                          \<and> colorOf (rawAt q t) = them))
                            acc1 [(f, -1), (f, 1)]
               in acc2))"

text \<open>Catapult: the first wall along an orthogonal ray, pieces block.\<close>

fun rangedTarget :: "Position \<Rightarrow> nat \<Rightarrow> nat list \<Rightarrow> Move list" where
  "rangedTarget p catSq [] = []"
| "rangedTarget p catSq (tsq # rest) =
     (let v = rawAt p tsq in
      if isPieceVal v then []
      else if isWallVal v then [mkMove CatapultRangedDemolish catSq tsq SQ_NONE SQ_NONE]
      else rangedTarget p catSq rest)"

definition adjWalls :: "Position \<Rightarrow> nat \<Rightarrow> nat list" where
  "adjWalls p toSq = filter (\<lambda>adj. isWallVal (rawAt p adj)) (kingTargets toSq)"

definition catapultVariants :: "Position \<Rightarrow> nat \<Rightarrow> nat \<Rightarrow> Move list" where
  "catapultVariants p catSq toSq =
     mkMove CatapultMove catSq toSq SQ_NONE SQ_NONE
       # map (\<lambda>w. mkMove CatapultMove catSq toSq w SQ_NONE) (adjWalls p toSq)"

fun catapultRay :: "Position \<Rightarrow> nat \<Rightarrow> Color \<Rightarrow> nat list \<Rightarrow> Move list" where
  "catapultRay p catSq us [] = []"
| "catapultRay p catSq us (toSq # rest) =
     (let dstV = rawAt p toSq in
      if isWallVal dstV then []
      else if isPieceVal dstV then
        (if colorOf dstV \<noteq> us then
           (if pieceOf dstV = Sovereign then [mkMove CatapultMove catSq toSq SQ_NONE SQ_NONE]
            else catapultVariants p catSq toSq)
         else [])
      else catapultVariants p catSq toSq @ catapultRay p catSq us rest)"

definition genCatapultExtras :: "Position \<Rightarrow> nat \<Rightarrow> Color \<Rightarrow> Move list" where
  "genCatapultExtras p catSq us =
     concat (map (\<lambda>dir. rangedTarget p catSq (ray catSq dir)) [0..<4])
     @ concat (map (\<lambda>dir. catapultRay p catSq us (ray catSq dir)) [0..<4])"

text \<open>Bastion: the pairs \<open>(empties[a], empties[b])\<close> with \<open>a < b\<close>, in loop order.\<close>

fun pairsOf :: "nat list \<Rightarrow> (nat \<times> nat) list" where
  "pairsOf [] = []"
| "pairsOf (x # xs) = map (\<lambda>y. (x, y)) xs @ pairsOf xs"

definition bastionEmpties :: "Position \<Rightarrow> nat \<Rightarrow> nat \<Rightarrow> nat list" where
  "bastionEmpties p sovSq ministerSq =
     filter (\<lambda>adj. adj \<noteq> sovSq \<and> rawAt p adj = 0) (kingTargets ministerSq)"

definition bastionFor :: "Position \<Rightarrow> nat \<Rightarrow> Color \<Rightarrow> nat \<Rightarrow> Move list" where
  "bastionFor p sovSq us ministerSq =
     (let v = rawAt p ministerSq in
      if \<not> isPieceVal v \<or> colorOf v \<noteq> us \<or> pieceOf v \<noteq> Minister then []
      else (let empties = bastionEmpties p sovSq ministerSq in
            if length empties < 2 then []
            else map (\<lambda>(a, b). mkMove Bastion sovSq ministerSq a b) (pairsOf empties)))"

definition genBastion :: "Position \<Rightarrow> nat \<Rightarrow> Color \<Rightarrow> Move list" where
  "genBastion p sovSq us =
     (if pcGet us (wallBuiltLast p) then []
      else if \<not> pcGet us (bastionRight p) then []
      else if pcGet us (wallTokens p) > 15 then []
      else concat (map (bastionFor p sovSq us) (kingTargets sovSq)))"

text \<open>One iteration of the Mason loop of \<open>generateMoves\<close>.\<close>

definition masonStep ::
  "Color \<Rightarrow> Bitboard81 \<Rightarrow> Move list \<times> Position \<Rightarrow> nat \<Rightarrow> Move list \<times> Position" where
  "masonStep us enemyAttacks acc s =
     (case acc of (out, p) \<Rightarrow>
        (let out1 = out @ genNormalMovesForPiece p s Mason us in
         case genMasonExtras p s us enemyAttacks of (ms, p') \<Rightarrow> (out1 @ ms, p')))"

text \<open>\<open>generateMoves\<close> returns the move list and the position it leaves behind.\<close>

definition generateMoves :: "Position \<Rightarrow> Move list \<times> Position" where
  "generateMoves p =
     (if gameOver p then ([], p)
      else (let us = turn p;
                them = other us;
                enemyAttacks = computeAttacks p them
            in case foldl (masonStep us enemyAttacks) ([], p) (pieceSquares p us Mason) of
                 (out1, p1) \<Rightarrow>
                   (let out2 = out1 @ concat (map (\<lambda>s. genNormalMovesForPiece p1 s Pegasus us)
                                               (pieceSquares p1 us Pegasus));
                        out3 = out2 @ concat (map (\<lambda>s. genNormalMovesForPiece p1 s Lancer us)
                                               (pieceSquares p1 us Lancer));
                        out4 = out3 @ concat (map (\<lambda>s. genCatapultExtras p1 s us)
                                               (pieceSquares p1 us Catapult));
                        out5 = out4 @ concat (map (\<lambda>s. genNormalMovesForPiece p1 s Minister us)
                                               (pieceSquares p1 us Minister));
                        out6 = out5 @ concat (map (\<lambda>s. genNormalMovesForPiece p1 s Sovereign us
                                                         @ genBastion p1 s us)
                                               (pieceSquares p1 us Sovereign))
                    in (out6, p1))))"

section \<open>Make, undo and the null move\<close>

text \<open>The lambda \<open>setWallBuiltLast\<close> of \<open>makeMove\<close>.\<close>

definition setWallBuiltLast :: "Position \<Rightarrow> Color \<Rightarrow> bool \<Rightarrow> Position" where
  "setWallBuiltLast p c v =
     (if pcGet c (wallBuiltLast p) = v then p
      else p\<lparr> hash := hash p XOR wallBuiltLastKeys (colorIdx c),
              wallBuiltLast := pcSet c v (wallBuiltLast p) \<rparr>)"

text \<open>The block that follows a Sovereign's own move: its square is recorded and the
  Bastion right is lost (with its key).\<close>

definition sovereignMoved :: "Position \<Rightarrow> Color \<Rightarrow> nat \<Rightarrow> Position" where
  "sovereignMoved p us toSq =
     (let p1 = p\<lparr> sovereignSq := pcSet us toSq (sovereignSq p) \<rparr> in
      if pcGet us (bastionRight p1)
      then p1\<lparr> hash := hash p1 XOR bastionKeys (colorIdx us),
               bastionRight := pcSet us False (bastionRight p1) \<rparr>
      else p1)"

text \<open>The lambda \<open>captureSovereign\<close> of \<open>makeMove\<close>.\<close>

definition captureSovereign ::
  "Position \<Rightarrow> Undo \<Rightarrow> Move \<Rightarrow> nat \<Rightarrow> int \<Rightarrow> Position \<times> Undo" where
  "captureSovereign p u m toSq srcV =
     (let us = turn p; them = other us;
          u1 = saveSquare p u toSq;
          u2 = saveSquare p u1 (mfrom m);
          p1 = setSquareRaw p toSq srcV;
          p2 = setSquareRaw p1 (mfrom m) 0;
          p3 = (if isPieceVal srcV \<and> pieceOf srcV = Sovereign then sovereignMoved p2 us toSq
                else p2);
          p4 = p3\<lparr> sovereignSq := pcSet them SQ_NONE (sovereignSq p3),
                   winner := colorIdx us, winReason := Regicide, halfmove := 0 \<rparr>
      in (setWallBuiltLast p4 us False, u2))"

text \<open>The move of the piece itself, shared by the Normal, MasonCommand and CatapultMove
  cases: both squares saved, then both rewritten.\<close>

definition movePiece :: "Position \<Rightarrow> Undo \<Rightarrow> Move \<Rightarrow> int \<Rightarrow> Position \<times> Undo" where
  "movePiece p u m srcV =
     (let u1 = saveSquare p u (mfrom m);
          u2 = saveSquare p u1 (mto m);
          p1 = setSquareRaw p (mto m) srcV;
          p2 = setSquareRaw p1 (mfrom m) 0
      in (p2, u2))"

definition isSovereignCapture :: "Position \<Rightarrow> Move \<Rightarrow> bool" where
  "isSovereignCapture p m =
     (let dstV = rawAt p (mto m); them = other (turn p) in
      (isPieceVal dstV \<and> colorOf dstV = them) \<and> pieceOf dstV = Sovereign)"

definition isCapture :: "Position \<Rightarrow> Move \<Rightarrow> bool" where
  "isCapture p m =
     (let dstV = rawAt p (mto m) in isPieceVal dstV \<and> colorOf dstV = other (turn p))"

definition makeNormal :: "Position \<Rightarrow> Undo \<Rightarrow> Move \<Rightarrow> Position \<times> Undo" where
  "makeNormal p u m =
     (let us = turn p; srcV = rawAt p (mfrom m); isCap = isCapture p m in
      if isSovereignCapture p m then captureSovereign p u m (mto m) srcV
      else (case movePiece p u m srcV of (p2, u2) \<Rightarrow>
              (let p3 = (if isPieceVal srcV \<and> pieceOf srcV = Sovereign
                         then sovereignMoved p2 us (mto m) else p2);
                   p4 = p3\<lparr> halfmove := (if isCap then 0 else int32 (halfmove p3 + 1)) \<rparr>
               in (finalizeTurn (setWallBuiltLast p4 us False), u2))))"

definition makeMasonConstruct :: "Position \<Rightarrow> Undo \<Rightarrow> Move \<Rightarrow> Position \<times> Undo" where
  "makeMasonConstruct p u m =
     (let us = turn p;
          hp = (if isKeepSq (mfrom m) then 2 else 1);
          u1 = saveSquare p u (mto m);
          p1 = setSquareRaw p (mto m) (makeWall us hp);
          p2 = addWallTokens p1 us hp;
          p3 = p2\<lparr> halfmove := 0 \<rparr>
      in (finalizeTurn (setWallBuiltLast p3 us True), u1))"

definition makeMasonCommand :: "Position \<Rightarrow> Undo \<Rightarrow> Move \<Rightarrow> Position \<times> Undo" where
  "makeMasonCommand p u m =
     (let us = turn p; srcV = rawAt p (mfrom m); isCap = isCapture p m in
      if isSovereignCapture p m then captureSovereign p u m (mto m) srcV
      else (case movePiece p u m srcV of (p2, u2) \<Rightarrow>
              (let didWall = (maux1 m \<noteq> SQ_NONE);
                   hp = (if isKeepSq (mto m) then 2 else 1);
                   u3 = (if didWall then saveSquare p2 u2 (maux1 m) else u2);
                   p3 = (if didWall
                         then addWallTokens (setSquareRaw p2 (maux1 m) (makeWall us hp)) us hp
                         else p2);
                   p4 = p3\<lparr> halfmove := (if isCap \<or> didWall then 0 else int32 (halfmove p3 + 1)) \<rparr>
               in (finalizeTurn (setWallBuiltLast p4 us didWall), u3))))"

definition makeCatapultRangedDemolish :: "Position \<Rightarrow> Undo \<Rightarrow> Move \<Rightarrow> Position \<times> Undo" where
  "makeCatapultRangedDemolish p u m =
     (let us = turn p;
          u1 = saveSquare p u (mto m);
          p1 = hitWall p (mto m);
          p2 = p1\<lparr> halfmove := 0 \<rparr>
      in (finalizeTurn (setWallBuiltLast p2 us False), u1))"

definition makeCatapultMove :: "Position \<Rightarrow> Undo \<Rightarrow> Move \<Rightarrow> Position \<times> Undo" where
  "makeCatapultMove p u m =
     (let us = turn p; srcV = rawAt p (mfrom m); isCap = isCapture p m in
      if isSovereignCapture p m then captureSovereign p u m (mto m) srcV
      else (case movePiece p u m srcV of (p2, u2) \<Rightarrow>
              (let didDemo = (maux1 m \<noteq> SQ_NONE);
                   u3 = (if didDemo then saveSquare p2 u2 (maux1 m) else u2);
                   p3 = (if didDemo then hitWall p2 (maux1 m) else p2);
                   p4 = p3\<lparr> halfmove := (if isCap \<or> didDemo then 0 else int32 (halfmove p3 + 1)) \<rparr>
               in (finalizeTurn (setWallBuiltLast p4 us False), u3))))"

definition makeBastion :: "Position \<Rightarrow> Undo \<Rightarrow> Move \<Rightarrow> Position \<times> Undo" where
  "makeBastion p u m =
     (let us = turn p;
          sovV = rawAt p (mfrom m);
          minV = rawAt p (mto m);
          u1 = saveSquare p u (mfrom m);
          u2 = saveSquare p u1 (mto m);
          p1 = setSquareRaw p (mto m) sovV;
          p2 = setSquareRaw p1 (mfrom m) minV;
          p3 = sovereignMoved p2 us (mto m);
          u3 = saveSquare p3 u2 (maux1 m);
          p4 = addWallTokens (setSquareRaw p3 (maux1 m) (makeWall us 1)) us 1;
          u4 = saveSquare p4 u3 (maux2 m);
          p5 = addWallTokens (setSquareRaw p4 (maux2 m) (makeWall us 1)) us 1;
          p6 = p5\<lparr> halfmove := 0 \<rparr>
      in (finalizeTurn (setWallBuiltLast p6 us True), u4))"

text \<open>\<open>makeMove\<close> returns the new position and the filled-in \<open>Undo\<close>.\<close>

definition makeMove :: "Position \<Rightarrow> Move \<Rightarrow> Position \<times> Undo" where
  "makeMove p m =
     (let p0 = p\<lparr> history := history p @ [hash p] \<rparr>;
          u = \<lparr> prevTurn = turn p0,
                prevBastionRight = bastionRight p0,
                prevWallBuiltLast = wallBuiltLast p0,
                prevSovereignSq = sovereignSq p0,
                prevWallTokens = wallTokens p0,
                prevHalfmove = halfmove p0,
                prevFullmove = fullmove p0,
                prevWinner = winner p0,
                prevWinReason = winReason p0,
                saved = [] \<rparr>
      in if gameOver p0 then (p0, u)
         else (case mtype m of
                 Normal \<Rightarrow> makeNormal p0 u m
               | MasonConstruct \<Rightarrow> makeMasonConstruct p0 u m
               | MasonCommand \<Rightarrow> makeMasonCommand p0 u m
               | CatapultRangedDemolish \<Rightarrow> makeCatapultRangedDemolish p0 u m
               | CatapultMove \<Rightarrow> makeCatapultMove p0 u m
               | Bastion \<Rightarrow> makeBastion p0 u m))"

definition undoMove :: "Position \<Rightarrow> Undo \<Rightarrow> Position" where
  "undoMove p u =
     (let p1 = foldl (\<lambda>q (s, v). setSquareRaw q s v) p (saved u);
          p2 = p1\<lparr> turn := prevTurn u,
                   bastionRight := prevBastionRight u,
                   wallBuiltLast := prevWallBuiltLast u,
                   sovereignSq := prevSovereignSq u,
                   wallTokens := prevWallTokens u,
                   halfmove := prevHalfmove u,
                   fullmove := prevFullmove u,
                   winner := prevWinner u,
                   winReason := prevWinReason u \<rparr>
      in if history p2 \<noteq> []
         then p2\<lparr> hash := last (history p2), history := butlast (history p2) \<rparr>
         else p2)"

definition makeNullMove :: "Position \<Rightarrow> Position \<times> NullUndo" where
  "makeNullMove p =
     (let u = \<lparr> nprevTurn = turn p, nprevFullmove = fullmove p \<rparr> in
      if gameOver p then (p, u)
      else (let prev = turn p;
                p1 = p\<lparr> hash := hash p XOR turnKey \<rparr>;
                p2 = p1\<lparr> turn := other (turn p1) \<rparr>
            in (if prev = Black then p2\<lparr> fullmove := int32 (fullmove p2 + 1) \<rparr> else p2, u)))"

definition undoNullMove :: "Position \<Rightarrow> NullUndo \<Rightarrow> Position" where
  "undoNullMove p u =
     (let p1 = (if nprevTurn u \<noteq> turn p then p\<lparr> hash := hash p XOR turnKey \<rparr> else p) in
      p1\<lparr> turn := nprevTurn u, fullmove := nprevFullmove u \<rparr>)"

section \<open>Constructors\<close>

text \<open>\<open>Position::Position()\<close>: the empty board.\<close>

definition emptyPosition :: Position where
  "emptyPosition =
     rebuildDerived
       \<lparr> board = replicate 81 0, turn = White, bastionRight = (True, True),
         wallBuiltLast = (False, False), sovereignSq = (SQ_NONE, SQ_NONE),
         wallTokens = (0, 0), halfmove = 0, fullmove = 1, winner = SQ_NONE,
         winReason = NoReason,
         pieceBB = (replicate 6 bbEmpty, replicate 6 bbEmpty),
         piecesBB = (bbEmpty, bbEmpty), wallsBB = (bbEmpty, bbEmpty),
         wallsReinfBB = (bbEmpty, bbEmpty), hash = 0, history = [] \<rparr>"

definition backRank :: "PieceType list" where
  "backRank = [Catapult, Lancer, Pegasus, Minister, Sovereign, Minister, Pegasus, Lancer, Catapult]"

definition initialBoard :: "int list" where
  "initialBoard =
     foldl (\<lambda>b c. b[sq 8 (int c) := makePiece White (backRank ! c),
                    sq 7 (int c) := makePiece White Mason,
                    sq 0 (int c) := makePiece Black (backRank ! c),
                    sq 1 (int c) := makePiece Black Mason])
       (replicate 81 0) [0..<9]"

definition initial :: Position where
  "initial =
     rebuildDerived
       (emptyPosition\<lparr> board := initialBoard, turn := White, bastionRight := (True, True),
           halfmove := 0, fullmove := 1, winner := SQ_NONE, winReason := NoReason \<rparr>)"

section \<open>What \<open>rebuildDerived\<close> and \<open>setSquareRaw\<close> leave alone\<close>

lemma rebuildStep_frame:
  "board (rebuildStep p s) = board p" "turn (rebuildStep p s) = turn p"
  "bastionRight (rebuildStep p s) = bastionRight p"
  "wallBuiltLast (rebuildStep p s) = wallBuiltLast p"
  "halfmove (rebuildStep p s) = halfmove p" "fullmove (rebuildStep p s) = fullmove p"
  "winner (rebuildStep p s) = winner p" "winReason (rebuildStep p s) = winReason p"
  "history (rebuildStep p s) = history p"
  by (simp_all add: rebuildStep_def Let_def)

lemma foldl_rebuildStep_frame:
  "board (foldl rebuildStep p xs) = board p" "turn (foldl rebuildStep p xs) = turn p"
  "bastionRight (foldl rebuildStep p xs) = bastionRight p"
  "wallBuiltLast (foldl rebuildStep p xs) = wallBuiltLast p"
  "halfmove (foldl rebuildStep p xs) = halfmove p"
  "fullmove (foldl rebuildStep p xs) = fullmove p"
  "winner (foldl rebuildStep p xs) = winner p"
  "winReason (foldl rebuildStep p xs) = winReason p"
  "history (foldl rebuildStep p xs) = history p"
  by (induction xs arbitrary: p; simp add: rebuildStep_frame)+

lemma rebuildDerived_frame:
  "board (rebuildDerived p) = board p" "turn (rebuildDerived p) = turn p"
  "bastionRight (rebuildDerived p) = bastionRight p"
  "wallBuiltLast (rebuildDerived p) = wallBuiltLast p"
  "halfmove (rebuildDerived p) = halfmove p" "fullmove (rebuildDerived p) = fullmove p"
  "winner (rebuildDerived p) = winner p" "winReason (rebuildDerived p) = winReason p"
  "history (rebuildDerived p) = history p"
  by (simp_all add: rebuildDerived_def foldl_rebuildStep_frame)

lemma initial_fields:
  "turn initial = White" "fullmove initial = 1" "halfmove initial = 0"
  "winner initial = SQ_NONE" "winReason initial = NoReason" "board initial = initialBoard"
  "bastionRight initial = (True, True)" "wallBuiltLast initial = (False, False)"
  "history initial = []"
  by (simp_all add: initial_def emptyPosition_def rebuildDerived_frame)

section \<open>The null move\<close>

lemma xor_twice_word: "(h XOR k) XOR k = h" for h k :: "64 word"
  by (simp add: xor.assoc)

text \<open>C8, as the code has it. A null move that is not refused flips the side to move,
  XORs the turn key into the hash, and also increments the fullmove number (a 32-bit
  \<open>int\<close>, so \<open>INT_MAX\<close> goes to \<open>INT_MIN\<close>) when the side that passes is Black; every other
  field is unchanged. When the game is over the position
  is returned as it is. \<open>undoNullMove\<close> restores the position from before the null move
  in both cases.\<close>

theorem null_move_effect:
  "fst (makeNullMove p) =
     (if gameOver p then p
      else p\<lparr> turn := other (turn p), hash := hash p XOR turnKey,
              fullmove := (if turn p = Black then int32 (fullmove p + 1) else fullmove p) \<rparr>)
   \<and> undoNullMove (fst (makeNullMove p)) (snd (makeNullMove p)) = p"
proof (cases "turn p")
  case White
  then show ?thesis
    by (simp add: makeNullMove_def undoNullMove_def Let_def xor_twice_word)
next
  case Black
  then show ?thesis
    by (simp add: makeNullMove_def undoNullMove_def Let_def xor_twice_word)
qed

text \<open>C8 as stated fails: from the initial position White passes, then Black passes;
  the second null move changes the fullmove number from 1 to 2, a field other than the
  side to move and the hash.\<close>

theorem null_move_changes_fullmove:
  "\<not> gameOver (fst (makeNullMove initial))
   \<and> fullmove (fst (makeNullMove initial)) = 1
   \<and> fullmove (fst (makeNullMove (fst (makeNullMove initial)))) = 2"
  by (simp add: makeNullMove_def Let_def gameOver_def initial_fields int32_def)

section \<open>Bitboards as sets of squares\<close>

text \<open>The 81-bit set holding exactly the squares below 81 that satisfy a predicate, and
  the bit-level facts that connect \<open>set\<close>, \<open>reset\<close>, \<open>test\<close> and the \<open>pop_lsb\<close> loop to it.\<close>

lemma test_bit_word: "(drop_bit n w AND 1 \<noteq> 0) = bit w n" for w :: "64 word"
  by (simp add: and_one_eq bit_iff_odd_drop_bit mod_2_eq_odd)

lemma bb_test_iff:
  "bb_test bb s = (s \<noteq> SQ_NONE \<and> (if s < 64 then bit (lo bb) s else bit (hi bb) (s - 64)))"
  by (simp add: bb_test_def test_bit_word)

lemma bit_set_word: "bit (w OR 2 ^ s) n = (bit w n \<or> (n = s \<and> s < 64))" for w :: "64 word"
  by (auto simp: bit_simps)

lemma bit_reset_word: "bit (w AND NOT (2 ^ s)) n = (bit w n \<and> n \<noteq> s)" for w :: "64 word"
  by (auto simp: bit_simps dest: bit_imp_le_length)

definition bbOf :: "(nat \<Rightarrow> bool) \<Rightarrow> Bitboard81" where
  "bbOf P = foldl (\<lambda>bb s. if P s then bb_set bb s else bb) bbEmpty [0..<SQ_N]"

lemma foldl_set_lo:
  "\<forall>x\<in>set xs. x < SQ_N \<Longrightarrow>
   bit (lo (foldl (\<lambda>bb s. if P s then bb_set bb s else bb) bb xs)) n
     = (bit (lo bb) n \<or> (n \<in> set xs \<and> n < 64 \<and> P n))"
proof (induction xs arbitrary: bb)
  case Nil
  then show ?case by simp
next
  case (Cons x xs)
  then show ?case
    by (auto simp: bb_set_def bit_set_word SQ_N_def SQ_NONE_def)
qed

lemma foldl_set_hi:
  "\<forall>x\<in>set xs. x < SQ_N \<Longrightarrow>
   bit (hi (foldl (\<lambda>bb s. if P s then bb_set bb s else bb) bb xs)) n
     = (bit (hi bb) n \<or> (n + 64 \<in> set xs \<and> P (n + 64)))"
proof (induction xs arbitrary: bb)
  case Nil
  then show ?case by simp
next
  case (Cons x xs)
  then show ?case
    by (auto simp: bb_set_def bit_set_word SQ_N_def SQ_NONE_def)
qed

lemma bit_lo_bbOf: "bit (lo (bbOf P)) n = (n < 64 \<and> P n)"
  by (auto simp: bbOf_def foldl_set_lo bbEmpty_def SQ_N_def)

lemma bit_hi_bbOf: "bit (hi (bbOf P)) n = (n < 17 \<and> P (n + 64))"
  by (auto simp: bbOf_def foldl_set_hi bbEmpty_def SQ_N_def)

lemma Bitboard81_eqI: "(\<And>n. bit (lo a) n = bit (lo b) n) \<Longrightarrow> (\<And>n. bit (hi a) n = bit (hi b) n) \<Longrightarrow> a = b"
  for a b :: Bitboard81
  by (cases a, cases b) (simp add: bit_eq_iff)

lemma bb_test_bbOf: "bb_test (bbOf P) s = (s < SQ_N \<and> P s)"
  by (auto simp: bb_test_iff bit_lo_bbOf bit_hi_bbOf SQ_N_def SQ_NONE_def)

lemma bb_set_bbOf: "s < SQ_N \<Longrightarrow> bb_set (bbOf P) s = bbOf (P(s := True))"
  by (rule Bitboard81_eqI)
     (auto simp: bb_set_def bit_lo_bbOf bit_hi_bbOf bit_set_word SQ_N_def SQ_NONE_def)

lemma bb_reset_bbOf: "s < SQ_N \<Longrightarrow> bb_reset (bbOf P) s = bbOf (P(s := False))"
  by (rule Bitboard81_eqI)
     (auto simp: bb_reset_def bit_lo_bbOf bit_hi_bbOf bit_reset_word SQ_N_def SQ_NONE_def)

lemma bbOf_cong: "(\<And>s. s < SQ_N \<Longrightarrow> P s = Q s) \<Longrightarrow> bbOf P = bbOf Q"
  by (rule Bitboard81_eqI) (auto simp: bit_lo_bbOf bit_hi_bbOf SQ_N_def)


lemma countr_zero_props:
  fixes w :: "64 word"
  assumes "w \<noteq> 0"
  shows "countr_zero w < 64" "bit w (countr_zero w)" "\<And>i. i < countr_zero w \<Longrightarrow> \<not> bit w i"
proof -
  let ?P = "\<lambda>i. \<not> bit w i"
  let ?k = "length (takeWhile ?P [0..<64])"
  obtain n where n: "bit w n" using assms by (auto simp: bit_eq_iff)
  then have n64: "n < 64" by (auto dest: bit_imp_le_length)
  have "?k \<noteq> 64"
  proof
    assume "?k = 64"
    then have "takeWhile ?P [0..<64] = [0..<64]"
      by (metis length_upt diff_zero takeWhile_eq_take take_all order_refl)
    then have "\<forall>x\<in>set [0..<64]. ?P x" by (simp only: takeWhile_eq_all_conv)
    then show False using n n64 by auto
  qed
  moreover have "?k \<le> 64" using length_takeWhile_le [of ?P "[0..<64]"] by simp
  ultimately have lt: "?k < 64" by simp
  then show "countr_zero w < 64" by (simp add: countr_zero_def)
  have "\<not> ?P ([0..<64] ! ?k)" using lt by (intro nth_length_takeWhile) simp
  then show "bit w (countr_zero w)" using lt by (simp add: countr_zero_def)
  fix i assume "i < countr_zero w"
  then have i: "i < ?k" by (simp add: countr_zero_def)
  then have "takeWhile ?P [0..<64] ! i \<in> set (takeWhile ?P [0..<64])" by simp
  then have "?P (takeWhile ?P [0..<64] ! i)" by (rule set_takeWhileD [THEN conjunct2])
  moreover have "takeWhile ?P [0..<64] ! i = [0..<64] ! i" using i by (rule takeWhile_nth)
  ultimately show "\<not> bit w i" using i lt by simp
qed

lemma bit_and_pred:
  fixes w :: "64 word"
  assumes "w \<noteq> 0"
  shows "bit (w AND (w - 1)) n = (bit w n \<and> n \<noteq> countr_zero w)"
proof -
  define k where "k = countr_zero w"
  define j where "j = Suc k"
  define q where "q = push_bit j (drop_bit j w)"
  note cz = countr_zero_props [OF assms, folded k_def]
  have bq: "bit q m = (j \<le> m \<and> bit w m)" for m
    by (auto simp: q_def bit_simps dest: bit_imp_le_length)
  have w_eq: "w = q OR 2 ^ k"
  proof (rule bit_eqI)
    fix m assume "possible_bit TYPE(64 word) m"
    show "bit w m = bit (q OR 2 ^ k) m"
      using cz(2) cz(3) [of m] cz(1)
      by (cases "m < k"; cases "m = k") (auto simp: bq j_def bit_simps)
  qed
  have disj1: "q AND 2 ^ k = 0"
    by (rule bit_eqI) (auto simp: bq j_def bit_simps)
  have "w = q + 2 ^ k" using w_eq disjunctive_add_eq_or [OF disj1] by simp
  then have "w - 1 = q + (2 ^ k - 1)" by simp
  also have "\<dots> = q + mask k" by (simp add: mask_eq_exp_minus_1)
  also have "\<dots> = q OR mask k"
    by (rule disjunctive_add_eq_or, rule bit_eqI) (auto simp: bq j_def bit_simps)
  finally have pred: "w - 1 = q OR mask k" .
  have "bit (w AND (w - 1)) n = (bit w n \<and> n \<noteq> k)"
    using cz(2) cz(3) [of n] cz(1)
    by (cases "n < k"; cases "n = k")
       (auto simp: pred bq j_def bit_simps dest: bit_imp_le_length)
  then show ?thesis by (simp add: k_def)
qed


lemma pop_lsb_props:
  assumes "bb_any bb" and "pop_lsb bb = (s, bb')"
  shows "bb_test bb s" and "bb_test bb' t = (bb_test bb t \<and> t \<noteq> s)"
    and "bb_test bb t \<Longrightarrow> s \<le> t"
proof -
  show "bb_test bb s"
  proof (cases "lo bb = 0")
    case True
    then have nz: "hi bb \<noteq> 0" using assms(1) by (simp add: bb_any_def)
    show ?thesis
      using assms(2) True countr_zero_props(1,2) [OF nz]
      by (auto simp: pop_lsb_def bb_test_iff SQ_NONE_def)
  next
    case False
    then show ?thesis
      using assms(2) countr_zero_props(1,2) [OF False]
      by (auto simp: pop_lsb_def bb_test_iff SQ_NONE_def)
  qed
  show "bb_test bb' t = (bb_test bb t \<and> t \<noteq> s)"
  proof (cases "lo bb = 0")
    case True
    then have nz: "hi bb \<noteq> 0" using assms(1) by (simp add: bb_any_def)
    have bb': "bb' = bb\<lparr> hi := hi bb AND (hi bb - 1) \<rparr>" and s: "s = countr_zero (hi bb) + 64"
      using assms(2) True by (auto simp: pop_lsb_def)
    show ?thesis
      using True by (cases "t < 64") (auto simp: bb' s bb_test_iff bit_and_pred [OF nz])
  next
    case False
    have bb': "bb' = bb\<lparr> lo := lo bb AND (lo bb - 1) \<rparr>" and s: "s = countr_zero (lo bb)"
      using assms(2) False by (auto simp: pop_lsb_def)
    show ?thesis
      using countr_zero_props(1) [OF False]
      by (cases "t < 64") (auto simp: bb' s bb_test_iff bit_and_pred [OF False])
  qed
  show "s \<le> t" if "bb_test bb t"
  proof (cases "lo bb = 0")
    case True
    then have nz: "hi bb \<noteq> 0" using assms(1) by (simp add: bb_any_def)
    have s: "s = countr_zero (hi bb) + 64" using assms(2) True by (auto simp: pop_lsb_def)
    have t: "\<not> t < 64" "bit (hi bb) (t - 64)" using that True by (auto simp: bb_test_iff split: if_splits)
    have "\<not> t - 64 < countr_zero (hi bb)" using countr_zero_props(3) [OF nz, of "t - 64"] t by blast
    then show ?thesis using t(1) by (simp add: s)
  next
    case False
    have s: "s = countr_zero (lo bb)" using assms(2) False by (auto simp: pop_lsb_def)
    show ?thesis
    proof (cases "t < 64")
      case True
      then have "bit (lo bb) t" using that by (simp add: bb_test_iff)
      then have "\<not> t < countr_zero (lo bb)" using countr_zero_props(3) [OF False, of t] by blast
      then show ?thesis by (simp add: s)
    next
      case False
      then show ?thesis using countr_zero_props(1) [OF \<open>lo bb \<noteq> 0\<close>] by (simp add: s)
    qed
  qed
qed

lemma bbSquares_props:
  "sorted_wrt (<) (bbSquares bb) \<and> set (bbSquares bb) = {s. bb_test bb s}"
proof (induction bb rule: bbSquares.induct)
  case (1 bb)
  show ?case
  proof (cases "bb_any bb")
    case False
    then have "lo bb = 0" "hi bb = 0" by (auto simp: bb_any_def or_eq_0_iff)
    then have "\<not> bb_test bb s" for s by (simp add: bb_test_iff)
    then show ?thesis using False by (simp add: bbSquares.simps [of bb])
  next
    case True
    obtain s bb' where p: "pop_lsb bb = (s, bb')" by (cases "pop_lsb bb")
    note ih = 1 [OF True p [symmetric]]
    note pp = pop_lsb_props [OF True p]
    have eq: "bbSquares bb = s # bbSquares bb'"
      using True p by (simp add: bbSquares.simps [of bb])
    have set': "set (bbSquares bb') = {t. bb_test bb t \<and> t \<noteq> s}"
      using ih pp(2) by simp
    have "set (bbSquares bb) = {t. bb_test bb t}"
      unfolding eq using set' pp(1) by auto
    moreover have "\<forall>t\<in>set (bbSquares bb'). s < t"
      unfolding set' using pp(3) by (auto simp: le_neq_implies_less)
    then have "sorted_wrt (<) (bbSquares bb)"
      unfolding eq using ih by simp
    ultimately show ?thesis by simp
  qed
qed

lemma bbSquares_eq_filter:
  assumes "\<And>s. bb_test bb s \<Longrightarrow> s < SQ_N"
  shows "bbSquares bb = filter (bb_test bb) [0..<SQ_N]"
proof (rule sorted_distinct_set_unique)
  show "sorted (bbSquares bb)" "distinct (bbSquares bb)"
    using bbSquares_props [of bb] by (simp_all add: strict_sorted_iff)
  show "sorted (filter (bb_test bb) [0..<SQ_N])" "distinct (filter (bb_test bb) [0..<SQ_N])"
    by (simp_all add: sorted_wrt_filter)
  show "set (bbSquares bb) = set (filter (bb_test bb) [0..<SQ_N])"
    using assms bbSquares_props [of bb] by auto
qed

lemma bbSquares_bbOf: "bbSquares (bbOf P) = filter P [0..<SQ_N]"
proof -
  have "bbSquares (bbOf P) = filter (bb_test (bbOf P)) [0..<SQ_N]"
    by (rule bbSquares_eq_filter) (simp add: bb_test_bbOf)
  also have "\<dots> = filter P [0..<SQ_N]"
    by (rule filter_cong) (auto simp: bb_test_bbOf)
  finally show ?thesis .
qed

section \<open>The derived structures as functions of the raw board\<close>

definition piecePred :: "int list \<Rightarrow> Color \<Rightarrow> nat \<Rightarrow> nat \<Rightarrow> bool" where
  "piecePred b c i s = (isPieceVal (b ! s) \<and> colorOf (b ! s) = c \<and> ptIdx (pieceOf (b ! s)) = i)"

definition anyPiecePred :: "int list \<Rightarrow> Color \<Rightarrow> nat \<Rightarrow> bool" where
  "anyPiecePred b c s = (isPieceVal (b ! s) \<and> colorOf (b ! s) = c)"

definition wallPred :: "int list \<Rightarrow> Color \<Rightarrow> nat \<Rightarrow> bool" where
  "wallPred b c s = (isWallVal (b ! s) \<and> colorOf (b ! s) = c)"

definition reinfPred :: "int list \<Rightarrow> Color \<Rightarrow> nat \<Rightarrow> bool" where
  "reinfPred b c s = (isWallVal (b ! s) \<and> colorOf (b ! s) = c \<and> wallHp (b ! s) = 2)"

text \<open>The Zobrist key of a square's content (0 for an empty square).\<close>

definition squareKey :: "nat \<Rightarrow> int \<Rightarrow> 64 word" where
  "squareKey s v =
     (if isPieceVal v then pieceKeys (colorIdx (colorOf v)) (ptIdx (pieceOf v)) s
      else if isWallVal v then wallKeys (colorIdx (colorOf v)) (nat (wallHp v - 1)) s
      else 0)"

definition boardHash :: "int list \<Rightarrow> 64 word" where
  "boardHash b = foldl (\<lambda>h s. h XOR squareKey s (b ! s)) 0 [0..<SQ_N]"

definition wallSum :: "int list \<Rightarrow> Color \<Rightarrow> int" where
  "wallSum b c = foldl (\<lambda>t s. if wallPred b c s then t + wallHp (b ! s) else t) 0 [0..<SQ_N]"

definition lastSovereign :: "int list \<Rightarrow> Color \<Rightarrow> nat" where
  "lastSovereign b c = foldl (\<lambda>k s. if piecePred b c 5 s then s else k) SQ_NONE [0..<SQ_N]"

lemma pcGet_pcSet [simp]: "pcGet c (pcSet c' v x) = (if c = c' then v else pcGet c x)"
  by (cases c; cases c'; simp)

lemma pcSet_pcGet [simp]: "pcSet c (pcGet c x) x = x"
  by (cases c; simp)

lemma pc_eqI: "(\<And>c. pcGet c x = pcGet c y) \<Longrightarrow> x = y"
proof -
  assume a: "\<And>c. pcGet c x = pcGet c y"
  from a [of White] a [of Black] show "x = y" by (simp add: prod_eq_iff)
qed

lemma isPieceVal_not_wall: "isPieceVal v \<Longrightarrow> \<not> isWallVal v"
  by (simp add: isPieceVal_def isWallVal_def)

lemma isPieceVal_nonzero: "isPieceVal v \<Longrightarrow> v \<noteq> 0"
  by (auto simp: isPieceVal_def abs8_def)

lemma isWallVal_nonzero: "isWallVal v \<Longrightarrow> v \<noteq> 0"
  by (auto simp: isWallVal_def abs8_def)

lemma zero_not_piece_or_wall [simp]: "\<not> isPieceVal 0" "\<not> isWallVal 0"
  by (simp_all add: isPieceVal_def isWallVal_def abs8_def)

lemma ptIdx_pieceOf_less: "isPieceVal v \<Longrightarrow> ptIdx (pieceOf v) < 6"
  by (auto simp: isPieceVal_def pieceOf_def ptOfInt_def)

subsection \<open>The square loop of \<open>rebuildDerived\<close>, field by field\<close>

lemma rebuildStep_pieceBB:
  assumes "i < 6" "length (pcGet c (pieceBB p)) = 6"
  shows "pcGet c (pieceBB (rebuildStep p s)) ! i
           = (if piecePred (board p) c i s then bb_set (pcGet c (pieceBB p) ! i) s
              else pcGet c (pieceBB p) ! i)"
    and "length (pcGet c (pieceBB (rebuildStep p s))) = 6"
  using assms
  by (auto simp: rebuildStep_def Let_def piecePred_def isPieceVal_nonzero nth_list_update)

lemma rebuildStep_piecesBB:
  "pcGet c (piecesBB (rebuildStep p s))
     = (if anyPiecePred (board p) c s then bb_set (pcGet c (piecesBB p)) s
        else pcGet c (piecesBB p))"
  by (auto simp: rebuildStep_def Let_def anyPiecePred_def isPieceVal_nonzero)

lemma rebuildStep_wallsBB:
  "pcGet c (wallsBB (rebuildStep p s))
     = (if wallPred (board p) c s then bb_set (pcGet c (wallsBB p)) s
        else pcGet c (wallsBB p))"
  by (auto simp: rebuildStep_def Let_def wallPred_def isWallVal_nonzero isPieceVal_not_wall)

lemma rebuildStep_wallsReinfBB:
  "pcGet c (wallsReinfBB (rebuildStep p s))
     = (if reinfPred (board p) c s then bb_set (pcGet c (wallsReinfBB p)) s
        else pcGet c (wallsReinfBB p))"
  by (auto simp: rebuildStep_def Let_def reinfPred_def isWallVal_nonzero isPieceVal_not_wall)

lemma rebuildStep_wallTokens:
  "pcGet c (wallTokens (rebuildStep p s))
     = (if wallPred (board p) c s then pcGet c (wallTokens p) + wallHp (board p ! s)
        else pcGet c (wallTokens p))"
  by (auto simp: rebuildStep_def Let_def wallPred_def isWallVal_nonzero isPieceVal_not_wall)

lemma rebuildStep_sovereignSq:
  "pcGet c (sovereignSq (rebuildStep p s))
     = (if piecePred (board p) c 5 s then s else pcGet c (sovereignSq p))"
proof -
  have "pt = Sovereign \<longleftrightarrow> ptIdx pt = 5" for pt by (cases pt) simp_all
  then show ?thesis
    by (auto simp: rebuildStep_def Let_def piecePred_def isPieceVal_nonzero)
qed

lemma rebuildStep_hash:
  "hash (rebuildStep p s) = hash p XOR squareKey s (board p ! s)"
  by (auto simp: rebuildStep_def Let_def squareKey_def isPieceVal_not_wall)


lemma foldl_rebuildStep_pieceBB:
  assumes "i < 6" "length (pcGet c (pieceBB p)) = 6" "board p = b"
  shows "pcGet c (pieceBB (foldl rebuildStep p xs)) ! i
           = foldl (\<lambda>bb s. if piecePred b c i s then bb_set bb s else bb)
               (pcGet c (pieceBB p) ! i) xs
         \<and> length (pcGet c (pieceBB (foldl rebuildStep p xs))) = 6"
  using assms
proof (induction xs arbitrary: p)
  case Nil
  then show ?case by simp
next
  case (Cons x xs)
  have len: "length (pcGet c (pieceBB (rebuildStep p x))) = 6"
    using Cons.prems(1,2) by (rule rebuildStep_pieceBB(2))
  have b: "board (rebuildStep p x) = b" using Cons.prems(3) by (simp add: rebuildStep_frame)
  show ?case
    using Cons.IH [OF Cons.prems(1) len b] rebuildStep_pieceBB(1) [OF Cons.prems(1,2)] Cons.prems(3)
    by simp
qed

lemma foldl_rebuildStep_piecesBB:
  "board p = b \<Longrightarrow>
   pcGet c (piecesBB (foldl rebuildStep p xs))
     = foldl (\<lambda>bb s. if anyPiecePred b c s then bb_set bb s else bb) (pcGet c (piecesBB p)) xs"
  by (induction xs arbitrary: p) (simp_all add: rebuildStep_piecesBB rebuildStep_frame)

lemma foldl_rebuildStep_wallsBB:
  "board p = b \<Longrightarrow>
   pcGet c (wallsBB (foldl rebuildStep p xs))
     = foldl (\<lambda>bb s. if wallPred b c s then bb_set bb s else bb) (pcGet c (wallsBB p)) xs"
  by (induction xs arbitrary: p) (simp_all add: rebuildStep_wallsBB rebuildStep_frame)

lemma foldl_rebuildStep_wallsReinfBB:
  "board p = b \<Longrightarrow>
   pcGet c (wallsReinfBB (foldl rebuildStep p xs))
     = foldl (\<lambda>bb s. if reinfPred b c s then bb_set bb s else bb) (pcGet c (wallsReinfBB p)) xs"
  by (induction xs arbitrary: p) (simp_all add: rebuildStep_wallsReinfBB rebuildStep_frame)

lemma foldl_rebuildStep_wallTokens:
  "board p = b \<Longrightarrow>
   pcGet c (wallTokens (foldl rebuildStep p xs))
     = foldl (\<lambda>t s. if wallPred b c s then t + wallHp (b ! s) else t) (pcGet c (wallTokens p)) xs"
  by (induction xs arbitrary: p) (simp_all add: rebuildStep_wallTokens rebuildStep_frame)

lemma foldl_rebuildStep_sovereignSq:
  "board p = b \<Longrightarrow>
   pcGet c (sovereignSq (foldl rebuildStep p xs))
     = foldl (\<lambda>k s. if piecePred b c 5 s then s else k) (pcGet c (sovereignSq p)) xs"
  by (induction xs arbitrary: p) (simp_all add: rebuildStep_sovereignSq rebuildStep_frame)

lemma foldl_xor_start:
  "foldl (\<lambda>h s. h XOR f s) h0 xs = h0 XOR foldl (\<lambda>h s. h XOR f s) 0 xs"
  for h0 :: "64 word"
proof (induction xs arbitrary: h0)
  case Nil
  then show ?case by simp
next
  case (Cons x xs)
  have "foldl (\<lambda>h s. h XOR f s) h0 (x # xs) = foldl (\<lambda>h s. h XOR f s) (h0 XOR f x) xs"
    by simp
  also have "\<dots> = (h0 XOR f x) XOR foldl (\<lambda>h s. h XOR f s) 0 xs" by (rule Cons.IH)
  also have "\<dots> = h0 XOR (f x XOR foldl (\<lambda>h s. h XOR f s) 0 xs)" by (simp only: xor.assoc)
  also have "f x XOR foldl (\<lambda>h s. h XOR f s) 0 xs = foldl (\<lambda>h s. h XOR f s) (f x) xs"
    by (rule Cons.IH [symmetric])
  also have "foldl (\<lambda>h s. h XOR f s) (f x) xs = foldl (\<lambda>h s. h XOR f s) 0 (x # xs)" by simp
  finally show ?case .
qed

lemma foldl_rebuildStep_hash:
  "board p = b \<Longrightarrow>
   hash (foldl rebuildStep p xs) = foldl (\<lambda>h s. h XOR squareKey s (b ! s)) (hash p) xs"
  by (induction xs arbitrary: p) (simp_all add: rebuildStep_hash rebuildStep_frame)

subsection \<open>What \<open>rebuildDerived\<close> computes\<close>

lemma pcGet_pair_same [simp]: "pcGet c (a, a) = a"
  by (cases c) simp_all

lemma rebuildDerived_pieceBB:
  "i < 6 \<Longrightarrow> pcGet c (pieceBB (rebuildDerived p)) ! i = bbOf (piecePred (board p) c i)"
  "length (pcGet c (pieceBB (rebuildDerived p))) = 6"
proof -
  let ?p0 = "p\<lparr> pieceBB := (replicate 6 bbEmpty, replicate 6 bbEmpty),
           piecesBB := (bbEmpty, bbEmpty), wallsBB := (bbEmpty, bbEmpty),
           wallsReinfBB := (bbEmpty, bbEmpty), wallTokens := (0, 0),
           sovereignSq := (SQ_NONE, SQ_NONE), hash := initialHash p \<rparr>"
  have len: "length (pcGet c (pieceBB ?p0)) = 6" by simp
  have b: "board ?p0 = board p" by simp
  show "pcGet c (pieceBB (rebuildDerived p)) ! i = bbOf (piecePred (board p) c i)" if "i < 6"
    using foldl_rebuildStep_pieceBB [OF that len b, of "[0..<SQ_N]"] that
    by (simp add: rebuildDerived_def bbOf_def)
  show "length (pcGet c (pieceBB (rebuildDerived p))) = 6"
    using foldl_rebuildStep_pieceBB [OF _ len b, of 0 "[0..<SQ_N]"]
    by (simp add: rebuildDerived_def)
qed

lemma rebuildDerived_piecesBB:
  "pcGet c (piecesBB (rebuildDerived p)) = bbOf (anyPiecePred (board p) c)"
  by (simp add: rebuildDerived_def foldl_rebuildStep_piecesBB [where b = "board p"] bbOf_def)

lemma rebuildDerived_wallsBB:
  "pcGet c (wallsBB (rebuildDerived p)) = bbOf (wallPred (board p) c)"
  by (simp add: rebuildDerived_def foldl_rebuildStep_wallsBB [where b = "board p"] bbOf_def)

lemma rebuildDerived_wallsReinfBB:
  "pcGet c (wallsReinfBB (rebuildDerived p)) = bbOf (reinfPred (board p) c)"
  by (simp add: rebuildDerived_def foldl_rebuildStep_wallsReinfBB [where b = "board p"] bbOf_def)

lemma rebuildDerived_wallTokens:
  "pcGet c (wallTokens (rebuildDerived p)) = wallSum (board p) c"
  by (simp add: rebuildDerived_def foldl_rebuildStep_wallTokens [where b = "board p"] wallSum_def)

lemma rebuildDerived_sovereignSq:
  "pcGet c (sovereignSq (rebuildDerived p)) = lastSovereign (board p) c"
  by (simp add: rebuildDerived_def foldl_rebuildStep_sovereignSq [where b = "board p"]
        lastSovereign_def)

lemma rebuildDerived_hash:
  "hash (rebuildDerived p) = initialHash p XOR boardHash (board p)"
  using foldl_xor_start [of "\<lambda>s. squareKey s (board p ! s)" "initialHash p" "[0..<SQ_N]"]
  by (simp add: rebuildDerived_def foldl_rebuildStep_hash [where b = "board p"] boardHash_def)


section \<open>Consistency of the derived structures\<close>

definition bbOk :: "Position \<Rightarrow> bool" where
  "bbOk p =
     (\<forall>c. length (pcGet c (pieceBB p)) = 6
        \<and> (\<forall>i<6. pcGet c (pieceBB p) ! i = bbOf (piecePred (board p) c i))
        \<and> pcGet c (piecesBB p) = bbOf (anyPiecePred (board p) c)
        \<and> pcGet c (wallsBB p) = bbOf (wallPred (board p) c)
        \<and> pcGet c (wallsReinfBB p) = bbOf (reinfPred (board p) c))"

definition hashOk :: "Position \<Rightarrow> bool" where
  "hashOk p = (hash p = initialHash p XOR boardHash (board p))"

definition tokensOk :: "Position \<Rightarrow> bool" where
  "tokensOk p = (\<forall>c. pcGet c (wallTokens p) = wallSum (board p) c)"

definition sovOk :: "Position \<Rightarrow> bool" where
  "sovOk p = (\<forall>c. pcGet c (sovereignSq p) = lastSovereign (board p) c)"

text \<open>A position is consistent when a full rebuild from the raw squares changes nothing.\<close>

definition consistent :: "Position \<Rightarrow> bool" where
  "consistent p = (rebuildDerived p = p)"

lemma initialHash_cong:
  "turn p = turn q \<Longrightarrow> bastionRight p = bastionRight q \<Longrightarrow> wallBuiltLast p = wallBuiltLast q
   \<Longrightarrow> initialHash p = initialHash q"
  by (simp add: initialHash_def)

lemma bbOk_rebuildDerived: "bbOk (rebuildDerived p)"
  by (simp add: bbOk_def rebuildDerived_pieceBB rebuildDerived_piecesBB rebuildDerived_wallsBB
        rebuildDerived_wallsReinfBB rebuildDerived_frame)

lemma hashOk_rebuildDerived: "hashOk (rebuildDerived p)"
  by (simp add: hashOk_def rebuildDerived_hash rebuildDerived_frame
        initialHash_cong [of "rebuildDerived p" p])

lemma tokensOk_rebuildDerived: "tokensOk (rebuildDerived p)"
  by (simp add: tokensOk_def rebuildDerived_wallTokens rebuildDerived_frame)

lemma sovOk_rebuildDerived: "sovOk (rebuildDerived p)"
  by (simp add: sovOk_def rebuildDerived_sovereignSq rebuildDerived_frame)

lemma consistent_iff: "consistent p \<longleftrightarrow> bbOk p \<and> hashOk p \<and> tokensOk p \<and> sovOk p"
proof
  assume "consistent p"
  then have eq: "rebuildDerived p = p" by (simp add: consistent_def)
  show "bbOk p \<and> hashOk p \<and> tokensOk p \<and> sovOk p"
    using bbOk_rebuildDerived [of p] hashOk_rebuildDerived [of p]
      tokensOk_rebuildDerived [of p] sovOk_rebuildDerived [of p]
    by (simp add: eq)
next
  assume ok: "bbOk p \<and> hashOk p \<and> tokensOk p \<and> sovOk p"
  have "pieceBB (rebuildDerived p) = pieceBB p"
  proof (rule pc_eqI)
    fix c
    show "pcGet c (pieceBB (rebuildDerived p)) = pcGet c (pieceBB p)"
      using ok by (intro nth_equalityI) (simp_all add: bbOk_def rebuildDerived_pieceBB)
  qed
  moreover have "piecesBB (rebuildDerived p) = piecesBB p"
    using ok by (intro pc_eqI) (simp add: bbOk_def rebuildDerived_piecesBB)
  moreover have "wallsBB (rebuildDerived p) = wallsBB p"
    using ok by (intro pc_eqI) (simp add: bbOk_def rebuildDerived_wallsBB)
  moreover have "wallsReinfBB (rebuildDerived p) = wallsReinfBB p"
    using ok by (intro pc_eqI) (simp add: bbOk_def rebuildDerived_wallsReinfBB)
  moreover have "wallTokens (rebuildDerived p) = wallTokens p"
    using ok by (intro pc_eqI) (simp add: tokensOk_def rebuildDerived_wallTokens)
  moreover have "sovereignSq (rebuildDerived p) = sovereignSq p"
    using ok by (intro pc_eqI) (simp add: sovOk_def rebuildDerived_sovereignSq)
  moreover have "hash (rebuildDerived p) = hash p"
    using ok by (simp add: hashOk_def rebuildDerived_hash)
  ultimately show "consistent p"
    unfolding consistent_def
    by (intro Position.equality) (simp_all add: rebuildDerived_frame)
qed

lemma consistent_rebuildDerived: "consistent (rebuildDerived p)"
  by (simp add: consistent_iff bbOk_rebuildDerived hashOk_rebuildDerived
        tokensOk_rebuildDerived sovOk_rebuildDerived)


section \<open>\<open>setSquareRaw\<close> keeps bitboards and hash in step with the board\<close>

lemma takeOut_frame:
  "board (takeOut p s v) = board p" "turn (takeOut p s v) = turn p"
  "bastionRight (takeOut p s v) = bastionRight p"
  "wallBuiltLast (takeOut p s v) = wallBuiltLast p"
  "sovereignSq (takeOut p s v) = sovereignSq p" "wallTokens (takeOut p s v) = wallTokens p"
  "halfmove (takeOut p s v) = halfmove p" "fullmove (takeOut p s v) = fullmove p"
  "winner (takeOut p s v) = winner p" "winReason (takeOut p s v) = winReason p"
  "history (takeOut p s v) = history p"
  by (simp_all add: takeOut_def Let_def)

lemma putIn_frame:
  "board (putIn p s v) = board p" "turn (putIn p s v) = turn p"
  "bastionRight (putIn p s v) = bastionRight p"
  "wallBuiltLast (putIn p s v) = wallBuiltLast p"
  "sovereignSq (putIn p s v) = sovereignSq p" "wallTokens (putIn p s v) = wallTokens p"
  "halfmove (putIn p s v) = halfmove p" "fullmove (putIn p s v) = fullmove p"
  "winner (putIn p s v) = winner p" "winReason (putIn p s v) = winReason p"
  "history (putIn p s v) = history p"
  by (simp_all add: putIn_def Let_def)

lemma setSquareRaw_frame:
  "turn (setSquareRaw p s v) = turn p"
  "bastionRight (setSquareRaw p s v) = bastionRight p"
  "wallBuiltLast (setSquareRaw p s v) = wallBuiltLast p"
  "sovereignSq (setSquareRaw p s v) = sovereignSq p"
  "wallTokens (setSquareRaw p s v) = wallTokens p"
  "halfmove (setSquareRaw p s v) = halfmove p" "fullmove (setSquareRaw p s v) = fullmove p"
  "winner (setSquareRaw p s v) = winner p" "winReason (setSquareRaw p s v) = winReason p"
  "history (setSquareRaw p s v) = history p"
  by (simp_all add: setSquareRaw_def Let_def takeOut_frame putIn_frame)

lemma setSquareRaw_board: "board (setSquareRaw p s v) = (board p)[s := v]"
  by (auto simp: setSquareRaw_def Let_def takeOut_frame putIn_frame)

lemma takeOut_pieceBB:
  assumes "i < 6" "length (pcGet c (pieceBB p)) = 6"
  shows "pcGet c (pieceBB (takeOut p s v)) ! i
           = (if isPieceVal v \<and> colorOf v = c \<and> ptIdx (pieceOf v) = i
              then bb_reset (pcGet c (pieceBB p) ! i) s else pcGet c (pieceBB p) ! i)"
    and "length (pcGet c (pieceBB (takeOut p s v))) = 6"
  using assms by (auto simp: takeOut_def Let_def nth_list_update)

lemma putIn_pieceBB:
  assumes "i < 6" "length (pcGet c (pieceBB p)) = 6"
  shows "pcGet c (pieceBB (putIn p s v)) ! i
           = (if isPieceVal v \<and> colorOf v = c \<and> ptIdx (pieceOf v) = i
              then bb_set (pcGet c (pieceBB p) ! i) s else pcGet c (pieceBB p) ! i)"
    and "length (pcGet c (pieceBB (putIn p s v))) = 6"
  using assms by (auto simp: putIn_def Let_def nth_list_update)

lemma takeOut_others:
  "pcGet c (piecesBB (takeOut p s v))
     = (if isPieceVal v \<and> colorOf v = c then bb_reset (pcGet c (piecesBB p)) s
        else pcGet c (piecesBB p))"
  "pcGet c (wallsBB (takeOut p s v))
     = (if isWallVal v \<and> colorOf v = c then bb_reset (pcGet c (wallsBB p)) s
        else pcGet c (wallsBB p))"
  "pcGet c (wallsReinfBB (takeOut p s v))
     = (if isWallVal v \<and> colorOf v = c \<and> wallHp v = 2 then bb_reset (pcGet c (wallsReinfBB p)) s
        else pcGet c (wallsReinfBB p))"
  "hash (takeOut p s v) = hash p XOR squareKey s v"
  by (auto simp: takeOut_def Let_def squareKey_def isPieceVal_not_wall)

lemma putIn_others:
  "pcGet c (piecesBB (putIn p s v))
     = (if isPieceVal v \<and> colorOf v = c then bb_set (pcGet c (piecesBB p)) s
        else pcGet c (piecesBB p))"
  "pcGet c (wallsBB (putIn p s v))
     = (if isWallVal v \<and> colorOf v = c then bb_set (pcGet c (wallsBB p)) s
        else pcGet c (wallsBB p))"
  "pcGet c (wallsReinfBB (putIn p s v))
     = (if isWallVal v \<and> colorOf v = c \<and> wallHp v = 2 then bb_set (pcGet c (wallsReinfBB p)) s
        else pcGet c (wallsReinfBB p))"
  "hash (putIn p s v) = hash p XOR squareKey s v"
  by (auto simp: putIn_def Let_def squareKey_def isPieceVal_not_wall)

lemma setSquareRaw_hash:
  "hash (setSquareRaw p s v) = hash p XOR squareKey s (board p ! s) XOR squareKey s v"
  by (simp add: setSquareRaw_def Let_def takeOut_others putIn_others xor.assoc)

lemma bb_reset_set_bbOf:
  assumes "s < SQ_N" "length b = SQ_N"
  shows "(if P v then bb_set (if P (b ! s) then bb_reset (bbOf (\<lambda>t. P (b ! t))) s
                              else bbOf (\<lambda>t. P (b ! t))) s
          else (if P (b ! s) then bb_reset (bbOf (\<lambda>t. P (b ! t))) s
                else bbOf (\<lambda>t. P (b ! t))))
         = bbOf (\<lambda>t. P (b[s := v] ! t))"
  using assms
  by (auto simp: bb_set_bbOf bb_reset_bbOf nth_list_update intro!: bbOf_cong)

lemma setSquareRaw_bbOk:
  assumes ok: "bbOk p" and s: "s < SQ_N" and len: "length (board p) = SQ_N"
  shows "bbOk (setSquareRaw p s v)"
proof (cases "board p ! s = v")
  case True
  then show ?thesis using ok by (simp add: setSquareRaw_def)
next
  case False
  let ?b = "board p" and ?old = "board p ! s"
  let ?p1 = "takeOut p s ?old"
  let ?p2 = "?p1\<lparr> board := (board ?p1)[s := v] \<rparr>"
  let ?p3 = "putIn ?p2 s v"
  have eq: "setSquareRaw p s v = ?p3"
    using False by (simp add: setSquareRaw_def Let_def)
  have b3: "board ?p3 = ?b[s := v]" by (simp add: putIn_frame takeOut_frame)
  show ?thesis
    unfolding bbOk_def eq b3
  proof (intro allI conjI impI)
    fix c
    have l0: "length (pcGet c (pieceBB p)) = 6" using ok by (simp add: bbOk_def)
    have len1: "length (pcGet c (pieceBB ?p1)) = 6"
      using l0 by (intro takeOut_pieceBB(2) [of 0]) simp_all
    then have len2: "length (pcGet c (pieceBB ?p2)) = 6" by simp
    show "length (pcGet c (pieceBB ?p3)) = 6"
      using len2 by (intro putIn_pieceBB(2) [of 0]) simp_all
    fix i :: nat assume i: "i < 6"
    let ?P = "\<lambda>v. isPieceVal v \<and> colorOf v = c \<and> ptIdx (pieceOf v) = i"
    have pp: "piecePred b c i = (\<lambda>t. ?P (b ! t))" for b by (rule ext) (simp add: piecePred_def)
    have r0: "pcGet c (pieceBB p) ! i = bbOf (\<lambda>t. ?P (?b ! t))"
      using ok i by (simp add: bbOk_def pp)
    have a: "pcGet c (pieceBB ?p3) ! i
               = (if ?P v then bb_set (pcGet c (pieceBB ?p2) ! i) s else pcGet c (pieceBB ?p2) ! i)"
      by (rule putIn_pieceBB(1) [OF i len2])
    have b: "pcGet c (pieceBB ?p2) ! i = pcGet c (pieceBB ?p1) ! i" by simp
    have c: "pcGet c (pieceBB ?p1) ! i
               = (if ?P ?old then bb_reset (pcGet c (pieceBB p) ! i) s else pcGet c (pieceBB p) ! i)"
      by (rule takeOut_pieceBB(1) [OF i l0])
    show "pcGet c (pieceBB ?p3) ! i = bbOf (piecePred (?b[s := v]) c i)"
      unfolding a b c r0 pp by (rule bb_reset_set_bbOf [OF s len])
  next
    fix c
    let ?P = "\<lambda>v. isPieceVal v \<and> colorOf v = c"
    have pp: "anyPiecePred b c = (\<lambda>t. ?P (b ! t))" for b by (rule ext) (simp add: anyPiecePred_def)
    have r0: "pcGet c (piecesBB p) = bbOf (\<lambda>t. ?P (?b ! t))" using ok by (simp add: bbOk_def pp)
    have a: "pcGet c (piecesBB ?p3)
               = (if ?P v then bb_set (pcGet c (piecesBB ?p2)) s else pcGet c (piecesBB ?p2))"
      by (rule putIn_others)
    have b: "pcGet c (piecesBB ?p2) = pcGet c (piecesBB ?p1)" by simp
    have c: "pcGet c (piecesBB ?p1)
               = (if ?P ?old then bb_reset (pcGet c (piecesBB p)) s else pcGet c (piecesBB p))"
      by (rule takeOut_others)
    show "pcGet c (piecesBB ?p3) = bbOf (anyPiecePred (?b[s := v]) c)"
      unfolding a b c r0 pp by (rule bb_reset_set_bbOf [OF s len])
  next
    fix c
    let ?P = "\<lambda>v. isWallVal v \<and> colorOf v = c"
    have pp: "wallPred b c = (\<lambda>t. ?P (b ! t))" for b by (rule ext) (simp add: wallPred_def)
    have r0: "pcGet c (wallsBB p) = bbOf (\<lambda>t. ?P (?b ! t))" using ok by (simp add: bbOk_def pp)
    have a: "pcGet c (wallsBB ?p3)
               = (if ?P v then bb_set (pcGet c (wallsBB ?p2)) s else pcGet c (wallsBB ?p2))"
      by (rule putIn_others)
    have b: "pcGet c (wallsBB ?p2) = pcGet c (wallsBB ?p1)" by simp
    have c: "pcGet c (wallsBB ?p1)
               = (if ?P ?old then bb_reset (pcGet c (wallsBB p)) s else pcGet c (wallsBB p))"
      by (rule takeOut_others)
    show "pcGet c (wallsBB ?p3) = bbOf (wallPred (?b[s := v]) c)"
      unfolding a b c r0 pp by (rule bb_reset_set_bbOf [OF s len])
  next
    fix c
    let ?P = "\<lambda>v. isWallVal v \<and> colorOf v = c \<and> wallHp v = 2"
    have pp: "reinfPred b c = (\<lambda>t. ?P (b ! t))" for b by (rule ext) (simp add: reinfPred_def)
    have r0: "pcGet c (wallsReinfBB p) = bbOf (\<lambda>t. ?P (?b ! t))"
      using ok by (simp add: bbOk_def pp)
    have a: "pcGet c (wallsReinfBB ?p3)
               = (if ?P v then bb_set (pcGet c (wallsReinfBB ?p2)) s else pcGet c (wallsReinfBB ?p2))"
      by (rule putIn_others)
    have b: "pcGet c (wallsReinfBB ?p2) = pcGet c (wallsReinfBB ?p1)" by simp
    have c: "pcGet c (wallsReinfBB ?p1)
               = (if ?P ?old then bb_reset (pcGet c (wallsReinfBB p)) s
                  else pcGet c (wallsReinfBB p))"
      by (rule takeOut_others)
    show "pcGet c (wallsReinfBB ?p3) = bbOf (reinfPred (?b[s := v]) c)"
      unfolding a b c r0 pp by (rule bb_reset_set_bbOf [OF s len])
  qed
qed

section \<open>Make followed by undo\<close>

lemma bbOk_same_board:
  assumes "bbOk p" "bbOk q" "board p = board q"
  shows "pieceBB p = pieceBB q" "piecesBB p = piecesBB q" "wallsBB p = wallsBB q"
    "wallsReinfBB p = wallsReinfBB q"
proof -
  show "pieceBB p = pieceBB q"
  proof (rule pc_eqI)
    fix c
    show "pcGet c (pieceBB p) = pcGet c (pieceBB q)"
      using assms by (intro nth_equalityI) (simp_all add: bbOk_def)
  qed
  show "piecesBB p = piecesBB q" using assms by (intro pc_eqI) (simp add: bbOk_def)
  show "wallsBB p = wallsBB q" using assms by (intro pc_eqI) (simp add: bbOk_def)
  show "wallsReinfBB p = wallsReinfBB q" using assms by (intro pc_eqI) (simp add: bbOk_def)
qed

lemma bbOk_field_updates [simp]:
  "bbOk (p\<lparr> turn := a1 \<rparr>) = bbOk p" "bbOk (p\<lparr> bastionRight := a2 \<rparr>) = bbOk p"
  "bbOk (p\<lparr> wallBuiltLast := a3 \<rparr>) = bbOk p" "bbOk (p\<lparr> sovereignSq := a4 \<rparr>) = bbOk p"
  "bbOk (p\<lparr> wallTokens := a5 \<rparr>) = bbOk p" "bbOk (p\<lparr> halfmove := a6 \<rparr>) = bbOk p"
  "bbOk (p\<lparr> fullmove := a7 \<rparr>) = bbOk p" "bbOk (p\<lparr> winner := a8 \<rparr>) = bbOk p"
  "bbOk (p\<lparr> winReason := a9 \<rparr>) = bbOk p" "bbOk (p\<lparr> hash := a10 \<rparr>) = bbOk p"
  "bbOk (p\<lparr> history := a11 \<rparr>) = bbOk p"
  by (simp_all add: bbOk_def)

text \<open>The bookkeeping relation between the position before a move, the position while the
  move is being applied, and the squares saved so far: the board is 81 squares, the
  bitboards follow it, it differs from the old board only on saved squares, and every
  saved square carries its old content.\<close>

definition tracks :: "Position \<Rightarrow> Position \<Rightarrow> Undo \<Rightarrow> bool" where
  "tracks p0 p u =
     (length (board p) = SQ_N \<and> bbOk p
      \<and> (\<forall>t. t \<notin> fst ` set (saved u) \<longrightarrow> board p ! t = board p0 ! t)
      \<and> (\<forall>(s, v) \<in> set (saved u). s < SQ_N \<and> v = board p0 ! s))"

lemma tracks_saveSquare:
  "tracks p0 p u \<Longrightarrow> s < SQ_N \<Longrightarrow> tracks p0 p (saveSquare p u s)"
  by (auto simp: tracks_def saveSquare_def rawAt_def)

lemma saved_saveSquare: "s \<in> fst ` set (saved (saveSquare p u s))"
  by (auto simp: saveSquare_def)

lemma saved_mono: "t \<in> fst ` set (saved u) \<Longrightarrow> t \<in> fst ` set (saved (saveSquare p u s))"
  by (auto simp: saveSquare_def)

lemma tracks_setSquareRaw:
  assumes "tracks p0 p u" "s \<in> fst ` set (saved u)"
  shows "tracks p0 (setSquareRaw p s v) u"
proof -
  have s: "s < SQ_N" using assms by (auto simp: tracks_def)
  show ?thesis
    using assms s setSquareRaw_bbOk [of p s v]
    by (auto simp: tracks_def setSquareRaw_board nth_list_update)
qed

lemma tracks_fields [simp]:
  "tracks p0 (p\<lparr> turn := a1 \<rparr>) u = tracks p0 p u"
  "tracks p0 (p\<lparr> bastionRight := a2 \<rparr>) u = tracks p0 p u"
  "tracks p0 (p\<lparr> wallBuiltLast := a3 \<rparr>) u = tracks p0 p u"
  "tracks p0 (p\<lparr> sovereignSq := a4 \<rparr>) u = tracks p0 p u"
  "tracks p0 (p\<lparr> wallTokens := a5 \<rparr>) u = tracks p0 p u"
  "tracks p0 (p\<lparr> halfmove := a6 \<rparr>) u = tracks p0 p u"
  "tracks p0 (p\<lparr> fullmove := a7 \<rparr>) u = tracks p0 p u"
  "tracks p0 (p\<lparr> winner := a8 \<rparr>) u = tracks p0 p u"
  "tracks p0 (p\<lparr> winReason := a9 \<rparr>) u = tracks p0 p u"
  "tracks p0 (p\<lparr> hash := a10 \<rparr>) u = tracks p0 p u"
  "tracks p0 (p\<lparr> history := a11 \<rparr>) u = tracks p0 p u"
  by (simp_all add: tracks_def)

lemma tracks_helpers:
  "tracks p0 (addWallTokens p c d) u = tracks p0 p u"
  "tracks p0 (setWallBuiltLast p c v) u = tracks p0 p u"
  "tracks p0 (sovereignMoved p c s) u = tracks p0 p u"
  "tracks p0 (finalizeTurn p) u = tracks p0 p u"
  by (simp_all add: addWallTokens_def setWallBuiltLast_def sovereignMoved_def finalizeTurn_def
        Let_def)

lemma tracks_hitWall:
  "tracks p0 p u \<Longrightarrow> s \<in> fst ` set (saved u) \<Longrightarrow> tracks p0 (hitWall p s) u"
  by (simp add: hitWall_def Let_def tracks_helpers tracks_setSquareRaw)

text \<open>The fields \<open>undoMove\<close> restores wholesale.\<close>

definition keepsGlobals :: "Position \<Rightarrow> Undo \<Rightarrow> bool" where
  "keepsGlobals p0 u =
     (prevTurn u = turn p0 \<and> prevBastionRight u = bastionRight p0
      \<and> prevWallBuiltLast u = wallBuiltLast p0 \<and> prevSovereignSq u = sovereignSq p0
      \<and> prevWallTokens u = wallTokens p0 \<and> prevHalfmove u = halfmove p0
      \<and> prevFullmove u = fullmove p0 \<and> prevWinner u = winner p0
      \<and> prevWinReason u = winReason p0)"

lemma keepsGlobals_saveSquare [simp]: "keepsGlobals p0 (saveSquare p u s) = keepsGlobals p0 u"
  by (simp add: keepsGlobals_def saveSquare_def)

lemma history_helpers [simp]:
  "history (addWallTokens p c d) = history p" "history (setWallBuiltLast p c f) = history p"
  "history (sovereignMoved p c s) = history p" "history (finalizeTurn p) = history p"
  "history (hitWall p s) = history p" "history (setSquareRaw p s v) = history p"
  by (simp_all add: addWallTokens_def setWallBuiltLast_def sovereignMoved_def finalizeTurn_def
        hitWall_def Let_def setSquareRaw_frame)


definition squaresOk :: "Move \<Rightarrow> bool" where
  "squaresOk m =
     (mfrom m < SQ_N \<and> mto m < SQ_N
      \<and> (case mtype m of
            Bastion \<Rightarrow> maux1 m < SQ_N \<and> maux2 m < SQ_N
          | MasonCommand \<Rightarrow> maux1 m = SQ_NONE \<or> maux1 m < SQ_N
          | CatapultMove \<Rightarrow> maux1 m = SQ_NONE \<or> maux1 m < SQ_N
          | _ \<Rightarrow> True))"

definition stepOk :: "Position \<Rightarrow> Position \<Rightarrow> Position \<times> Undo \<Rightarrow> bool" where
  "stepOk p0 p r = (case r of (p', u') \<Rightarrow>
      tracks p0 p' u' \<and> keepsGlobals p0 u' \<and> history p' = history p)"

lemma movePiece_tracks:
  assumes "tracks p0 p u" "keepsGlobals p0 u" "mfrom m < SQ_N" "mto m < SQ_N"
  shows "stepOk p0 p (movePiece p u m srcV)"
proof -
  let ?u1 = "saveSquare p u (mfrom m)"
  let ?u2 = "saveSquare p ?u1 (mto m)"
  have t2: "tracks p0 p ?u2" using assms by (intro tracks_saveSquare) simp_all
  have m1: "mto m \<in> fst ` set (saved ?u2)" by (rule saved_saveSquare)
  have t3: "tracks p0 (setSquareRaw p (mto m) srcV) ?u2" by (rule tracks_setSquareRaw [OF t2 m1])
  have m2: "mfrom m \<in> fst ` set (saved ?u2)" by (intro saved_mono saved_saveSquare)
  have "tracks p0 (setSquareRaw (setSquareRaw p (mto m) srcV) (mfrom m) 0) ?u2"
    by (rule tracks_setSquareRaw [OF t3 m2])
  then show ?thesis using assms(2) by (simp add: stepOk_def movePiece_def Let_def)
qed

lemma captureSovereign_tracks:
  assumes "tracks p0 p u" "keepsGlobals p0 u" "mfrom m < SQ_N" "toSq < SQ_N"
  shows "stepOk p0 p (captureSovereign p u m toSq srcV)"
proof -
  let ?u1 = "saveSquare p u toSq"
  let ?u2 = "saveSquare p ?u1 (mfrom m)"
  have t2: "tracks p0 p ?u2" using assms by (intro tracks_saveSquare) simp_all
  have m1: "toSq \<in> fst ` set (saved ?u2)" by (intro saved_mono saved_saveSquare)
  have t3: "tracks p0 (setSquareRaw p toSq srcV) ?u2" by (rule tracks_setSquareRaw [OF t2 m1])
  have m2: "mfrom m \<in> fst ` set (saved ?u2)" by (rule saved_saveSquare)
  have "tracks p0 (setSquareRaw (setSquareRaw p toSq srcV) (mfrom m) 0) ?u2"
    by (rule tracks_setSquareRaw [OF t3 m2])
  then show ?thesis
    using assms(2) by (simp add: stepOk_def captureSovereign_def Let_def tracks_helpers)
qed

lemma makeNormal_tracks:
  assumes "tracks p0 p u" "keepsGlobals p0 u" "mfrom m < SQ_N" "mto m < SQ_N"
  shows "stepOk p0 p (makeNormal p u m)"
proof (cases "isSovereignCapture p m")
  case True
  then show ?thesis using captureSovereign_tracks [OF assms] by (simp add: makeNormal_def Let_def)
next
  case False
  obtain p2 u2 where mp: "movePiece p u m (rawAt p (mfrom m)) = (p2, u2)"
    by (cases "movePiece p u m (rawAt p (mfrom m))")
  have "stepOk p0 p (p2, u2)"
    using movePiece_tracks [OF assms, where srcV = "rawAt p (mfrom m)"] mp by simp
  then show ?thesis
    using False mp by (simp add: makeNormal_def Let_def stepOk_def tracks_helpers)
qed

lemma makeMasonConstruct_tracks:
  assumes "tracks p0 p u" "keepsGlobals p0 u" "mto m < SQ_N"
  shows "stepOk p0 p (makeMasonConstruct p u m)"
proof -
  let ?u1 = "saveSquare p u (mto m)"
  have t1: "tracks p0 p ?u1" using assms by (intro tracks_saveSquare) simp_all
  have m1: "mto m \<in> fst ` set (saved ?u1)" by (rule saved_saveSquare)
  have "tracks p0 (setSquareRaw p (mto m) v) ?u1" for v
    by (rule tracks_setSquareRaw [OF t1 m1])
  then show ?thesis
    using assms(2) by (simp add: stepOk_def makeMasonConstruct_def Let_def tracks_helpers)
qed

lemma makeMasonCommand_tracks:
  assumes "tracks p0 p u" "keepsGlobals p0 u" "mfrom m < SQ_N" "mto m < SQ_N"
    "maux1 m = SQ_NONE \<or> maux1 m < SQ_N"
  shows "stepOk p0 p (makeMasonCommand p u m)"
proof (cases "isSovereignCapture p m")
  case True
  then show ?thesis
    using captureSovereign_tracks [OF assms(1-4)] by (simp add: makeMasonCommand_def Let_def)
next
  case False
  obtain p2 u2 where mp: "movePiece p u m (rawAt p (mfrom m)) = (p2, u2)"
    by (cases "movePiece p u m (rawAt p (mfrom m))")
  have s2: "tracks p0 p2 u2" "keepsGlobals p0 u2" "history p2 = history p"
    using movePiece_tracks [OF assms(1-4), where srcV = "rawAt p (mfrom m)"] mp
    by (simp_all add: stepOk_def)
  show ?thesis
  proof (cases "maux1 m = SQ_NONE")
    case True
    then show ?thesis
      using False mp s2 by (simp add: makeMasonCommand_def Let_def stepOk_def tracks_helpers)
  next
    case aux: False
    then have a: "maux1 m < SQ_N" using assms(5) by simp
    let ?u3 = "saveSquare p2 u2 (maux1 m)"
    have t3: "tracks p0 p2 ?u3" by (rule tracks_saveSquare [OF s2(1) a])
    have m3: "maux1 m \<in> fst ` set (saved ?u3)" by (rule saved_saveSquare)
    have "tracks p0 (setSquareRaw p2 (maux1 m) v) ?u3" for v
      by (rule tracks_setSquareRaw [OF t3 m3])
    then show ?thesis
      using False mp s2 aux
      by (simp add: makeMasonCommand_def Let_def stepOk_def tracks_helpers)
  qed
qed

lemma makeCatapultRangedDemolish_tracks:
  assumes "tracks p0 p u" "keepsGlobals p0 u" "mto m < SQ_N"
  shows "stepOk p0 p (makeCatapultRangedDemolish p u m)"
proof -
  let ?u1 = "saveSquare p u (mto m)"
  have t1: "tracks p0 p ?u1" using assms by (intro tracks_saveSquare) simp_all
  have m1: "mto m \<in> fst ` set (saved ?u1)" by (rule saved_saveSquare)
  have "tracks p0 (hitWall p (mto m)) ?u1" by (rule tracks_hitWall [OF t1 m1])
  then show ?thesis
    using assms(2)
    by (simp add: stepOk_def makeCatapultRangedDemolish_def Let_def tracks_helpers)
qed

lemma makeCatapultMove_tracks:
  assumes "tracks p0 p u" "keepsGlobals p0 u" "mfrom m < SQ_N" "mto m < SQ_N"
    "maux1 m = SQ_NONE \<or> maux1 m < SQ_N"
  shows "stepOk p0 p (makeCatapultMove p u m)"
proof (cases "isSovereignCapture p m")
  case True
  then show ?thesis
    using captureSovereign_tracks [OF assms(1-4)] by (simp add: makeCatapultMove_def Let_def)
next
  case False
  obtain p2 u2 where mp: "movePiece p u m (rawAt p (mfrom m)) = (p2, u2)"
    by (cases "movePiece p u m (rawAt p (mfrom m))")
  have s2: "tracks p0 p2 u2" "keepsGlobals p0 u2" "history p2 = history p"
    using movePiece_tracks [OF assms(1-4), where srcV = "rawAt p (mfrom m)"] mp
    by (simp_all add: stepOk_def)
  show ?thesis
  proof (cases "maux1 m = SQ_NONE")
    case True
    then show ?thesis
      using False mp s2 by (simp add: makeCatapultMove_def Let_def stepOk_def tracks_helpers)
  next
    case aux: False
    then have a: "maux1 m < SQ_N" using assms(5) by simp
    let ?u3 = "saveSquare p2 u2 (maux1 m)"
    have t3: "tracks p0 p2 ?u3" by (rule tracks_saveSquare [OF s2(1) a])
    have m3: "maux1 m \<in> fst ` set (saved ?u3)" by (rule saved_saveSquare)
    have "tracks p0 (hitWall p2 (maux1 m)) ?u3" by (rule tracks_hitWall [OF t3 m3])
    then show ?thesis
      using False mp s2 aux
      by (simp add: makeCatapultMove_def Let_def stepOk_def tracks_helpers)
  qed
qed

lemma makeBastion_tracks:
  assumes "tracks p0 p u" "keepsGlobals p0 u" "mfrom m < SQ_N" "mto m < SQ_N"
    "maux1 m < SQ_N" "maux2 m < SQ_N"
  shows "stepOk p0 p (makeBastion p u m)"
proof -
  let ?us = "turn p"
  let ?u1 = "saveSquare p u (mfrom m)"
  let ?u2 = "saveSquare p ?u1 (mto m)"
  let ?p1 = "setSquareRaw p (mto m) (rawAt p (mfrom m))"
  let ?p2 = "setSquareRaw ?p1 (mfrom m) (rawAt p (mto m))"
  let ?p3 = "sovereignMoved ?p2 ?us (mto m)"
  let ?u3 = "saveSquare ?p3 ?u2 (maux1 m)"
  let ?p4 = "addWallTokens (setSquareRaw ?p3 (maux1 m) (makeWall ?us 1)) ?us 1"
  let ?u4 = "saveSquare ?p4 ?u3 (maux2 m)"
  let ?p5 = "addWallTokens (setSquareRaw ?p4 (maux2 m) (makeWall ?us 1)) ?us 1"
  have t2: "tracks p0 p ?u2" using assms by (intro tracks_saveSquare) simp_all
  have m1: "mto m \<in> fst ` set (saved ?u2)" by (rule saved_saveSquare)
  have t3: "tracks p0 ?p1 ?u2" by (rule tracks_setSquareRaw [OF t2 m1])
  have m2: "mfrom m \<in> fst ` set (saved ?u2)" by (intro saved_mono saved_saveSquare)
  have "tracks p0 ?p2 ?u2" by (rule tracks_setSquareRaw [OF t3 m2])
  then have t4: "tracks p0 ?p3 ?u2" by (simp add: tracks_helpers)
  have t5: "tracks p0 ?p3 ?u3" by (rule tracks_saveSquare [OF t4 assms(5)])
  have m3: "maux1 m \<in> fst ` set (saved ?u3)" by (rule saved_saveSquare)
  have "tracks p0 (setSquareRaw ?p3 (maux1 m) (makeWall ?us 1)) ?u3"
    by (rule tracks_setSquareRaw [OF t5 m3])
  then have t6: "tracks p0 ?p4 ?u3" by (simp add: tracks_helpers)
  have t7: "tracks p0 ?p4 ?u4" by (rule tracks_saveSquare [OF t6 assms(6)])
  have m4: "maux2 m \<in> fst ` set (saved ?u4)" by (rule saved_saveSquare)
  have "tracks p0 (setSquareRaw ?p4 (maux2 m) (makeWall ?us 1)) ?u4"
    by (rule tracks_setSquareRaw [OF t7 m4])
  then have "tracks p0 ?p5 ?u4" by (simp add: tracks_helpers)
  then show ?thesis
    using assms(2) by (simp add: stepOk_def makeBastion_def Let_def tracks_helpers)
qed

lemma makeMove_tracks:
  assumes "bbOk p" "length (board p) = SQ_N" "squaresOk m"
  shows "case makeMove p m of (p', u) \<Rightarrow>
           tracks p p' u \<and> keepsGlobals p u \<and> history p' = history p @ [hash p]"
proof -
  let ?p0 = "p\<lparr> history := history p @ [hash p] \<rparr>"
  let ?u = "\<lparr> prevTurn = turn ?p0, prevBastionRight = bastionRight ?p0,
              prevWallBuiltLast = wallBuiltLast ?p0, prevSovereignSq = sovereignSq ?p0,
              prevWallTokens = wallTokens ?p0, prevHalfmove = halfmove ?p0,
              prevFullmove = fullmove ?p0, prevWinner = winner ?p0,
              prevWinReason = winReason ?p0, saved = [] \<rparr>"
  have t0: "tracks p ?p0 ?u" using assms(1,2) by (simp add: tracks_def)
  have k0: "keepsGlobals p ?u" by (simp add: keepsGlobals_def)
  have sq: "mfrom m < SQ_N" "mto m < SQ_N" using assms(3) by (simp_all add: squaresOk_def)
  have "stepOk p ?p0 (if gameOver ?p0 then (?p0, ?u)
         else (case mtype m of
                 Normal \<Rightarrow> makeNormal ?p0 ?u m
               | MasonConstruct \<Rightarrow> makeMasonConstruct ?p0 ?u m
               | MasonCommand \<Rightarrow> makeMasonCommand ?p0 ?u m
               | CatapultRangedDemolish \<Rightarrow> makeCatapultRangedDemolish ?p0 ?u m
               | CatapultMove \<Rightarrow> makeCatapultMove ?p0 ?u m
               | Bastion \<Rightarrow> makeBastion ?p0 ?u m))"
  proof (cases "gameOver ?p0")
    case True
    then show ?thesis using t0 k0 by (simp add: stepOk_def)
  next
    case False
    show ?thesis
    proof (cases "mtype m")
      case Normal
      then show ?thesis using False makeNormal_tracks [OF t0 k0 sq] by simp
    next
      case MasonConstruct
      then show ?thesis using False makeMasonConstruct_tracks [OF t0 k0 sq(2)] by simp
    next
      case MasonCommand
      then have "maux1 m = SQ_NONE \<or> maux1 m < SQ_N" using assms(3) by (simp add: squaresOk_def)
      then show ?thesis using False MasonCommand makeMasonCommand_tracks [OF t0 k0 sq] by simp
    next
      case CatapultMove
      then have "maux1 m = SQ_NONE \<or> maux1 m < SQ_N" using assms(3) by (simp add: squaresOk_def)
      then show ?thesis using False CatapultMove makeCatapultMove_tracks [OF t0 k0 sq] by simp
    next
      case CatapultRangedDemolish
      then show ?thesis using False makeCatapultRangedDemolish_tracks [OF t0 k0 sq(2)] by simp
    next
      case Bastion
      then have "maux1 m < SQ_N" "maux2 m < SQ_N" using assms(3) by (simp_all add: squaresOk_def)
      then show ?thesis using False Bastion makeBastion_tracks [OF t0 k0 sq] by simp
    qed
  qed
  then show ?thesis by (simp add: makeMove_def Let_def stepOk_def split: prod.splits)
qed


lemma restore_squares:
  assumes "\<forall>(s, v) \<in> set xs. s < SQ_N \<and> v = b0 ! s" "length (board q) = SQ_N" "bbOk q"
  shows "bbOk (foldl (\<lambda>q (s, v). setSquareRaw q s v) q xs)
     \<and> length (board (foldl (\<lambda>q (s, v). setSquareRaw q s v) q xs)) = SQ_N
     \<and> (\<forall>t. board (foldl (\<lambda>q (s, v). setSquareRaw q s v) q xs) ! t
             = (if t \<in> fst ` set xs then b0 ! t else board q ! t))
     \<and> history (foldl (\<lambda>q (s, v). setSquareRaw q s v) q xs) = history q"
  using assms
proof (induction xs arbitrary: q)
  case Nil
  then show ?case by simp
next
  case (Cons x xs)
  obtain s v where x: "x = (s, v)" by (cases x)
  have s: "s < SQ_N" and v: "v = b0 ! s" using Cons.prems(1) x by auto
  let ?q1 = "setSquareRaw q s v"
  have ok1: "bbOk ?q1" using Cons.prems(3) s Cons.prems(2) by (rule setSquareRaw_bbOk)
  have len1: "length (board ?q1) = SQ_N" using Cons.prems(2) by (simp add: setSquareRaw_board)
  have rest: "\<forall>(s, v) \<in> set xs. s < SQ_N \<and> v = b0 ! s" using Cons.prems(1) by simp
  note ih = Cons.IH [OF rest len1 ok1]
  have b1: "board ?q1 ! t = (if t = s then b0 ! s else board q ! t)" for t
    using s Cons.prems(2) v by (simp add: setSquareRaw_board nth_list_update)
  show ?case
    using ih by (auto simp: x b1 setSquareRaw_frame)
qed

lemma undoMove_restores:
  assumes "tracks p p' u" "keepsGlobals p u" "history p' = history p @ [hash p]"
    "bbOk p" "length (board p) = SQ_N"
  shows "undoMove p' u = p"
proof -
  let ?p1 = "foldl (\<lambda>q (s, v). setSquareRaw q s v) p' (saved u)"
  have sv: "\<forall>(s, v) \<in> set (saved u). s < SQ_N \<and> v = board p ! s"
    and len': "length (board p') = SQ_N" and ok': "bbOk p'"
    and out: "\<And>t. t \<notin> fst ` set (saved u) \<Longrightarrow> board p' ! t = board p ! t"
    using assms(1) by (auto simp: tracks_def)
  note r = restore_squares [OF sv len' ok']
  have board1: "board ?p1 = board p"
    using r out assms(5) by (intro nth_equalityI) auto
  have ok1: "bbOk ?p1" using r by simp
  note bbs = bbOk_same_board [OF ok1 assms(4) board1]
  have hist: "history ?p1 = history p @ [hash p]" using r assms(3) by simp
  show ?thesis
    using assms(2) board1 bbs hist
    by (intro Position.equality) (simp_all add: undoMove_def Let_def keepsGlobals_def)
qed


section \<open>The generator: squares in range, position unchanged\<close>

lemma sq_inBounds: "inBounds r c \<Longrightarrow> sq r c < SQ_N"
  by (auto simp: inBounds_def sq_def N_def SQ_N_def)

lemma rayWalk_range: "t \<in> set (rayWalk rr cc dr dc) \<Longrightarrow> t < SQ_N"
proof (induction rr cc dr dc rule: rayWalk.induct)
  case (1 rr cc dr dc)
  then show ?case
    by (subst (asm) (2) rayWalk.simps) (auto simp: sq_inBounds split: if_splits)
qed

lemma ray_range: "t \<in> set (ray s dir) \<Longrightarrow> t < SQ_N"
  by (auto simp: ray_def rayWalk_range split: prod.splits)

lemma targetsFrom_range: "t \<in> set (targetsFrom ds s) \<Longrightarrow> t < SQ_N"
  by (auto simp: targetsFrom_def sq_inBounds)

lemma kingTargets_range: "t \<in> set (kingTargets s) \<Longrightarrow> t < SQ_N"
  by (simp add: kingTargets_def targetsFrom_range)

lemma knightTargets_range: "t \<in> set (knightTargets s) \<Longrightarrow> t < SQ_N"
  by (simp add: knightTargets_def targetsFrom_range)

lemma orthEmpties_range: "t \<in> set (orthEmpties p s) \<Longrightarrow> t < SQ_N"
  by (auto simp: orthEmpties_def sq_inBounds)

lemma pieceSquares_bbOk:
  assumes "bbOk p" "pt \<noteq> Count"
  shows "pieceSquares p c pt = filter (piecePred (board p) c (ptIdx pt)) [0..<SQ_N]"
proof -
  have "ptIdx pt < 6" using assms(2) by (cases pt) simp_all
  then have "pcGet c (pieceBB p) ! ptIdx pt = bbOf (piecePred (board p) c (ptIdx pt))"
    using assms(1) by (simp add: bbOk_def)
  then show ?thesis by (simp add: pieceSquares_def bbSquares_bbOf)
qed

lemma pieceSquares_range:
  "bbOk p \<Longrightarrow> pt \<noteq> Count \<Longrightarrow> s \<in> set (pieceSquares p c pt) \<Longrightarrow> s < SQ_N"
  by (simp add: pieceSquares_bbOk)

text \<open>A move whose origin is \<open>f\<close> and whose squares are on the board.\<close>

definition fromOk :: "nat \<Rightarrow> Move \<Rightarrow> bool" where
  "fromOk f m = (mfrom m = f \<and> squaresOk m)"

lemma fromOk_simps [simp]:
  "fromOk f (mkMove Normal f' t a1 a2) = (f' = f \<and> f < SQ_N \<and> t < SQ_N)"
  "fromOk f (mkMove MasonConstruct f' t a1 a2) = (f' = f \<and> f < SQ_N \<and> t < SQ_N)"
  "fromOk f (mkMove CatapultRangedDemolish f' t a1 a2) = (f' = f \<and> f < SQ_N \<and> t < SQ_N)"
  "fromOk f (mkMove MasonCommand f' t a1 a2)
     = (f' = f \<and> f < SQ_N \<and> t < SQ_N \<and> (a1 = SQ_NONE \<or> a1 < SQ_N))"
  "fromOk f (mkMove CatapultMove f' t a1 a2)
     = (f' = f \<and> f < SQ_N \<and> t < SQ_N \<and> (a1 = SQ_NONE \<or> a1 < SQ_N))"
  "fromOk f (mkMove Bastion f' t a1 a2)
     = (f' = f \<and> f < SQ_N \<and> t < SQ_N \<and> a1 < SQ_N \<and> a2 < SQ_N)"
  by (auto simp: fromOk_def squaresOk_def mkMove_def)

lemma masonOrtho_ok:
  "f < SQ_N \<Longrightarrow> m \<in> set (masonOrtho p f dr dc steps) \<Longrightarrow> fromOk f m"
  by (induction steps) (auto simp: Let_def normalMove_def sq_inBounds split: if_splits)

lemma lancerMoves_ok:
  "f < SQ_N \<Longrightarrow> \<forall>t\<in>set xs. t < SQ_N \<Longrightarrow> m \<in> set (lancerMoves p f us xs) \<Longrightarrow> fromOk f m"
  by (induction xs) (auto simp: Let_def normalMove_def split: if_splits)

lemma slideMoves_ok:
  "f < SQ_N \<Longrightarrow> \<forall>t\<in>set xs. t < SQ_N \<Longrightarrow> m \<in> set (slideMoves p f us xs) \<Longrightarrow> fromOk f m"
  by (induction xs) (auto simp: Let_def normalMove_def split: if_splits)

lemma masonDiagTargets_range: "t \<in> set (masonDiagTargets p f us) \<Longrightarrow> t < SQ_N"
  unfolding masonDiagTargets_def Let_def set_map set_filter
  by (auto simp: sq_inBounds)

lemma genNormalMovesForPiece_ok:
  assumes "f < SQ_N" "m \<in> set (genNormalMovesForPiece p f pt us)"
  shows "fromOk f m"
proof (cases pt)
  case Mason
  then show ?thesis
    using assms
    by (auto simp: genNormalMovesForPiece_def Let_def normalMove_def
          dest: masonOrtho_ok masonDiagTargets_range)
next
  case Pegasus
  then show ?thesis
    using assms
    by (auto simp: genNormalMovesForPiece_def normalMove_def dest: knightTargets_range)
next
  case Lancer
  then show ?thesis
    using assms
    by (auto simp: genNormalMovesForPiece_def dest!: lancerMoves_ok [rotated 2] dest: ray_range)
next
  case Minister
  then show ?thesis
    using assms
    by (auto simp: genNormalMovesForPiece_def Let_def
          dest!: slideMoves_ok [rotated 2] dest: ray_range in_set_takeD)
next
  case Sovereign
  then show ?thesis
    using assms
    by (auto simp: genNormalMovesForPiece_def Let_def split: if_splits
          dest!: slideMoves_ok [rotated 2] dest: ray_range in_set_takeD)
qed (use assms in \<open>simp_all add: genNormalMovesForPiece_def\<close>)

lemma rangedTarget_ok:
  "f < SQ_N \<Longrightarrow> \<forall>t\<in>set xs. t < SQ_N \<Longrightarrow> m \<in> set (rangedTarget p f xs) \<Longrightarrow> fromOk f m"
  by (induction xs) (auto simp: Let_def split: if_splits)

lemma catapultVariants_ok:
  "f < SQ_N \<Longrightarrow> t < SQ_N \<Longrightarrow> m \<in> set (catapultVariants p f t) \<Longrightarrow> fromOk f m"
  by (auto simp: catapultVariants_def adjWalls_def dest: kingTargets_range)

lemma catapultRay_ok:
  "f < SQ_N \<Longrightarrow> \<forall>t\<in>set xs. t < SQ_N \<Longrightarrow> m \<in> set (catapultRay p f us xs) \<Longrightarrow> fromOk f m"
  by (induction xs) (auto simp: Let_def split: if_splits dest: catapultVariants_ok [rotated 2])

lemma genCatapultExtras_ok:
  "f < SQ_N \<Longrightarrow> m \<in> set (genCatapultExtras p f us) \<Longrightarrow> fromOk f m"
  by (auto simp: genCatapultExtras_def dest!: rangedTarget_ok [rotated 2] catapultRay_ok [rotated 2]
        dest: ray_range)

lemma pairsOf_set: "(a, b) \<in> set (pairsOf xs) \<Longrightarrow> a \<in> set xs \<and> b \<in> set xs"
  by (induction xs) auto

lemma genBastion_ok:
  "f < SQ_N \<Longrightarrow> m \<in> set (genBastion p f us) \<Longrightarrow> fromOk f m"
  by (auto simp: genBastion_def bastionFor_def bastionEmpties_def Let_def split: if_splits
        dest!: pairsOf_set dest: kingTargets_range)


lemma xor_cancel_left: "a XOR (a XOR b) = b" for a b :: "64 word"
  by (simp add: xor.assoc [symmetric])

lemma squareKey_zero [simp]: "squareKey s 0 = 0"
  by (simp add: squareKey_def)

text \<open>The temporary Mason move of \<open>considerCommandDest\<close> and its restoration.\<close>

lemma temp_move_restored:
  assumes ok: "bbOk p" and len: "length (board p) = SQ_N" and m: "ms < SQ_N" and d: "ds < SQ_N"
  shows "setSquareRaw (setSquareRaw (setSquareRaw (setSquareRaw p ds (rawAt p ms)) ms 0)
           ms (rawAt p ms)) ds (rawAt p ds) = p"
proof -
  let ?f = "rawAt p ms" and ?t = "rawAt p ds"
  let ?p1 = "setSquareRaw p ds ?f"
  let ?p2 = "setSquareRaw ?p1 ms 0"
  let ?p3 = "setSquareRaw ?p2 ms ?f"
  let ?p4 = "setSquareRaw ?p3 ds ?t"
  have ok1: "bbOk ?p1" using ok d len by (rule setSquareRaw_bbOk)
  have len1: "length (board ?p1) = SQ_N" using len by (simp add: setSquareRaw_board)
  have ok2: "bbOk ?p2" using ok1 m len1 by (rule setSquareRaw_bbOk)
  have len2: "length (board ?p2) = SQ_N" using len1 by (simp add: setSquareRaw_board)
  have ok3: "bbOk ?p3" using ok2 m len2 by (rule setSquareRaw_bbOk)
  have len3: "length (board ?p3) = SQ_N" using len2 by (simp add: setSquareRaw_board)
  have ok4: "bbOk ?p4" using ok3 d len3 by (rule setSquareRaw_bbOk)
  have b4: "board ?p4 = board p"
    using m d len
    by (intro nth_equalityI) (auto simp: setSquareRaw_board nth_list_update rawAt_def)
  note bbs = bbOk_same_board [OF ok4 ok b4]
  have b1m: "board ?p1 ! ms = ?f"
    using m d len by (auto simp: setSquareRaw_board nth_list_update rawAt_def)
  have b2m: "board ?p2 ! ms = 0"
    using m len1 by (simp add: setSquareRaw_board [of ?p1])
  have b3d: "board ?p3 ! ds = ?f"
    using m d len by (auto simp: setSquareRaw_board nth_list_update rawAt_def)
  have h1: "hash ?p1 = hash p XOR squareKey ds ?t XOR squareKey ds ?f"
    unfolding rawAt_def by (rule setSquareRaw_hash)
  have h2: "hash ?p2 = hash ?p1 XOR squareKey ms (board ?p1 ! ms) XOR squareKey ms 0"
    by (rule setSquareRaw_hash)
  have h3: "hash ?p3 = hash ?p2 XOR squareKey ms (board ?p2 ! ms) XOR squareKey ms ?f"
    by (rule setSquareRaw_hash)
  have h4': "hash ?p4 = hash ?p3 XOR squareKey ds (board ?p3 ! ds) XOR squareKey ds ?t"
    by (rule setSquareRaw_hash)
  have h4: "hash ?p4 = hash p"
    unfolding h4' h3 h2 h1 b1m b2m b3d by (simp add: xor.assoc xor_cancel_left)
  show ?thesis
    using b4 bbs h4 by (intro Position.equality) (simp_all add: setSquareRaw_frame)
qed

lemma considerCommandDest_ok:
  assumes "bbOk p" "length (board p) = SQ_N" "ms < SQ_N" "ds < SQ_N"
  shows "snd (considerCommandDest ms us canBuild p ds) = p"
    and "m \<in> set (fst (considerCommandDest ms us canBuild p ds)) \<Longrightarrow> fromOk ms m"
proof -
  show "snd (considerCommandDest ms us canBuild p ds) = p"
    using temp_move_restored [OF assms] by (simp add: considerCommandDest_def Let_def)
  show "fromOk ms m" if "m \<in> set (fst (considerCommandDest ms us canBuild p ds))"
    using that assms(3,4)
    by (auto simp: considerCommandDest_def Let_def split: if_splits dest: orthEmpties_range)
qed

lemma commandStep_ok:
  assumes "bbOk p" "length (board p) = SQ_N" "ms < SQ_N" "\<forall>m\<in>set out. fromOk ms m"
  shows "snd (commandStep ms us canBuild g (out, p) d) = p"
    and "\<forall>m\<in>set (fst (commandStep ms us canBuild g (out, p) d)). fromOk ms m"
proof -
  obtain dr dc where d: "d = (dr, dc)" by (cases d)
  let ?t = "sq (row ms + dr) (col ms + dc)"
  have r: "inBounds (row ms + dr) (col ms + dc) \<Longrightarrow> ?t < SQ_N" by (rule sq_inBounds)
  show "snd (commandStep ms us canBuild g (out, p) d) = p"
    using considerCommandDest_ok(1) [OF assms(1-3) r, of us canBuild]
    by (auto simp: commandStep_def d Let_def split: prod.splits)
  show "\<forall>m\<in>set (fst (commandStep ms us canBuild g (out, p) d)). fromOk ms m"
    using considerCommandDest_ok(2) [OF assms(1-3) r, of _ us canBuild] assms(4)
    by (auto simp: commandStep_def d Let_def split: prod.splits)
qed

lemma foldl_commandStep_ok:
  assumes "bbOk p" "length (board p) = SQ_N" "ms < SQ_N" "\<forall>m\<in>set out. fromOk ms m"
  shows "snd (foldl (commandStep ms us canBuild g) (out, p) ds) = p
         \<and> (\<forall>m\<in>set (fst (foldl (commandStep ms us canBuild g) (out, p) ds)). fromOk ms m)"
  using assms(4)
proof (induction ds arbitrary: out)
  case Nil
  then show ?case by simp
next
  case (Cons d ds)
  obtain out' p' where st: "commandStep ms us canBuild g (out, p) d = (out', p')"
    by (cases "commandStep ms us canBuild g (out, p) d")
  have "p' = p" "\<forall>m\<in>set out'. fromOk ms m"
    using commandStep_ok [OF assms(1-3) Cons.prems, of us canBuild g d] st by simp_all
  then show ?case using Cons.IH [of out'] st by simp
qed

lemma genMasonExtras_ok:
  assumes "bbOk p" "length (board p) = SQ_N" "ms < SQ_N"
  shows "snd (genMasonExtras p ms us ea) = p"
    and "\<forall>m\<in>set (fst (genMasonExtras p ms us ea)). fromOk ms m"
proof -
  define cb where "cb = (\<not> pcGet us (wallBuiltLast p))"
  define construct where "construct = (if cb \<and> \<not> bb_test ea ms
     then map (\<lambda>tsq. mkMove MasonConstruct ms tsq SQ_NONE SQ_NONE) (orthEmpties p ms) else [])"
  define ds1 :: "(int \<times> int) list" where "ds1 = [(if us = White then -1 else 1, 0), (0, -1), (0, 1)]"
  define ds2 :: "(int \<times> int) list"
    where "ds2 = [(if us = White then -1 else 1, -1), (if us = White then -1 else 1, 1)]"
  define g1 where "g1 = (\<lambda>q t. rawAt q t = 0)"
  define g2 where "g2 = (\<lambda>q t. \<not> isWallVal (rawAt q t) \<and> isPieceVal (rawAt q t)
                                          \<and> colorOf (rawAt q t) = other us)"
  define acc1 where "acc1 = foldl (commandStep ms us cb g1) (construct, p) ds1"
  define acc2 where "acc2 = foldl (commandStep ms us cb g2) acc1 ds2"
  have c: "\<forall>m\<in>set construct. fromOk ms m"
    using assms(3) by (auto simp: construct_def dest: orthEmpties_range)
  have r1: "snd acc1 = p \<and> (\<forall>m\<in>set (fst acc1). fromOk ms m)"
    unfolding acc1_def by (rule foldl_commandStep_ok [OF assms c])
  then have acc1: "acc1 = (fst acc1, p)" by (simp add: prod_eq_iff)
  have o1: "\<forall>m\<in>set (fst acc1). fromOk ms m" using r1 by simp
  have "snd (foldl (commandStep ms us cb g2) (fst acc1, p) ds2) = p
        \<and> (\<forall>m\<in>set (fst (foldl (commandStep ms us cb g2) (fst acc1, p) ds2)). fromOk ms m)"
    by (rule foldl_commandStep_ok [OF assms o1])
  then have r2: "snd acc2 = p \<and> (\<forall>m\<in>set (fst acc2). fromOk ms m)"
    unfolding acc2_def using acc1 by simp
  have eq: "genMasonExtras p ms us ea
      = (if \<not> list_ex (\<lambda>adj. isPieceVal (rawAt p adj) \<and> colorOf (rawAt p adj) = us
                                \<and> pieceOf (rawAt p adj) = Minister) (kingTargets ms)
         then (construct, p) else acc2)"
    by (simp add: genMasonExtras_def Let_def acc2_def acc1_def construct_def cb_def ds1_def ds2_def
          g1_def g2_def del: foldl.simps)
  show "snd (genMasonExtras p ms us ea) = p" using r2 by (simp add: eq)
  show "\<forall>m\<in>set (fst (genMasonExtras p ms us ea)). fromOk ms m" using r2 c by (simp add: eq)
qed

lemma foldl_masonStep_ok:
  assumes "bbOk p" "length (board p) = SQ_N" "\<forall>s\<in>set xs. s < SQ_N" "\<forall>m\<in>set out. squaresOk m"
  shows "snd (foldl (masonStep us ea) (out, p) xs) = p
         \<and> (\<forall>m\<in>set (fst (foldl (masonStep us ea) (out, p) xs)). squaresOk m)"
  using assms(3,4)
proof (induction xs arbitrary: out)
  case Nil
  then show ?case by simp
next
  case (Cons s xs)
  have s: "s < SQ_N" using Cons.prems(1) by simp
  obtain ms p' where g: "genMasonExtras p s us ea = (ms, p')" by (cases "genMasonExtras p s us ea")
  have p': "p' = p" and ms: "\<forall>m\<in>set ms. fromOk s m"
    using genMasonExtras_ok [OF assms(1,2) s, of us ea] g by simp_all
  have n: "\<forall>m\<in>set (genNormalMovesForPiece p s Mason us). fromOk s m"
    using genNormalMovesForPiece_ok [OF s] by blast
  have step: "masonStep us ea (out, p) s = (out @ genNormalMovesForPiece p s Mason us @ ms, p)"
    using g p' by (simp add: masonStep_def Let_def)
  have "\<forall>m\<in>set (out @ genNormalMovesForPiece p s Mason us @ ms). squaresOk m"
    using Cons.prems(2) n ms by (auto simp: fromOk_def)
  then show ?case using Cons.IH [of "out @ genNormalMovesForPiece p s Mason us @ ms"] Cons.prems(1) step
    by simp
qed

lemma generateMoves_ok:
  assumes "bbOk p" "length (board p) = SQ_N"
  shows "snd (generateMoves p) = p"
    and "m \<in> set (fst (generateMoves p)) \<Longrightarrow> squaresOk m"
proof -
  let ?us = "turn p"
  let ?ea = "computeAttacks p (other ?us)"
  obtain o1 p1 where f: "foldl (masonStep ?us ?ea) ([], p) (pieceSquares p ?us Mason) = (o1, p1)"
    by (cases "foldl (masonStep ?us ?ea) ([], p) (pieceSquares p ?us Mason)")
  have r: "\<forall>s\<in>set (pieceSquares p ?us pt). s < SQ_N" if "pt \<noteq> Count" for pt
    using pieceSquares_range [OF assms(1) that] by blast
  have p1: "p1 = p" and o1: "\<forall>m\<in>set o1. squaresOk m"
    using foldl_masonStep_ok [OF assms r [of Mason], of "[]" ?us ?ea] f by simp_all
  show "snd (generateMoves p) = p"
    using f p1 by (simp add: generateMoves_def Let_def)
  show "squaresOk m" if "m \<in> set (fst (generateMoves p))"
  proof (cases "gameOver p")
    case True
    then show ?thesis using that by (simp add: generateMoves_def)
  next
    case False
    then have "m \<in> set o1
      \<or> (\<exists>s\<in>set (pieceSquares p ?us Pegasus). m \<in> set (genNormalMovesForPiece p s Pegasus ?us))
      \<or> (\<exists>s\<in>set (pieceSquares p ?us Lancer). m \<in> set (genNormalMovesForPiece p s Lancer ?us))
      \<or> (\<exists>s\<in>set (pieceSquares p ?us Catapult). m \<in> set (genCatapultExtras p s ?us))
      \<or> (\<exists>s\<in>set (pieceSquares p ?us Minister). m \<in> set (genNormalMovesForPiece p s Minister ?us))
      \<or> (\<exists>s\<in>set (pieceSquares p ?us Sovereign).
            m \<in> set (genNormalMovesForPiece p s Sovereign ?us) \<or> m \<in> set (genBastion p s ?us))"
      using that f p1 by (auto simp: generateMoves_def Let_def)
    then show ?thesis
      using o1 r [of Pegasus] r [of Lancer] r [of Catapult] r [of Minister] r [of Sovereign]
      by (auto simp: fromOk_def dest: genNormalMovesForPiece_ok [rotated]
            genCatapultExtras_ok [rotated] genBastion_ok [rotated])
  qed
qed


lemma foldl_masonStep_list:
  assumes "bbOk p" "length (board p) = SQ_N" "\<forall>s\<in>set xs. s < SQ_N"
  shows "fst (foldl (masonStep us ea) (out, p) xs)
           = out @ concat (map (\<lambda>s. genNormalMovesForPiece p s Mason us
                                       @ fst (genMasonExtras p s us ea)) xs)"
  using assms(3)
proof (induction xs arbitrary: out)
  case Nil
  then show ?case by simp
next
  case (Cons s xs)
  have s: "s < SQ_N" using Cons.prems by simp
  have "snd (genMasonExtras p s us ea) = p" by (rule genMasonExtras_ok(1) [OF assms(1,2) s])
  then have step: "masonStep us ea (out, p) s
      = (out @ genNormalMovesForPiece p s Mason us @ fst (genMasonExtras p s us ea), p)"
    by (cases "genMasonExtras p s us ea") (simp add: masonStep_def Let_def)
  show ?case using Cons.IH [of "out @ genNormalMovesForPiece p s Mason us
      @ fst (genMasonExtras p s us ea)"] Cons.prems step by simp
qed

text \<open>On a position whose bitboards follow the board, the move list is this pure
  expression: the generator's temporary board changes cancel out.\<close>

lemma generateMoves_list:
  assumes "bbOk p" "length (board p) = SQ_N" "\<not> gameOver p"
  shows "fst (generateMoves p) =
     concat (map (\<lambda>s. genNormalMovesForPiece p s Mason (turn p)
                        @ fst (genMasonExtras p s (turn p) (computeAttacks p (other (turn p)))))
               (pieceSquares p (turn p) Mason))
     @ concat (map (\<lambda>s. genNormalMovesForPiece p s Pegasus (turn p)) (pieceSquares p (turn p) Pegasus))
     @ concat (map (\<lambda>s. genNormalMovesForPiece p s Lancer (turn p)) (pieceSquares p (turn p) Lancer))
     @ concat (map (\<lambda>s. genCatapultExtras p s (turn p)) (pieceSquares p (turn p) Catapult))
     @ concat (map (\<lambda>s. genNormalMovesForPiece p s Minister (turn p)) (pieceSquares p (turn p) Minister))
     @ concat (map (\<lambda>s. genNormalMovesForPiece p s Sovereign (turn p) @ genBastion p s (turn p))
                 (pieceSquares p (turn p) Sovereign))"
proof -
  let ?us = "turn p"
  let ?ea = "computeAttacks p (other ?us)"
  have r: "\<forall>s\<in>set (pieceSquares p ?us Mason). s < SQ_N"
    using pieceSquares_range [OF assms(1), of Mason] by blast
  have sn: "snd (foldl (masonStep ?us ?ea) ([], p) (pieceSquares p ?us Mason)) = p"
    using foldl_masonStep_ok [OF assms(1,2) r, of "[]" ?us ?ea] by simp
  have fs: "fst (foldl (masonStep ?us ?ea) ([], p) (pieceSquares p ?us Mason))
      = concat (map (\<lambda>s. genNormalMovesForPiece p s Mason ?us
                        @ fst (genMasonExtras p s ?us ?ea)) (pieceSquares p ?us Mason))"
    using foldl_masonStep_list [OF assms(1,2) r, of ?us ?ea "[]"] by simp
  have "foldl (masonStep ?us ?ea) ([], p) (pieceSquares p ?us Mason)
      = (concat (map (\<lambda>s. genNormalMovesForPiece p s Mason ?us
                        @ fst (genMasonExtras p s ?us ?ea)) (pieceSquares p ?us Mason)), p)"
    using sn fs by (simp add: prod_eq_iff)
  then show ?thesis
    using assms(3) by (simp add: generateMoves_def Let_def)
qed

lemma length_foldl_update4:
  "length (foldl (\<lambda>b c. b[f1 c := g1 c, f2 c := g2 c, f3 c := g3 c, f4 c := g4 c]) b0 xs)
     = length b0"
  by (induction xs arbitrary: b0) simp_all

lemma length_initialBoard: "length initialBoard = SQ_N"
  by (simp add: initialBoard_def length_foldl_update4 SQ_N_def)

lemma initial_ok: "consistent initial" "length (board initial) = SQ_N"
  by (simp_all add: initial_def consistent_rebuildDerived rebuildDerived_frame
        length_initialBoard)


lemma initialBoard_eq:
  "initialBoard =
     [-2, -3, -4, -5, -6, -5, -4, -3, -2,
      -1, -1, -1, -1, -1, -1, -1, -1, -1,
      0, 0, 0, 0, 0, 0, 0, 0, 0,
      0, 0, 0, 0, 0, 0, 0, 0, 0,
      0, 0, 0, 0, 0, 0, 0, 0, 0,
      0, 0, 0, 0, 0, 0, 0, 0, 0,
      0, 0, 0, 0, 0, 0, 0, 0, 0,
      1, 1, 1, 1, 1, 1, 1, 1, 1,
      2, 3, 4, 5, 6, 5, 4, 3, 2]"
  by code_simp

lemma initial_mason_move:
  "normalMove 63 54 \<in> set (fst (generateMoves initial))"
proof -
  have ok: "bbOk initial" using initial_ok(1) by (simp add: consistent_iff)
  have ng: "\<not> gameOver initial" by (simp add: gameOver_def initial_fields SQ_NONE_def)
  have sq: "63 \<in> set (pieceSquares initial White Mason)"
    by (simp add: pieceSquares_bbOk [OF ok] initial_fields piecePred_def initialBoard_eq
          SQ_N_def isPieceVal_def abs8_def colorOf_def pieceOf_def ptOfInt_def)
  have r: "row 63 = 7" "col 63 = 0" by (simp_all add: row_def col_def N_def)
  have mv: "normalMove 63 54 \<in> set (genNormalMovesForPiece initial 63 Mason White)"
    by (simp add: genNormalMovesForPiece_def masonMoveRange_def isKeepSq_def isKeep_def r
          Let_def inBounds_def N_def sq_def rawAt_def initial_fields initialBoard_eq upto.simps)
  show ?thesis
    using sq mv by (simp add: generateMoves_list [OF ok initial_ok(2) ng] initial_fields) blast
qed

text \<open>C10. On a consistent position of 81 squares \<open>generateMoves\<close> returns the position
  it was given: board, bitboards, wallTokens, sovereignSq, hash and history are what they
  were, although the MasonCommand enumeration moves the Mason with \<open>setSquareRaw\<close> and
  back.\<close>

theorem generateMoves_leaves_position:
  assumes "consistent p" and "length (board p) = SQ_N"
  shows "snd (generateMoves p) = p"
  using assms by (simp add: consistent_iff generateMoves_ok(1))

theorem generateMoves_leaves_position_witness:
  "consistent initial \<and> length (board initial) = SQ_N \<and> snd (generateMoves initial) = initial"
  using generateMoves_leaves_position [OF initial_ok] initial_ok by simp

text \<open>C1. For a consistent position of 81 squares and any action of its generator list,
  \<open>makeMove\<close> followed by \<open>undoMove\<close> gives back the position: every field, the hash and
  the history included.\<close>

theorem make_undo_restores:
  assumes "consistent p" and "length (board p) = SQ_N"
    and "m \<in> set (fst (generateMoves p))"
  shows "undoMove (fst (makeMove p m)) (snd (makeMove p m)) = p"
proof -
  have ok: "bbOk p" using assms(1) by (simp add: consistent_iff)
  have sq: "squaresOk m" using generateMoves_ok(2) [OF ok assms(2,3)] .
  obtain p' u where mk: "makeMove p m = (p', u)" by (cases "makeMove p m")
  have "tracks p p' u \<and> keepsGlobals p u \<and> history p' = history p @ [hash p]"
    using makeMove_tracks [OF ok assms(2) sq] mk by simp
  then have "undoMove p' u = p" using ok assms(2) by (intro undoMove_restores) simp_all
  then show ?thesis by (simp add: mk)
qed

theorem make_undo_restores_witness:
  "consistent initial \<and> length (board initial) = SQ_N
   \<and> normalMove 63 54 \<in> set (fst (generateMoves initial))
   \<and> undoMove (fst (makeMove initial (normalMove 63 54)))
        (snd (makeMove initial (normalMove 63 54))) = initial"
  using make_undo_restores [OF initial_ok initial_mason_move] initial_ok initial_mason_move
  by simp

section \<open>Facts for evaluating the generator on a rebuilt position\<close>

lemma generateMoves_mem:
  assumes "bbOk p" "length (board p) = SQ_N" "\<not> gameOver p"
  shows "s \<in> set (pieceSquares p (turn p) Mason) \<Longrightarrow>
           m \<in> set (genNormalMovesForPiece p s Mason (turn p))
           \<or> m \<in> set (fst (genMasonExtras p s (turn p) (computeAttacks p (other (turn p))))) \<Longrightarrow>
           m \<in> set (fst (generateMoves p))"
    and "s \<in> set (pieceSquares p (turn p) Catapult) \<Longrightarrow>
           m \<in> set (genCatapultExtras p s (turn p)) \<Longrightarrow> m \<in> set (fst (generateMoves p))"
    and "s \<in> set (pieceSquares p (turn p) Sovereign) \<Longrightarrow>
           m \<in> set (genNormalMovesForPiece p s Sovereign (turn p))
           \<or> m \<in> set (genBastion p s (turn p)) \<Longrightarrow>
           m \<in> set (fst (generateMoves p))"
  by (auto simp: generateMoves_list [OF assms])

lemma rebuilt_pieceSquares:
  "pt \<noteq> Count \<Longrightarrow>
   pieceSquares (rebuildDerived q) c pt = filter (piecePred (board q) c (ptIdx pt)) [0..<SQ_N]"
  using pieceSquares_bbOk [OF bbOk_rebuildDerived, of pt q c] by (simp add: rebuildDerived_frame)

lemma generated_not_gameOver: "m \<in> set (fst (generateMoves p)) \<Longrightarrow> \<not> gameOver p"
  by (auto simp: generateMoves_def)

section \<open>Field effects of the move primitives\<close>

lemma setWallBuiltLast_frame:
  "board (setWallBuiltLast p c f) = board p" "turn (setWallBuiltLast p c f) = turn p"
  "winner (setWallBuiltLast p c f) = winner p" "winReason (setWallBuiltLast p c f) = winReason p"
  "halfmove (setWallBuiltLast p c f) = halfmove p" "fullmove (setWallBuiltLast p c f) = fullmove p"
  "sovereignSq (setWallBuiltLast p c f) = sovereignSq p"
  "wallTokens (setWallBuiltLast p c f) = wallTokens p"
  "bastionRight (setWallBuiltLast p c f) = bastionRight p"
  by (simp_all add: setWallBuiltLast_def)

lemma sovereignMoved_frame:
  "board (sovereignMoved p c s) = board p" "turn (sovereignMoved p c s) = turn p"
  "winner (sovereignMoved p c s) = winner p" "winReason (sovereignMoved p c s) = winReason p"
  "halfmove (sovereignMoved p c s) = halfmove p" "fullmove (sovereignMoved p c s) = fullmove p"
  "wallTokens (sovereignMoved p c s) = wallTokens p"
  "wallBuiltLast (sovereignMoved p c s) = wallBuiltLast p"
  "pcGet c' (sovereignSq (sovereignMoved p c s)) = (if c' = c then s else pcGet c' (sovereignSq p))"
  by (simp_all add: sovereignMoved_def Let_def)

lemma addWallTokens_frame:
  "board (addWallTokens p c d) = board p" "turn (addWallTokens p c d) = turn p"
  "winner (addWallTokens p c d) = winner p" "winReason (addWallTokens p c d) = winReason p"
  "halfmove (addWallTokens p c d) = halfmove p" "fullmove (addWallTokens p c d) = fullmove p"
  "sovereignSq (addWallTokens p c d) = sovereignSq p"
  "wallBuiltLast (addWallTokens p c d) = wallBuiltLast p"
  "bastionRight (addWallTokens p c d) = bastionRight p"
  "hash (addWallTokens p c d) = hash p"
  by (simp_all add: addWallTokens_def)

lemma hitWall_frame:
  "turn (hitWall p s) = turn p" "winner (hitWall p s) = winner p"
  "winReason (hitWall p s) = winReason p" "halfmove (hitWall p s) = halfmove p"
  "fullmove (hitWall p s) = fullmove p" "sovereignSq (hitWall p s) = sovereignSq p"
  "wallBuiltLast (hitWall p s) = wallBuiltLast p" "bastionRight (hitWall p s) = bastionRight p"
  by (simp_all add: hitWall_def Let_def addWallTokens_frame setSquareRaw_frame)

lemma finalizeTurn_frame:
  "board (finalizeTurn p) = board p" "sovereignSq (finalizeTurn p) = sovereignSq p"
  "wallTokens (finalizeTurn p) = wallTokens p" "wallBuiltLast (finalizeTurn p) = wallBuiltLast p"
  "bastionRight (finalizeTurn p) = bastionRight p"
  by (simp_all add: finalizeTurn_def Let_def)

lemma movePiece_frame:
  "turn (fst (movePiece p u m v)) = turn p" "winner (fst (movePiece p u m v)) = winner p"
  "winReason (fst (movePiece p u m v)) = winReason p"
  "halfmove (fst (movePiece p u m v)) = halfmove p"
  "fullmove (fst (movePiece p u m v)) = fullmove p"
  "sovereignSq (fst (movePiece p u m v)) = sovereignSq p"
  "wallTokens (fst (movePiece p u m v)) = wallTokens p"
  "wallBuiltLast (fst (movePiece p u m v)) = wallBuiltLast p"
  "bastionRight (fst (movePiece p u m v)) = bastionRight p"
  "board (fst (movePiece p u m v)) = (board p)[mto m := v, mfrom m := 0]"
  by (simp_all add: movePiece_def Let_def setSquareRaw_frame setSquareRaw_board)

section \<open>Regicide\<close>

lemma captureSovereign_result:
  "winner (fst (captureSovereign p u m t v)) = colorIdx (turn p)"
  "winReason (fst (captureSovereign p u m t v)) = Regicide"
  "halfmove (fst (captureSovereign p u m t v)) = 0"
  "turn (fst (captureSovereign p u m t v)) = turn p"
  by (simp_all add: captureSovereign_def Let_def setWallBuiltLast_frame sovereignMoved_frame
        setSquareRaw_frame)

lemma isSovereignCapture_history [simp]:
  "isSovereignCapture (p\<lparr> history := h \<rparr>) m = isSovereignCapture p m"
  by (simp add: isSovereignCapture_def rawAt_def)

lemma colorIdx_not_none: "colorIdx c \<noteq> SQ_NONE"
  by (cases c) (simp_all add: SQ_NONE_def)

text \<open>C4. An action of the generator list that is a Normal, MasonCommand or CatapultMove
  onto the square of the opponent's Sovereign makes the mover the winner by Regicide, with
  halfmove 0 and the side to move unchanged, and the game is then over; and a position whose
  winner is set has an empty generator list.\<close>

theorem regicide_ends_game:
  "(m \<in> set (fst (generateMoves p))
      \<and> (mtype m = Normal \<or> mtype m = MasonCommand \<or> mtype m = CatapultMove)
      \<and> isSovereignCapture p m
    \<longrightarrow> winner (fst (makeMove p m)) = colorIdx (turn p)
        \<and> winReason (fst (makeMove p m)) = Regicide
        \<and> halfmove (fst (makeMove p m)) = 0
        \<and> turn (fst (makeMove p m)) = turn p
        \<and> gameOver (fst (makeMove p m)))
   \<and> (gameOver p \<longrightarrow> fst (generateMoves p) = [])"
proof (intro conjI impI)
  assume a: "m \<in> set (fst (generateMoves p))
      \<and> (mtype m = Normal \<or> mtype m = MasonCommand \<or> mtype m = CatapultMove)
      \<and> isSovereignCapture p m"
  then have ng: "\<not> gameOver p" by (blast dest: generated_not_gameOver)
  let ?p0 = "p\<lparr> history := history p @ [hash p] \<rparr>"
  obtain u where mk: "fst (makeMove p m) = fst (captureSovereign ?p0 u m (mto m) (rawAt ?p0 (mfrom m)))"
    using a ng
    by (auto simp: makeMove_def Let_def gameOver_def makeNormal_def makeMasonCommand_def
          makeCatapultMove_def)
  show "winner (fst (makeMove p m)) = colorIdx (turn p)"
    "winReason (fst (makeMove p m)) = Regicide"
    "halfmove (fst (makeMove p m)) = 0"
    "turn (fst (makeMove p m)) = turn p"
    by (simp_all add: mk captureSovereign_result)
  show "gameOver (fst (makeMove p m))"
    by (simp add: gameOver_def mk captureSovereign_result colorIdx_not_none)
next
  assume "gameOver p"
  then show "fst (generateMoves p) = []" by (simp add: generateMoves_def)
qed


text \<open>A position set up from a board and a side to move, the way \<open>fromFEN\<close> builds one:
  fields first, then \<open>rebuildDerived\<close>.\<close>

definition setupPosition :: "int list \<Rightarrow> Color \<Rightarrow> Position" where
  "setupPosition b t = rebuildDerived (emptyPosition\<lparr> board := b, turn := t \<rparr>)"

lemma setupPosition_fields:
  "board (setupPosition b t) = b" "turn (setupPosition b t) = t"
  "winner (setupPosition b t) = SQ_NONE" "bastionRight (setupPosition b t) = (True, True)"
  "wallBuiltLast (setupPosition b t) = (False, False)" "halfmove (setupPosition b t) = 0"
  "fullmove (setupPosition b t) = 1" "history (setupPosition b t) = []"
  by (simp_all add: setupPosition_def emptyPosition_def rebuildDerived_frame)

lemma setupPosition_ok:
  "consistent (setupPosition b t)" "bbOk (setupPosition b t)"
  "\<not> gameOver (setupPosition b t)"
  by (simp_all add: setupPosition_def consistent_rebuildDerived bbOk_rebuildDerived
        gameOver_def rebuildDerived_frame emptyPosition_def)

lemma setupPosition_pieceSquares:
  "pt \<noteq> Count \<Longrightarrow>
   pieceSquares (setupPosition b t) c pt = filter (piecePred b c (ptIdx pt)) [0..<SQ_N]"
  by (simp add: setupPosition_def rebuilt_pieceSquares)

lemma setupPosition_derived:
  "pcGet c (wallTokens (setupPosition b t)) = wallSum b c"
  "pcGet c (sovereignSq (setupPosition b t)) = lastSovereign b c"
  by (simp_all add: setupPosition_def rebuildDerived_wallTokens rebuildDerived_sovereignSq)

lemma makePiece_facts:
  assumes "pt \<noteq> Count"
  shows "isPieceVal (makePiece c pt)" "\<not> isWallVal (makePiece c pt)"
    "colorOf (makePiece c pt) = c" "pieceOf (makePiece c pt) = pt" "makePiece c pt \<noteq> 0"
  using assms
  by (cases c; cases pt;
      simp add: makePiece_def isPieceVal_def isWallVal_def abs8_def colorOf_def pieceOf_def
        ptOfInt_def)+

lemma makeWall_facts:
  assumes "hp = 1 \<or> hp = 2"
  shows "isWallVal (makeWall c hp)" "\<not> isPieceVal (makeWall c hp)"
    "colorOf (makeWall c hp) = c" "wallHp (makeWall c hp) = hp" "makeWall c hp \<noteq> 0"
  using assms
  by (cases c; auto simp: makeWall_def isPieceVal_def isWallVal_def abs8_def colorOf_def
        wallHp_def)+

lemma piecePred_makePiece:
  "pt \<noteq> Count \<Longrightarrow> b ! s = makePiece c' pt \<Longrightarrow> piecePred b c i s = (c = c' \<and> i = ptIdx pt)"
  by (auto simp: piecePred_def makePiece_facts)

text \<open>Black Sovereign on C9, White Catapult on D9, White Sovereign on I1; White to move.\<close>

definition regicideBoard :: "int list" where
  "regicideBoard = (replicate 81 0)[2 := makePiece Black Sovereign, 3 := makePiece White Catapult,
                                    80 := makePiece White Sovereign]"

lemma ray_3_west: "ray 3 2 = [2, 1, 0]"
  by code_simp

theorem regicide_ends_game_witness:
  "mkMove CatapultMove 3 2 SQ_NONE SQ_NONE \<in> set (fst (generateMoves (setupPosition regicideBoard White)))
   \<and> isSovereignCapture (setupPosition regicideBoard White) (mkMove CatapultMove 3 2 SQ_NONE SQ_NONE)
   \<and> winner (fst (makeMove (setupPosition regicideBoard White) (mkMove CatapultMove 3 2 SQ_NONE SQ_NONE))) = 0
   \<and> winReason (fst (makeMove (setupPosition regicideBoard White) (mkMove CatapultMove 3 2 SQ_NONE SQ_NONE))) = Regicide
   \<and> turn (fst (makeMove (setupPosition regicideBoard White) (mkMove CatapultMove 3 2 SQ_NONE SQ_NONE))) = White"
proof -
  let ?P = "setupPosition regicideBoard White"
  let ?m = "mkMove CatapultMove 3 2 SQ_NONE SQ_NONE"
  have len: "length (board ?P) = SQ_N"
    by (simp add: setupPosition_fields regicideBoard_def SQ_N_def)
  have v: "regicideBoard ! 2 = makePiece Black Sovereign" "regicideBoard ! 3 = makePiece White Catapult"
    by (simp_all add: regicideBoard_def)
  have sq: "3 \<in> set (pieceSquares ?P (turn ?P) Catapult)"
    using piecePred_makePiece [OF _ v(2), of White 1]
    by (simp add: setupPosition_pieceSquares setupPosition_fields SQ_N_def)
  have "?m \<in> set (catapultRay ?P 3 White (ray 3 2))"
    by (simp add: ray_3_west rawAt_def setupPosition_fields v makePiece_facts)
  then have mv: "?m \<in> set (genCatapultExtras ?P 3 (turn ?P))"
    by (auto simp: genCatapultExtras_def setupPosition_fields intro!: bexI [of _ 2])
  have mem: "?m \<in> set (fst (generateMoves ?P))"
    by (rule generateMoves_mem(2) [OF setupPosition_ok(2) len setupPosition_ok(3) sq mv])
  have cap: "isSovereignCapture ?P ?m"
    by (simp add: isSovereignCapture_def mkMove_def rawAt_def setupPosition_fields v
          makePiece_facts)
  have ty: "mtype ?m = CatapultMove" by (simp add: mkMove_def)
  show ?thesis
    using regicide_ends_game [of ?m ?P] mem cap ty by (simp add: setupPosition_fields)
qed


section \<open>The HP of a constructed wall\<close>

lemma makeMove_construct_board:
  assumes "\<not> gameOver p" "mtype m = MasonConstruct"
  shows "board (fst (makeMove p m))
           = (board p)[mto m := makeWall (turn p) (if isKeepSq (mfrom m) then 2 else 1)]"
  using assms
  by (simp add: makeMove_def Let_def gameOver_def makeMasonConstruct_def finalizeTurn_frame
        setWallBuiltLast_frame addWallTokens_frame setSquareRaw_board)

text \<open>C3, as the code has it. For a MasonConstruct action of the generator list the wall
  put on the target square belongs to the mover and has HP 2 if the Mason's own square
  (\<open>from\<close>) is a Keep square and HP 1 otherwise.\<close>

theorem construct_wall_hp:
  assumes "consistent p" and "length (board p) = SQ_N"
    and "m \<in> set (fst (generateMoves p))" and "mtype m = MasonConstruct"
  shows "rawAt (fst (makeMove p m)) (mto m)
           = makeWall (turn p) (if isKeepSq (mfrom m) then 2 else 1)
         \<and> wallHp (rawAt (fst (makeMove p m)) (mto m)) = (if isKeepSq (mfrom m) then 2 else 1)"
proof -
  have ok: "bbOk p" using assms(1) by (simp add: consistent_iff)
  have "squaresOk m" using generateMoves_ok(2) [OF ok assms(2,3)] .
  then have t: "mto m < length (board p)" using assms(2) by (simp add: squaresOk_def)
  have ng: "\<not> gameOver p" using assms(3) by (rule generated_not_gameOver)
  show ?thesis
    using t by (simp add: rawAt_def makeMove_construct_board [OF ng assms(4)] makeWall_facts)
qed

text \<open>White Mason on D6 (a Keep square), Black Sovereign on E9, White Sovereign on E1;
  White to move.\<close>

definition constructBoard :: "int list" where
  "constructBoard = (replicate 81 0)[4 := makePiece Black Sovereign, 30 := makePiece White Mason,
                                     76 := makePiece White Sovereign]"

lemma constructBoard_black:
  "filter (piecePred constructBoard Black 0) [0..<81] = []"
  "filter (piecePred constructBoard Black 1) [0..<81] = []"
  "filter (piecePred constructBoard Black 2) [0..<81] = []"
  "filter (piecePred constructBoard Black 3) [0..<81] = []"
  "filter (piecePred constructBoard Black 4) [0..<81] = []"
  "filter (piecePred constructBoard Black 5) [0..<81] = [4]"
  by code_simp+

lemma constructBoard_walls: "wallSum constructBoard Black = 0"
  by code_simp

lemma rays_4:
  "ray 4 0 = []" "ray 4 1 = [13, 22, 31, 40, 49, 58, 67, 76]" "ray 4 2 = [3, 2, 1, 0]"
  "ray 4 3 = [5, 6, 7, 8]" "ray 4 4 = []" "ray 4 5 = []" "ray 4 6 = [12, 20, 28, 36]"
  "ray 4 7 = [14, 24, 34, 44]"
  by code_simp+

lemma kingTargets_30: "kingTargets 30 = [21, 39, 29, 31, 20, 22, 38, 40]"
  by code_simp

lemma constructBoard_at:
  "constructBoard ! 30 = makePiece White Mason"
  "constructBoard ! 21 = 0" "constructBoard ! 39 = 0" "constructBoard ! 29 = 0"
  "constructBoard ! 31 = 0" "constructBoard ! 20 = 0" "constructBoard ! 22 = 0"
  "constructBoard ! 38 = 0" "constructBoard ! 40 = 0"
  "constructBoard ! 13 = 0" "constructBoard ! 3 = 0" "constructBoard ! 5 = 0"
  "constructBoard ! 12 = 0" "constructBoard ! 14 = 0"
  by (simp_all add: constructBoard_def)

lemma dir_lists:
  "[0..<4] = [0, 1, 2, 3::nat]" "[4..<8] = [4, 5, 6, 7::nat]"
  "[0..<8] = [0, 1, 2, 3, 4, 5, 6, 7::nat]"
  by code_simp+

lemma construct_not_attacked:
  "\<not> bb_test (computeAttacks (setupPosition constructBoard White) Black) 30"
proof -
  let ?P = "setupPosition constructBoard White"
  have ps: "pieceSquares ?P Black Mason = []" "pieceSquares ?P Black Pegasus = []"
    "pieceSquares ?P Black Catapult = []" "pieceSquares ?P Black Lancer = []"
    "pieceSquares ?P Black Minister = []" "pieceSquares ?P Black Sovereign = [4]"
    by (simp_all add: setupPosition_pieceSquares SQ_N_def constructBoard_black del: One_nat_def)
  have k: "\<not> isKeepSq 4" by (simp add: isKeepSq_def isKeep_def row_def col_def N_def)
  have w: "snd (wallTokens ?P) = 0"
    using setupPosition_derived(1) [of Black constructBoard White]
    by (simp add: constructBoard_walls)
  have take1: "take 1 (x # xs) = [x]" for x :: nat and xs by simp
  have "computeAttacks ?P Black = \<lparr> lo = 28712, hi = 0 \<rparr>"
    by (simp add: computeAttacks_def Let_def ps k w take1 dir_lists rays_4 rawAt_def
          setupPosition_fields constructBoard_at bb_set_def bbEmpty_def SQ_NONE_def
          del: One_nat_def)
  then show ?thesis by (simp add: bb_test_def SQ_NONE_def)
qed


lemma construct_generated:
  "mkMove MasonConstruct 30 21 SQ_NONE SQ_NONE
     \<in> set (fst (generateMoves (setupPosition constructBoard White)))"
proof -
  let ?P = "setupPosition constructBoard White"
  let ?m = "mkMove MasonConstruct 30 21 SQ_NONE SQ_NONE"
  have len: "length (board ?P) = SQ_N"
    by (simp add: setupPosition_fields constructBoard_def SQ_N_def)
  have sq: "30 \<in> set (pieceSquares ?P (turn ?P) Mason)"
    using piecePred_makePiece [OF _ constructBoard_at(1), of White 0]
    by (simp add: setupPosition_pieceSquares setupPosition_fields SQ_N_def)
  have oe: "21 \<in> set (orthEmpties ?P 30)"
    by (simp add: orthEmpties_def DIRS4_def inBounds_def sq_def row_def col_def N_def rawAt_def
          setupPosition_fields constructBoard_at)
  have el: "\<not> list_ex (\<lambda>adj. isPieceVal (rawAt ?P adj) \<and> colorOf (rawAt ?P adj) = White
                                \<and> pieceOf (rawAt ?P adj) = Minister) (kingTargets 30)"
    by (simp add: kingTargets_30 rawAt_def setupPosition_fields constructBoard_at)
  have "?m \<in> set (fst (genMasonExtras ?P 30 White (computeAttacks ?P Black)))"
    using oe el construct_not_attacked
    by (simp add: genMasonExtras_def Let_def setupPosition_fields del: foldl.simps)
  then have mv: "?m \<in> set (genNormalMovesForPiece ?P 30 Mason (turn ?P))
      \<or> ?m \<in> set (fst (genMasonExtras ?P 30 (turn ?P) (computeAttacks ?P (other (turn ?P)))))"
    by (simp add: setupPosition_fields)
  show ?thesis
    by (rule generateMoves_mem(1) [OF setupPosition_ok(2) len setupPosition_ok(3) sq mv])
qed

text \<open>C3 as stated fails: the Mason on D6 (square 30, in the Keep) constructs on D7
  (square 21, outside the Keep), and the wall has HP 2.\<close>

theorem construct_hp_follows_mason:
  "mkMove MasonConstruct 30 21 SQ_NONE SQ_NONE
     \<in> set (fst (generateMoves (setupPosition constructBoard White)))
   \<and> \<not> isKeepSq 21
   \<and> wallHp (rawAt (fst (makeMove (setupPosition constructBoard White)
                              (mkMove MasonConstruct 30 21 SQ_NONE SQ_NONE))) 21) = 2"
proof -
  let ?P = "setupPosition constructBoard White"
  let ?m = "mkMove MasonConstruct 30 21 SQ_NONE SQ_NONE"
  have k: "\<not> isKeepSq 21" "isKeepSq 30"
    by (simp_all add: isKeepSq_def isKeep_def row_def col_def N_def SQ_NONE_def)
  have "board (fst (makeMove ?P ?m)) = (board ?P)[21 := makeWall White 2]"
    using makeMove_construct_board [OF setupPosition_ok(3), of ?m constructBoard White] k(2)
    by (simp add: mkMove_def setupPosition_fields)
  then have "wallHp (rawAt (fst (makeMove ?P ?m)) 21) = 2"
    by (simp add: rawAt_def setupPosition_fields constructBoard_def makeWall_facts)
  then show ?thesis using construct_generated k(1) by simp
qed

theorem construct_wall_hp_witness:
  "consistent (setupPosition constructBoard White)
   \<and> length (board (setupPosition constructBoard White)) = SQ_N
   \<and> mkMove MasonConstruct 30 21 SQ_NONE SQ_NONE
        \<in> set (fst (generateMoves (setupPosition constructBoard White)))
   \<and> rawAt (fst (makeMove (setupPosition constructBoard White)
                    (mkMove MasonConstruct 30 21 SQ_NONE SQ_NONE))) 21 = makeWall White 2"
proof -
  let ?P = "setupPosition constructBoard White"
  let ?m = "mkMove MasonConstruct 30 21 SQ_NONE SQ_NONE"
  have len: "length (board ?P) = SQ_N"
    by (simp add: setupPosition_fields constructBoard_def SQ_N_def)
  have k: "isKeepSq 30"
    by (simp add: isKeepSq_def isKeep_def row_def col_def N_def SQ_NONE_def)
  have ty: "mtype ?m = MasonConstruct" by (simp add: mkMove_def)
  show ?thesis
    using construct_wall_hp [OF setupPosition_ok(1) len construct_generated ty]
      setupPosition_ok(1) [of constructBoard White] len construct_generated k
    by (simp add: mkMove_def setupPosition_fields)
qed

section \<open>Entombment\<close>

text \<open>The action captures the opponent's Sovereign: the three kinds that move a piece,
  onto the square of the opposing Sovereign.\<close>

definition capturesSovereign :: "Position \<Rightarrow> Move \<Rightarrow> bool" where
  "capturesSovereign p m =
     ((mtype m = Normal \<or> mtype m = MasonCommand \<or> mtype m = CatapultMove)
      \<and> isSovereignCapture p m)"

text \<open>Every in-bounds 8-neighbour of square \<open>k\<close> holds a wall (of either colour); a
  neighbour off the board asks for nothing.\<close>

definition neighboursWalled :: "Position \<Rightarrow> nat \<Rightarrow> bool" where
  "neighboursWalled p k =
     (\<forall>dr\<in>{-1, 0, 1}. \<forall>dc\<in>{-1, 0, 1}.
        (dr \<noteq> 0 \<or> dc \<noteq> 0) \<and> inBounds (row k + dr) (col k + dc)
          \<longrightarrow> isWallVal (rawAt p (sq (row k + dr) (col k + dc))))"

lemma isEntombed_iff:
  "isEntombed p c =
     (pcGet c (sovereignSq p) \<noteq> SQ_NONE \<and> neighboursWalled p (pcGet c (sovereignSq p)))"
  by (auto simp: isEntombed_def Let_def kingTargets_def targetsFrom_def DIRS8_def
        neighboursWalled_def list_all_iff)

lemma neighboursWalled_cong:
  "board p = board q \<Longrightarrow> neighboursWalled p k = neighboursWalled q k"
  by (simp add: neighboursWalled_def rawAt_def)

lemma finalizeTurn_result:
  assumes "winner q = SQ_NONE"
  shows "isEntombed q (other (turn q)) \<Longrightarrow>
           winner (finalizeTurn q) = colorIdx (turn q) \<and> winReason (finalizeTurn q) = Entombment
           \<and> halfmove (finalizeTurn q) = 0 \<and> turn (finalizeTurn q) = turn q"
    and "\<not> isEntombed q (other (turn q)) \<Longrightarrow>
           winner (finalizeTurn q) = SQ_NONE \<and> turn (finalizeTurn q) = other (turn q)"
  using assms by (simp_all add: finalizeTurn_def Let_def)

text \<open>An action that does not take the Sovereign ends in \<open>finalizeTurn\<close>, entered with no
  winner, the mover still to move and the opponent's Sovereign square untouched.\<close>

definition entersFinal :: "Position \<Rightarrow> Position \<Rightarrow> bool" where
  "entersFinal p q =
     (winner q = winner p \<and> turn q = turn p
      \<and> pcGet (other (turn p)) (sovereignSq q) = pcGet (other (turn p)) (sovereignSq p))"

lemma other_neq [simp]: "other c \<noteq> c" "c \<noteq> other c"
  by (cases c; simp)+

lemma entersFinal_steps:
  "entersFinal p q \<Longrightarrow> entersFinal p (setWallBuiltLast q c f)"
  "entersFinal p q \<Longrightarrow> entersFinal p (setSquareRaw q s v)"
  "entersFinal p q \<Longrightarrow> entersFinal p (addWallTokens q c d)"
  "entersFinal p q \<Longrightarrow> entersFinal p (hitWall q s)"
  "entersFinal p q \<Longrightarrow> entersFinal p (q\<lparr> halfmove := h \<rparr>)"
  "entersFinal p q \<Longrightarrow> entersFinal p (sovereignMoved q (turn p) s)"
  by (simp_all add: entersFinal_def setWallBuiltLast_frame setSquareRaw_frame addWallTokens_frame
        hitWall_frame sovereignMoved_frame)

lemma makeNormal_final:
  assumes "\<not> isSovereignCapture p m"
  shows "\<exists>q. fst (makeNormal p u m) = finalizeTurn q \<and> entersFinal p q"
proof -
  have e: "entersFinal p p" by (simp add: entersFinal_def)
  show ?thesis
    using assms
    by (auto simp: makeNormal_def Let_def movePiece_def
          intro!: exI [where x = "setWallBuiltLast _ _ _"] entersFinal_steps e)
qed

lemma makeMasonConstruct_final:
  "\<exists>q. fst (makeMasonConstruct p u m) = finalizeTurn q \<and> entersFinal p q"
proof -
  have e: "entersFinal p p" by (simp add: entersFinal_def)
  show ?thesis
    by (auto simp: makeMasonConstruct_def Let_def
          intro!: exI [where x = "setWallBuiltLast _ _ _"] entersFinal_steps e)
qed

lemma makeMasonCommand_final:
  assumes "\<not> isSovereignCapture p m"
  shows "\<exists>q. fst (makeMasonCommand p u m) = finalizeTurn q \<and> entersFinal p q"
proof -
  have e: "entersFinal p p" by (simp add: entersFinal_def)
  show ?thesis
    using assms
    by (auto simp: makeMasonCommand_def Let_def movePiece_def
          intro!: exI [where x = "setWallBuiltLast _ _ _"] entersFinal_steps e)
qed

lemma makeCatapultMove_final:
  assumes "\<not> isSovereignCapture p m"
  shows "\<exists>q. fst (makeCatapultMove p u m) = finalizeTurn q \<and> entersFinal p q"
proof -
  have e: "entersFinal p p" by (simp add: entersFinal_def)
  show ?thesis
    using assms
    by (auto simp: makeCatapultMove_def Let_def movePiece_def
          intro!: exI [where x = "setWallBuiltLast _ _ _"] entersFinal_steps e)
qed

lemma makeCatapultRangedDemolish_final:
  "\<exists>q. fst (makeCatapultRangedDemolish p u m) = finalizeTurn q \<and> entersFinal p q"
proof -
  have e: "entersFinal p p" by (simp add: entersFinal_def)
  show ?thesis
    by (auto simp: makeCatapultRangedDemolish_def Let_def
          intro!: exI [where x = "setWallBuiltLast _ _ _"] entersFinal_steps e)
qed

lemma makeBastion_final:
  "\<exists>q. fst (makeBastion p u m) = finalizeTurn q \<and> entersFinal p q"
proof -
  have e: "entersFinal p p" by (simp add: entersFinal_def)
  show ?thesis
    by (auto simp: makeBastion_def Let_def
          intro!: exI [where x = "setWallBuiltLast _ _ _"] entersFinal_steps e)
qed

text \<open>An action that does not take the Sovereign ends in \<open>finalizeTurn\<close>, entered with no
  winner, the mover still to move and the opponent's Sovereign square untouched.\<close>

lemma makeMove_ends_in_finalizeTurn:
  assumes "\<not> gameOver p" "\<not> capturesSovereign p m"
  shows "\<exists>q. fst (makeMove p m) = finalizeTurn q \<and> entersFinal p q"
proof -
  let ?p0 = "p\<lparr> history := history p @ [hash p] \<rparr>"
  have e0: "entersFinal ?p0 q = entersFinal p q" for q by (simp add: entersFinal_def)
  have g0: "\<not> gameOver ?p0" using assms(1) by (simp add: gameOver_def)
  show ?thesis
  proof (cases "mtype m")
    case Normal
    then have "\<not> isSovereignCapture ?p0 m" using assms(2) by (simp add: capturesSovereign_def)
    then show ?thesis
      using makeNormal_final [of ?p0 m] g0 Normal by (simp add: makeMove_def Let_def e0)
  next
    case MasonConstruct
    then show ?thesis
      using makeMasonConstruct_final [of ?p0 _ m] g0 by (simp add: makeMove_def Let_def e0)
  next
    case MasonCommand
    then have "\<not> isSovereignCapture ?p0 m" using assms(2) by (simp add: capturesSovereign_def)
    then show ?thesis
      using makeMasonCommand_final [of ?p0 m] g0 MasonCommand by (simp add: makeMove_def Let_def e0)
  next
    case CatapultMove
    then have "\<not> isSovereignCapture ?p0 m" using assms(2) by (simp add: capturesSovereign_def)
    then show ?thesis
      using makeCatapultMove_final [of ?p0 m] g0 CatapultMove by (simp add: makeMove_def Let_def e0)
  next
    case CatapultRangedDemolish
    then show ?thesis
      using makeCatapultRangedDemolish_final [of ?p0 _ m] g0 by (simp add: makeMove_def Let_def e0)
  next
    case Bastion
    then show ?thesis
      using makeBastion_final [of ?p0 _ m] g0 by (simp add: makeMove_def Let_def e0)
  qed
qed

text \<open>C5. Take an action of the generator list that does not capture the opponent's
  Sovereign, the opponent's Sovereign standing on square \<open>k\<close>. After \<open>makeMove\<close> the mover
  has won by Entombment exactly when every in-bounds 8-neighbour of \<open>k\<close> holds a wall; then
  the winner is the mover, the reason Entombment, halfmove 0 and the side to move is not
  flipped; otherwise there is no winner and the turn passes.\<close>

theorem entombment_iff_walled:
  assumes "m \<in> set (fst (generateMoves p))" and "\<not> capturesSovereign p m"
    and "pcGet (other (turn p)) (sovereignSq p) = k" and "k \<noteq> SQ_NONE"
  shows "((winner (fst (makeMove p m)) = colorIdx (turn p)
           \<and> winReason (fst (makeMove p m)) = Entombment)
          \<longleftrightarrow> neighboursWalled (fst (makeMove p m)) k)
       \<and> (neighboursWalled (fst (makeMove p m)) k
            \<longrightarrow> winner (fst (makeMove p m)) = colorIdx (turn p)
              \<and> winReason (fst (makeMove p m)) = Entombment
              \<and> halfmove (fst (makeMove p m)) = 0
              \<and> turn (fst (makeMove p m)) = turn p)
       \<and> (\<not> neighboursWalled (fst (makeMove p m)) k
            \<longrightarrow> winner (fst (makeMove p m)) = SQ_NONE
              \<and> turn (fst (makeMove p m)) = other (turn p))"
proof -
  have ng: "\<not> gameOver p" using assms(1) by (rule generated_not_gameOver)
  obtain q where q: "fst (makeMove p m) = finalizeTurn q" and e: "entersFinal p q"
    using makeMove_ends_in_finalizeTurn [OF ng assms(2)] by blast
  have w: "winner q = SQ_NONE" and t: "turn q = turn p"
    and k: "pcGet (other (turn q)) (sovereignSq q) = k"
    using e ng assms(3) by (simp_all add: entersFinal_def gameOver_def)
  have ent: "isEntombed q (other (turn q)) = neighboursWalled (fst (makeMove p m)) k"
    using assms(4) neighboursWalled_cong [of "finalizeTurn q" q k]
    by (simp add: isEntombed_iff k q finalizeTurn_frame)
  show ?thesis
  proof (cases "isEntombed q (other (turn q))")
    case True
    then show ?thesis
      using finalizeTurn_result(1) [OF w True] ent by (simp add: q t)
  next
    case False
    then show ?thesis
      using finalizeTurn_result(2) [OF w False] ent colorIdx_not_none [of "turn p"]
      by (auto simp: q t)
  qed
qed


text \<open>Black Sovereign in the corner I9 with White walls on H9 and I8; White Mason on H7,
  White Sovereign on E1; White to move. Building on H8 closes the tomb.\<close>

definition entombBoard :: "int list" where
  "entombBoard = (replicate 81 0)[8 := makePiece Black Sovereign, 7 := makeWall White 1,
                                  17 := makeWall White 1, 25 := makePiece White Mason,
                                  76 := makePiece White Sovereign]"

lemma entombBoard_black:
  "filter (piecePred entombBoard Black 0) [0..<81] = []"
  "filter (piecePred entombBoard Black 1) [0..<81] = []"
  "filter (piecePred entombBoard Black 2) [0..<81] = []"
  "filter (piecePred entombBoard Black 3) [0..<81] = []"
  "filter (piecePred entombBoard Black 4) [0..<81] = []"
  "filter (piecePred entombBoard Black 5) [0..<81] = [8]"
  by code_simp+

lemma entombBoard_derived:
  "wallSum entombBoard Black = 0" "lastSovereign entombBoard Black = 8"
  by code_simp+

lemma rays_8:
  "ray 8 0 = []" "ray 8 1 = [17, 26, 35, 44, 53, 62, 71, 80]"
  "ray 8 2 = [7, 6, 5, 4, 3, 2, 1, 0]" "ray 8 3 = []" "ray 8 4 = []" "ray 8 5 = []"
  "ray 8 6 = [16, 24, 32, 40, 48, 56, 64, 72]" "ray 8 7 = []"
  by code_simp+

lemma kingTargets_25: "kingTargets 25 = [16, 34, 24, 26, 15, 17, 33, 35]"
  by code_simp

lemma entombBoard_at:
  "entombBoard ! 25 = makePiece White Mason" "entombBoard ! 7 = makeWall White 1"
  "entombBoard ! 17 = makeWall White 1" "entombBoard ! 16 = 0" "entombBoard ! 34 = 0"
  "entombBoard ! 24 = 0" "entombBoard ! 26 = 0" "entombBoard ! 15 = 0" "entombBoard ! 33 = 0"
  "entombBoard ! 35 = 0"
  by (simp_all add: entombBoard_def)

lemma entomb_not_attacked:
  "\<not> bb_test (computeAttacks (setupPosition entombBoard White) Black) 25"
proof -
  let ?P = "setupPosition entombBoard White"
  have ps: "pieceSquares ?P Black Mason = []" "pieceSquares ?P Black Pegasus = []"
    "pieceSquares ?P Black Catapult = []" "pieceSquares ?P Black Lancer = []"
    "pieceSquares ?P Black Minister = []" "pieceSquares ?P Black Sovereign = [8]"
    by (simp_all add: setupPosition_pieceSquares SQ_N_def entombBoard_black del: One_nat_def)
  have k: "\<not> isKeepSq 8" by (simp add: isKeepSq_def isKeep_def row_def col_def N_def)
  have w: "snd (wallTokens ?P) = 0"
    using setupPosition_derived(1) [of Black entombBoard White]
    by (simp add: entombBoard_derived)
  have take1: "take 1 (x # xs) = [x]" for x :: nat and xs by simp
  have "computeAttacks ?P Black = \<lparr> lo = 65536, hi = 0 \<rparr>"
    by (simp add: computeAttacks_def Let_def ps k w take1 dir_lists rays_8 rawAt_def
          setupPosition_fields entombBoard_at makeWall_facts bb_set_def bbEmpty_def SQ_NONE_def
          del: One_nat_def)
  then show ?thesis by (simp add: bb_test_def SQ_NONE_def)
qed

lemma entomb_generated:
  "mkMove MasonConstruct 25 16 SQ_NONE SQ_NONE
     \<in> set (fst (generateMoves (setupPosition entombBoard White)))"
proof -
  let ?P = "setupPosition entombBoard White"
  let ?m = "mkMove MasonConstruct 25 16 SQ_NONE SQ_NONE"
  have len: "length (board ?P) = SQ_N"
    by (simp add: setupPosition_fields entombBoard_def SQ_N_def)
  have sq: "25 \<in> set (pieceSquares ?P (turn ?P) Mason)"
    using piecePred_makePiece [OF _ entombBoard_at(1), of White 0]
    by (simp add: setupPosition_pieceSquares setupPosition_fields SQ_N_def)
  have oe: "16 \<in> set (orthEmpties ?P 25)"
    by (simp add: orthEmpties_def DIRS4_def inBounds_def sq_def row_def col_def N_def rawAt_def
          setupPosition_fields entombBoard_at)
  have el: "\<not> list_ex (\<lambda>adj. isPieceVal (rawAt ?P adj) \<and> colorOf (rawAt ?P adj) = White
                                \<and> pieceOf (rawAt ?P adj) = Minister) (kingTargets 25)"
    by (simp add: kingTargets_25 rawAt_def setupPosition_fields entombBoard_at makeWall_facts)
  have "?m \<in> set (fst (genMasonExtras ?P 25 White (computeAttacks ?P Black)))"
    using oe el entomb_not_attacked
    by (simp add: genMasonExtras_def Let_def setupPosition_fields del: foldl.simps)
  then have mv: "?m \<in> set (genNormalMovesForPiece ?P 25 Mason (turn ?P))
      \<or> ?m \<in> set (fst (genMasonExtras ?P 25 (turn ?P) (computeAttacks ?P (other (turn ?P)))))"
    by (simp add: setupPosition_fields)
  show ?thesis
    by (rule generateMoves_mem(1) [OF setupPosition_ok(2) len setupPosition_ok(3) sq mv])
qed

theorem entombment_iff_walled_witness:
  "mkMove MasonConstruct 25 16 SQ_NONE SQ_NONE
     \<in> set (fst (generateMoves (setupPosition entombBoard White)))
   \<and> \<not> capturesSovereign (setupPosition entombBoard White)
         (mkMove MasonConstruct 25 16 SQ_NONE SQ_NONE)
   \<and> pcGet (other (turn (setupPosition entombBoard White)))
        (sovereignSq (setupPosition entombBoard White)) = 8
   \<and> neighboursWalled (fst (makeMove (setupPosition entombBoard White)
                              (mkMove MasonConstruct 25 16 SQ_NONE SQ_NONE))) 8
   \<and> winner (fst (makeMove (setupPosition entombBoard White)
                    (mkMove MasonConstruct 25 16 SQ_NONE SQ_NONE))) = 0
   \<and> winReason (fst (makeMove (setupPosition entombBoard White)
                       (mkMove MasonConstruct 25 16 SQ_NONE SQ_NONE))) = Entombment"
proof -
  let ?P = "setupPosition entombBoard White"
  let ?m = "mkMove MasonConstruct 25 16 SQ_NONE SQ_NONE"
  have nc: "\<not> capturesSovereign ?P ?m" by (simp add: capturesSovereign_def mkMove_def)
  have k: "pcGet (other (turn ?P)) (sovereignSq ?P) = 8"
    by (simp add: setupPosition_fields setupPosition_derived entombBoard_derived)
  have nk: "(8::nat) \<noteq> SQ_NONE" by (simp add: SQ_NONE_def)
  have kp: "\<not> isKeepSq 25" by (simp add: isKeepSq_def isKeep_def row_def col_def N_def)
  have b: "board (fst (makeMove ?P ?m)) = entombBoard[16 := makeWall White 1]"
    using makeMove_construct_board [OF setupPosition_ok(3), of ?m entombBoard White] kp
    by (simp add: mkMove_def setupPosition_fields)
  have rc: "row 8 = 0" "col 8 = 8" by (simp_all add: row_def col_def N_def)
  have vals: "entombBoard[16 := makeWall White 1] ! 7 = makeWall White 1"
    "entombBoard[16 := makeWall White 1] ! 16 = makeWall White 1"
    "entombBoard[16 := makeWall White 1] ! 17 = makeWall White 1"
    by (simp_all add: entombBoard_def)
  have nw: "neighboursWalled (fst (makeMove ?P ?m)) 8"
    by (simp add: neighboursWalled_def rc inBounds_def N_def sq_def rawAt_def b vals
          makeWall_facts)
  show ?thesis
    using entombment_iff_walled [OF entomb_generated nc k nk] entomb_generated nc k nw
    by (simp add: setupPosition_fields)
qed

section \<open>Bastion\<close>

lemma masonOrtho_type: "m \<in> set (masonOrtho p f dr dc steps) \<Longrightarrow> mtype m = Normal"
  by (induction steps) (auto simp: Let_def normalMove_def mkMove_def split: if_splits)

lemma lancerMoves_type: "m \<in> set (lancerMoves p f us xs) \<Longrightarrow> mtype m = Normal"
  by (induction xs) (auto simp: Let_def normalMove_def mkMove_def split: if_splits)

lemma slideMoves_type: "m \<in> set (slideMoves p f us xs) \<Longrightarrow> mtype m = Normal"
  by (induction xs) (auto simp: Let_def normalMove_def mkMove_def split: if_splits)

lemma genNormalMovesForPiece_type:
  "m \<in> set (genNormalMovesForPiece p f pt us) \<Longrightarrow> mtype m = Normal"
  by (cases pt)
     (auto simp: genNormalMovesForPiece_def Let_def normalMove_def mkMove_def split: if_splits
        dest: masonOrtho_type lancerMoves_type slideMoves_type)

lemma rangedTarget_type: "m \<in> set (rangedTarget p f xs) \<Longrightarrow> mtype m = CatapultRangedDemolish"
  by (induction xs) (auto simp: Let_def mkMove_def split: if_splits)

lemma catapultRay_type: "m \<in> set (catapultRay p f us xs) \<Longrightarrow> mtype m = CatapultMove"
  by (induction xs) (auto simp: Let_def mkMove_def catapultVariants_def split: if_splits)

lemma genCatapultExtras_type:
  "m \<in> set (genCatapultExtras p f us) \<Longrightarrow> mtype m \<noteq> Bastion"
  by (auto simp: genCatapultExtras_def dest: rangedTarget_type catapultRay_type)

lemma considerCommandDest_type:
  "considerCommandDest ms us cb p ds = (x1, x2) \<Longrightarrow> m \<in> set x1 \<Longrightarrow> mtype m = MasonCommand"
  by (auto simp: considerCommandDest_def Let_def mkMove_def split: if_splits)

lemma commandStep_type:
  "\<forall>m\<in>set (fst acc). mtype m \<noteq> Bastion \<Longrightarrow>
   \<forall>m\<in>set (fst (commandStep ms us cb g acc d)). mtype m \<noteq> Bastion"
  by (cases acc; cases d)
     (auto simp: commandStep_def Let_def split: prod.splits if_splits
        dest: considerCommandDest_type)

lemma foldl_commandStep_type:
  "\<forall>m\<in>set (fst acc). mtype m \<noteq> Bastion \<Longrightarrow>
   \<forall>m\<in>set (fst (foldl (commandStep ms us cb g) acc ds)). mtype m \<noteq> Bastion"
proof (induction ds arbitrary: acc)
  case Nil
  then show ?case by simp
next
  case (Cons d ds)
  show ?case using Cons.IH [OF commandStep_type [OF Cons.prems]] by simp
qed

lemma genMasonExtras_type:
  "m \<in> set (fst (genMasonExtras p ms us ea)) \<Longrightarrow> mtype m \<noteq> Bastion"
proof -
  assume m: "m \<in> set (fst (genMasonExtras p ms us ea))"
  define construct where "construct = (if \<not> pcGet us (wallBuiltLast p) \<and> \<not> bb_test ea ms
     then map (\<lambda>tsq. mkMove MasonConstruct ms tsq SQ_NONE SQ_NONE) (orthEmpties p ms) else [])"
  have c: "\<forall>m\<in>set (fst (construct, p)). mtype m \<noteq> Bastion"
    by (auto simp: construct_def mkMove_def)
  note f1 = foldl_commandStep_type [OF c]
  note f2 = foldl_commandStep_type [OF f1]
  show ?thesis
    using m c f2
    by (auto simp: genMasonExtras_def Let_def construct_def [symmetric] simp del: foldl.simps
          split: if_splits)
qed

lemma bastionFor_moves:
  "m \<in> set (bastionFor p s us t) \<Longrightarrow> mtype m = Bastion \<and> mfrom m = s \<and> mto m = t"
  by (auto simp: bastionFor_def Let_def mkMove_def split: if_splits)

lemma length_pairsOf: "length (pairsOf xs) = length xs choose 2"
  by (induction xs) (simp_all add: numeral_2_eq_2)

lemma length_bastionFor:
  "isPieceOf (rawAt p t) us Minister \<Longrightarrow>
   length (bastionFor p s us t) = length (bastionEmpties p s t) choose 2"
  by (auto simp: bastionFor_def Let_def isPieceOf_def length_pairsOf binomial_eq_0)

lemma filter_concat_one:
  assumes "distinct ks" "t \<in> set ks" "\<And>k m. m \<in> set (g k) \<Longrightarrow> P m \<and> key m = k"
  shows "filter (\<lambda>m. P m \<and> key m = t) (concat (map g ks)) = g t"
  using assms(1,2)
proof (induction ks)
  case Nil
  then show ?case by simp
next
  case (Cons k ks)
  have all: "filter (\<lambda>m. P m \<and> key m = t) (g t) = g t"
    using assms(3) by (auto simp: filter_id_conv)
  have none: "filter (\<lambda>m. P m \<and> key m = t) (g k') = []" if "k' \<noteq> t" for k'
    using assms(3) that by (auto simp: filter_empty_conv)
  have none': "filter (\<lambda>m. P m \<and> key m = t) (concat (map g ks')) = []" if "t \<notin> set ks'" for ks'
    using assms(3) that by (auto simp: filter_empty_conv)
  show ?case
  proof (cases "k = t")
    case True
    then have "t \<notin> set ks" using Cons.prems(1) by simp
    then show ?thesis using True all none' by simp
  next
    case False
    then show ?thesis using Cons none by simp
  qed
qed

lemma sq_inj:
  assumes "inBounds r c" "inBounds r' c'" "sq r c = sq r' c'"
  shows "r = r' \<and> c = c'"
proof -
  have "0 \<le> r * 9 + c" "0 \<le> r' * 9 + c'" using assms by (simp_all add: inBounds_def N_def)
  then have "r * 9 + c = r' * 9 + c'"
    using assms(3) by (simp add: sq_def N_def)
  moreover have "0 \<le> c" "c < 9" "0 \<le> c'" "c' < 9" using assms by (simp_all add: inBounds_def N_def)
  ultimately show ?thesis by presburger
qed

lemma distinct_kingTargets: "distinct (kingTargets s)"
proof -
  let ?ds = "filter (\<lambda>(dr, dc). inBounds (row s + dr) (col s + dc)) DIRS8"
  let ?f = "\<lambda>(dr, dc). sq (row s + dr) (col s + dc)"
  have d: "distinct ?ds" by (intro distinct_filter) (simp add: DIRS8_def)
  have "inj_on ?f (set ?ds)"
  proof (rule inj_onI)
    fix x y assume x: "x \<in> set ?ds" and y: "y \<in> set ?ds" and e: "?f x = ?f y"
    obtain a b where xa: "x = (a, b)" by (cases x)
    obtain a' b' where ya: "y = (a', b')" by (cases y)
    have "inBounds (row s + a) (col s + b)" "inBounds (row s + a') (col s + b')"
      using x y by (simp_all add: xa ya)
    moreover have "sq (row s + a) (col s + b) = sq (row s + a') (col s + b')"
      using e by (simp add: xa ya)
    ultimately have "row s + a = row s + a' \<and> col s + b = col s + b'" by (rule sq_inj)
    then show "x = y" by (simp add: xa ya)
  qed
  then show ?thesis
    unfolding kingTargets_def targetsFrom_def using d by (simp add: distinct_map)
qed


lemma piecePred_iff_makePiece:
  "pt \<noteq> Count \<Longrightarrow> piecePred b c (ptIdx pt) x = (b ! x = makePiece c pt)"
  by (cases c; cases pt)
     (auto simp: piecePred_def makePiece_def isPieceVal_def abs8_def colorOf_def pieceOf_def
        ptOfInt_def split: if_splits)

lemma filter_no_bastion:
  "(\<And>m. m \<in> set xs \<Longrightarrow> mtype m \<noteq> Bastion) \<Longrightarrow> filter (\<lambda>m. mtype m = Bastion \<and> Q m) xs = []"
  by (auto simp: filter_empty_conv)

text \<open>The Bastion actions of the whole move list are those of \<open>genBastion\<close> at the
  Sovereign's square.\<close>

lemma bastion_moves_of_list:
  assumes "bbOk p" "length (board p) = SQ_N" "\<not> gameOver p"
    and "filter (\<lambda>x. rawAt p x = makePiece (turn p) Sovereign) [0..<SQ_N] = [s]"
  shows "filter (\<lambda>m. mtype m = Bastion \<and> Q m) (fst (generateMoves p))
           = filter (\<lambda>m. mtype m = Bastion \<and> Q m) (genBastion p s (turn p))"
proof -
  let ?us = "turn p"
  let ?F = "filter (\<lambda>m. mtype m = Bastion \<and> Q m)"
  have "piecePred (board p) ?us (ptIdx Sovereign) = (\<lambda>x. rawAt p x = makePiece ?us Sovereign)"
    using piecePred_iff_makePiece [of Sovereign "board p" ?us] by (intro ext) (simp add: rawAt_def)
  then have sv: "pieceSquares p ?us Sovereign = [s]"
    using assms(4) by (simp only: pieceSquares_bbOk [OF assms(1)] PieceType.distinct simp_thms)
  have c: "?F (concat (map g xs)) = []" if "\<And>x m. m \<in> set (g x) \<Longrightarrow> mtype m \<noteq> Bastion"
    for g :: "nat \<Rightarrow> Move list" and xs
    using that by (intro filter_no_bastion) auto
  have 1: "?F (concat (map (\<lambda>s. genNormalMovesForPiece p s Mason ?us
              @ fst (genMasonExtras p s ?us (computeAttacks p (other ?us))))
            (pieceSquares p ?us Mason))) = []"
    by (rule c) (auto dest: genNormalMovesForPiece_type genMasonExtras_type)
  have 2: "?F (concat (map (\<lambda>s. genNormalMovesForPiece p s pt ?us) xs)) = []" for pt xs
    by (rule c) (auto dest: genNormalMovesForPiece_type)
  have 3: "?F (concat (map (\<lambda>s. genCatapultExtras p s ?us) xs)) = []" for xs
    by (rule c) (auto dest: genCatapultExtras_type)
  have 4: "?F (genNormalMovesForPiece p s Sovereign ?us) = []"
    by (rule filter_no_bastion) (auto dest: genNormalMovesForPiece_type)
  show ?thesis
    unfolding generateMoves_list [OF assms(1-3)] sv filter_append 1 2 3
    by (simp add: 4)
qed

text \<open>C6, as the code has it. On a consistent position where the side to move has exactly
  one Sovereign, on square \<open>s\<close>. When the game is over the move list is empty, so it holds
  no Bastion action whatever the other conditions are. When the game is not over: if that
  side has its Bastion right, at most 15 wall tokens and did not build last turn, the move
  list holds, for each friendly Minister on a square \<open>t\<close> 8-adjacent to \<open>s\<close>, exactly
  \<open>k choose 2\<close> Bastion actions with target \<open>t\<close>, \<open>k\<close> being the number of empty 8-neighbours
  of \<open>t\<close> other than \<open>s\<close>; if one of the three conditions fails the list holds no Bastion
  action.\<close>

theorem bastion_count:
  assumes "consistent p" and "length (board p) = SQ_N"
    and "filter (\<lambda>x. rawAt p x = makePiece (turn p) Sovereign) [0..<SQ_N] = [s]"
  shows "(gameOver p \<longrightarrow> fst (generateMoves p) = [])
       \<and> (\<not> gameOver p \<and> pcGet (turn p) (bastionRight p) \<and> pcGet (turn p) (wallTokens p) \<le> 15
            \<and> \<not> pcGet (turn p) (wallBuiltLast p)
          \<longrightarrow> (\<forall>t\<in>set (kingTargets s). rawAt p t = makePiece (turn p) Minister
                \<longrightarrow> length (filter (\<lambda>m. mtype m = Bastion \<and> mto m = t) (fst (generateMoves p)))
                    = length (filter (\<lambda>a. a \<noteq> s \<and> rawAt p a = 0) (kingTargets t)) choose 2))
       \<and> (\<not> gameOver p
            \<and> \<not> (pcGet (turn p) (bastionRight p) \<and> pcGet (turn p) (wallTokens p) \<le> 15
                   \<and> \<not> pcGet (turn p) (wallBuiltLast p))
          \<longrightarrow> filter (\<lambda>m. mtype m = Bastion) (fst (generateMoves p)) = [])"
proof -
  have ok: "bbOk p" using assms(1) by (simp add: consistent_iff)
  have over: "fst (generateMoves p) = []" if "gameOver p"
    using that by (simp add: generateMoves_def)
  have count: "length (filter (\<lambda>m. mtype m = Bastion \<and> mto m = t) (fst (generateMoves p)))
        = length (filter (\<lambda>a. a \<noteq> s \<and> rawAt p a = 0) (kingTargets t)) choose 2"
    if ng: "\<not> gameOver p"
      and c: "pcGet (turn p) (bastionRight p) \<and> pcGet (turn p) (wallTokens p) \<le> 15
            \<and> \<not> pcGet (turn p) (wallBuiltLast p)"
      and t: "t \<in> set (kingTargets s)" and mn: "rawAt p t = makePiece (turn p) Minister" for t
  proof -
    note bl = bastion_moves_of_list [OF ok assms(2) ng assms(3)]
    have gb: "genBastion p s (turn p) = concat (map (bastionFor p s (turn p)) (kingTargets s))"
      using c by (simp add: genBastion_def)
    have "filter (\<lambda>m. mtype m = Bastion \<and> mto m = t) (genBastion p s (turn p))
            = bastionFor p s (turn p) t"
      unfolding gb using distinct_kingTargets t
      by (rule filter_concat_one) (simp add: bastionFor_moves)
    moreover have "isPieceOf (rawAt p t) (turn p) Minister"
      by (simp add: mn isPieceOf_def makePiece_facts)
    ultimately show ?thesis
      by (simp add: bl length_bastionFor bastionEmpties_def)
  qed
  have none: "filter (\<lambda>m. mtype m = Bastion) (fst (generateMoves p)) = []"
    if ng: "\<not> gameOver p"
      and c: "\<not> (pcGet (turn p) (bastionRight p) \<and> pcGet (turn p) (wallTokens p) \<le> 15
               \<and> \<not> pcGet (turn p) (wallBuiltLast p))"
  proof -
    note bl = bastion_moves_of_list [OF ok assms(2) ng assms(3)]
    have "genBastion p s (turn p) = []" using c by (auto simp: genBastion_def)
    then show ?thesis using bl [of "\<lambda>m. True"] by simp
  qed
  show ?thesis
  proof (intro conjI impI ballI)
    assume "gameOver p"
    then show "fst (generateMoves p) = []" by (rule over)
  next
    fix t
    assume h: "\<not> gameOver p \<and> pcGet (turn p) (bastionRight p) \<and> pcGet (turn p) (wallTokens p) \<le> 15
            \<and> \<not> pcGet (turn p) (wallBuiltLast p)"
      and t: "t \<in> set (kingTargets s)" and mn: "rawAt p t = makePiece (turn p) Minister"
    show "length (filter (\<lambda>m. mtype m = Bastion \<and> mto m = t) (fst (generateMoves p)))
        = length (filter (\<lambda>a. a \<noteq> s \<and> rawAt p a = 0) (kingTargets t)) choose 2"
      using h by (intro count t mn) simp_all
  next
    assume h: "\<not> gameOver p
            \<and> \<not> (pcGet (turn p) (bastionRight p) \<and> pcGet (turn p) (wallTokens p) \<le> 15
                   \<and> \<not> pcGet (turn p) (wallBuiltLast p))"
    show "filter (\<lambda>m. mtype m = Bastion) (fst (generateMoves p)) = []"
      using h by (intro none) simp_all
  qed
qed

text \<open>White Sovereign on E5, White Minister on D5, the board otherwise clear; White to
  move.\<close>

definition bastionBoard :: "int list" where
  "bastionBoard = (replicate 81 0)[40 := makePiece White Sovereign, 39 := makePiece White Minister]"

lemma bastionBoard_facts:
  "filter (\<lambda>x. bastionBoard ! x = makePiece White Sovereign) [0..<81] = [40]"
  "wallSum bastionBoard White = 0"
  "39 \<in> set (kingTargets 40)"
  "length (filter (\<lambda>a. a \<noteq> 40 \<and> bastionBoard ! a = 0) (kingTargets 39)) choose 2 = 21"
  by code_simp+

theorem bastion_count_witness:
  "consistent (setupPosition bastionBoard White)
   \<and> length (board (setupPosition bastionBoard White)) = SQ_N
   \<and> \<not> gameOver (setupPosition bastionBoard White)
   \<and> filter (\<lambda>x. rawAt (setupPosition bastionBoard White) x = makePiece White Sovereign)
        [0..<SQ_N] = [40]
   \<and> 39 \<in> set (kingTargets 40)
   \<and> rawAt (setupPosition bastionBoard White) 39 = makePiece White Minister
   \<and> length (filter (\<lambda>m. mtype m = Bastion \<and> mto m = 39)
               (fst (generateMoves (setupPosition bastionBoard White)))) = 21"
proof -
  let ?P = "setupPosition bastionBoard White"
  have len: "length (board ?P) = SQ_N"
    by (simp add: setupPosition_fields bastionBoard_def SQ_N_def)
  have sv: "filter (\<lambda>x. rawAt ?P x = makePiece (turn ?P) Sovereign) [0..<SQ_N] = [40]"
    by (simp add: rawAt_def setupPosition_fields SQ_N_def bastionBoard_facts)
  have mn: "rawAt ?P 39 = makePiece (turn ?P) Minister"
    by (simp add: rawAt_def setupPosition_fields bastionBoard_def)
  have cond: "pcGet (turn ?P) (bastionRight ?P) \<and> pcGet (turn ?P) (wallTokens ?P) \<le> 15
            \<and> \<not> pcGet (turn ?P) (wallBuiltLast ?P)"
    using setupPosition_derived(1) [of White bastionBoard White]
    by (simp add: setupPosition_fields bastionBoard_facts)
  have k: "length (filter (\<lambda>a. a \<noteq> 40 \<and> rawAt ?P a = 0) (kingTargets 39)) choose 2 = 21"
    by (simp add: rawAt_def setupPosition_fields bastionBoard_facts)
  have "length (filter (\<lambda>m. mtype m = Bastion \<and> mto m = 39) (fst (generateMoves ?P))) = 21"
    using bastion_count [OF setupPosition_ok(1) len sv] setupPosition_ok(3) [of bastionBoard White]
      cond bastionBoard_facts(3) mn k
    by simp
  then show ?thesis
    using setupPosition_ok(1) [of bastionBoard White] setupPosition_ok(3) [of bastionBoard White]
      len sv mn bastionBoard_facts(3)
    by (simp add: setupPosition_fields)
qed

text \<open>The fields that C6 reads, after a piece other than the Sovereign has taken the
  opponent's Sovereign with a Normal action.\<close>

lemma setWallBuiltLast_flag: "pcGet c (wallBuiltLast (setWallBuiltLast p c f)) = f"
  by (simp add: setWallBuiltLast_def)

lemma regicide_fields:
  assumes "\<not> gameOver p" "mtype m = Normal" "isSovereignCapture p m"
    "\<not> (isPieceVal (rawAt p (mfrom m)) \<and> pieceOf (rawAt p (mfrom m)) = Sovereign)"
  shows "board (fst (makeMove p m)) = (board p)[mto m := rawAt p (mfrom m), mfrom m := 0]"
    and "winner (fst (makeMove p m)) = colorIdx (turn p)"
    and "turn (fst (makeMove p m)) = turn p"
    and "bastionRight (fst (makeMove p m)) = bastionRight p"
    and "wallTokens (fst (makeMove p m)) = wallTokens p"
    and "\<not> pcGet (turn p) (wallBuiltLast (fst (makeMove p m)))"
  using assms
  by (auto simp: makeMove_def Let_def gameOver_def makeNormal_def captureSovereign_def
        setWallBuiltLast_frame setWallBuiltLast_flag setSquareRaw_frame setSquareRaw_board
        rawAt_def)

text \<open>White Sovereign on E5, Black Sovereign on D5, White Minister on B3; White to move.\<close>

definition captureBoard :: "int list" where
  "captureBoard = (replicate 81 0)[40 := makePiece White Sovereign, 39 := makePiece Black Sovereign,
                                   55 := makePiece White Minister]"

lemma captureBoard_facts:
  "ray 55 5 = [47, 39, 31, 23, 15, 7]"
  "wallSum captureBoard White = 0"
  "lastSovereign captureBoard White = 40"
  "39 \<in> set (kingTargets 40)"
  "length (filter (\<lambda>adj. adj \<noteq> 40
                      \<and> captureBoard[39 := makePiece White Minister, 55 := 0] ! adj = 0)
             (kingTargets 39)) choose 2 = 21"
  by code_simp+

lemma captureBoard_at:
  "captureBoard ! 55 = makePiece White Minister" "captureBoard ! 39 = makePiece Black Sovereign"
  "captureBoard ! 47 = 0" "captureBoard ! 40 = makePiece White Sovereign"
  by (simp_all add: captureBoard_def)

lemma capture_generated:
  "normalMove 55 39 \<in> set (fst (generateMoves (setupPosition captureBoard White)))"
proof -
  let ?P = "setupPosition captureBoard White"
  have len: "length (board ?P) = SQ_N"
    by (simp add: setupPosition_fields captureBoard_def SQ_N_def)
  have sq: "55 \<in> set (pieceSquares ?P (turn ?P) Minister)"
    using piecePred_makePiece [OF _ captureBoard_at(1), of White 4]
    by (simp add: setupPosition_pieceSquares setupPosition_fields SQ_N_def)
  have k: "\<not> isKeepSq 55"
    by (simp add: isKeepSq_def isKeep_def row_def col_def N_def)
  have "normalMove 55 39 \<in> set (slideMoves ?P 55 White (take 2 (ray 55 5)))"
    by (simp add: captureBoard_facts rawAt_def setupPosition_fields captureBoard_at
          makePiece_facts)
  then have mv: "normalMove 55 39 \<in> set (genNormalMovesForPiece ?P 55 Minister (turn ?P))"
    using k
    by (auto simp: genNormalMovesForPiece_def ministerMoveRange_def setupPosition_fields
          intro!: bexI [of _ 5])
  show ?thesis
    unfolding generateMoves_list [OF setupPosition_ok(2) len setupPosition_ok(3)]
    using sq mv by auto
qed

text \<open>C6 as stated fails on a finished game. The Minister on B3 takes the Sovereign on D5:
  White has won, is still the side to move, keeps its Bastion right, has no wall tokens
  and built no wall; its Minister on D5 is adjacent to its Sovereign on E5 and has 7 empty
  neighbours other than E5. The claim asks for 21 Bastion actions; the move list is
  empty.\<close>

theorem bastion_absent_after_regicide:
  "normalMove 55 39 \<in> set (fst (generateMoves (setupPosition captureBoard White)))
   \<and> turn (fst (makeMove (setupPosition captureBoard White) (normalMove 55 39))) = White
   \<and> pcGet White (bastionRight (fst (makeMove (setupPosition captureBoard White) (normalMove 55 39))))
   \<and> pcGet White (wallTokens (fst (makeMove (setupPosition captureBoard White) (normalMove 55 39)))) \<le> 15
   \<and> \<not> pcGet White (wallBuiltLast (fst (makeMove (setupPosition captureBoard White) (normalMove 55 39))))
   \<and> rawAt (fst (makeMove (setupPosition captureBoard White) (normalMove 55 39))) 40
       = makePiece White Sovereign
   \<and> rawAt (fst (makeMove (setupPosition captureBoard White) (normalMove 55 39))) 39
       = makePiece White Minister
   \<and> 39 \<in> set (kingTargets 40)
   \<and> length (bastionEmpties (fst (makeMove (setupPosition captureBoard White) (normalMove 55 39)))
               40 39) choose 2 = 21
   \<and> fst (generateMoves (fst (makeMove (setupPosition captureBoard White) (normalMove 55 39)))) = []"
proof -
  let ?P = "setupPosition captureBoard White"
  let ?m = "normalMove 55 39"
  let ?Q = "fst (makeMove ?P ?m)"
  have m: "mtype ?m = Normal" "mfrom ?m = 55" "mto ?m = 39"
    by (simp_all add: normalMove_def mkMove_def)
  have cap: "isSovereignCapture ?P ?m"
    by (simp add: isSovereignCapture_def m rawAt_def setupPosition_fields captureBoard_at
          makePiece_facts)
  have src: "\<not> (isPieceVal (rawAt ?P (mfrom ?m)) \<and> pieceOf (rawAt ?P (mfrom ?m)) = Sovereign)"
    by (simp add: m rawAt_def setupPosition_fields captureBoard_at makePiece_facts)
  note f = regicide_fields [OF setupPosition_ok(3) m(1) cap src]
  have b: "board ?Q = captureBoard[39 := makePiece White Minister, 55 := 0]"
    using f(1) by (simp add: m rawAt_def setupPosition_fields captureBoard_at)
  have over: "gameOver ?Q"
    using f(2) by (simp add: gameOver_def setupPosition_fields SQ_NONE_def)
  have tok: "pcGet White (wallTokens ?Q) = 0"
    using f(5) setupPosition_derived(1) [of White captureBoard White]
    by (simp add: captureBoard_facts)
  have "length (bastionEmpties ?Q 40 39) choose 2 = 21"
    by (simp add: bastionEmpties_def rawAt_def b captureBoard_facts)
  moreover have "fst (generateMoves ?Q) = []" using over by (simp add: generateMoves_def)
  moreover have "rawAt ?Q 40 = makePiece White Sovereign" "rawAt ?Q 39 = makePiece White Minister"
    unfolding rawAt_def b by (simp_all add: captureBoard_def)
  ultimately show ?thesis
    using capture_generated f(3,4,6) tok captureBoard_facts(4)
    by (simp add: setupPosition_fields)
qed

section \<open>What the generated actions look like on the board\<close>

text \<open>The mover's piece stands on \<open>from\<close> and the target is empty or holds an enemy
  piece.\<close>

definition movesOwnPiece :: "Position \<Rightarrow> Move \<Rightarrow> PieceType \<Rightarrow> bool" where
  "movesOwnPiece p m pt =
     (rawAt p (mfrom m) = makePiece (turn p) pt
      \<and> (rawAt p (mto m) = 0
          \<or> (isPieceVal (rawAt p (mto m)) \<and> colorOf (rawAt p (mto m)) = other (turn p))))"

definition legalShape :: "Position \<Rightarrow> Move \<Rightarrow> bool" where
  "legalShape p m =
     (squaresOk m
      \<and> (case mtype m of
            Normal \<Rightarrow> (\<exists>pt. pt \<noteq> Count \<and> movesOwnPiece p m pt)
          | MasonConstruct \<Rightarrow> rawAt p (mto m) = 0
          | MasonCommand \<Rightarrow>
              movesOwnPiece p m Mason
              \<and> (maux1 m \<noteq> SQ_NONE \<longrightarrow>
                    maux1 m \<noteq> mto m \<and> (maux1 m = mfrom m \<or> rawAt p (maux1 m) = 0))
          | CatapultMove \<Rightarrow> movesOwnPiece p m Catapult
          | CatapultRangedDemolish \<Rightarrow> True
          | Bastion \<Rightarrow>
              rawAt p (mfrom m) = makePiece (turn p) Sovereign
              \<and> rawAt p (mto m) = makePiece (turn p) Minister
              \<and> rawAt p (maux1 m) = 0 \<and> rawAt p (maux2 m) = 0 \<and> maux1 m \<noteq> maux2 m))"

lemma not_wall_not_own:
  "\<not> isWallVal v \<Longrightarrow> \<not> (isPieceVal v \<and> colorOf v = us) \<Longrightarrow>
   v = 0 \<or> (isPieceVal v \<and> colorOf v = other us)"
  by (cases us) (auto simp: isWallVal_def isPieceVal_def abs8_def colorOf_def split: if_splits)

lemma empty_val: "\<not> isWallVal v \<Longrightarrow> \<not> isPieceVal v \<Longrightarrow> v = 0"
  by (auto simp: isWallVal_def isPieceVal_def abs8_def split: if_splits)

lemma colorOf_other: "colorOf v \<noteq> us \<Longrightarrow> colorOf v = other us"
  by (cases us; cases "colorOf v") simp_all

definition shapeN :: "Position \<Rightarrow> nat \<Rightarrow> PieceType \<Rightarrow> Move \<Rightarrow> bool" where
  "shapeN p f pt m = (mtype m = Normal \<and> mfrom m = f \<and> movesOwnPiece p m pt)"

lemma shapeN_normalMove:
  "shapeN p f pt (normalMove f' t)
     = (f' = f \<and> rawAt p f = makePiece (turn p) pt
        \<and> (rawAt p t = 0 \<or> (isPieceVal (rawAt p t) \<and> colorOf (rawAt p t) = other (turn p))))"
  by (auto simp: shapeN_def normalMove_def mkMove_def movesOwnPiece_def)

lemma masonOrtho_shape:
  "rawAt p f = makePiece (turn p) pt \<Longrightarrow> m \<in> set (masonOrtho p f dr dc steps) \<Longrightarrow> shapeN p f pt m"
  by (induction steps) (auto simp: Let_def shapeN_normalMove split: if_splits)

lemma lancerMoves_shape:
  "rawAt p f = makePiece (turn p) pt \<Longrightarrow> m \<in> set (lancerMoves p f (turn p) xs) \<Longrightarrow> shapeN p f pt m"
  by (induction xs) (auto simp: Let_def shapeN_normalMove split: if_splits dest: empty_val)

lemma slideMoves_shape:
  "rawAt p f = makePiece (turn p) pt \<Longrightarrow> m \<in> set (slideMoves p f (turn p) xs) \<Longrightarrow> shapeN p f pt m"
  by (induction xs) (auto simp: Let_def shapeN_normalMove split: if_splits dest: empty_val)

lemma masonDiagTargets_enemy:
  "t \<in> set (masonDiagTargets p f us) \<Longrightarrow> isPieceVal (rawAt p t) \<and> colorOf (rawAt p t) = other us"
  unfolding masonDiagTargets_def Let_def set_map set_filter by auto

lemma genNormalMovesForPiece_shape:
  assumes "rawAt p f = makePiece (turn p) pt" "m \<in> set (genNormalMovesForPiece p f pt (turn p))"
  shows "shapeN p f pt m"
proof (cases pt)
  case Mason
  then show ?thesis
    using assms
    by (auto simp: genNormalMovesForPiece_def Let_def shapeN_normalMove
          dest: masonOrtho_shape masonDiagTargets_enemy)
next
  case Pegasus
  then show ?thesis
    using assms
    by (auto simp: genNormalMovesForPiece_def shapeN_normalMove dest: not_wall_not_own)
next
  case Lancer
  then show ?thesis
    using assms by (auto simp: genNormalMovesForPiece_def dest: lancerMoves_shape)
next
  case Minister
  then show ?thesis
    using assms by (auto simp: genNormalMovesForPiece_def Let_def dest: slideMoves_shape)
next
  case Sovereign
  then show ?thesis
    using assms
    by (auto simp: genNormalMovesForPiece_def Let_def split: if_splits dest: slideMoves_shape)
qed (use assms in \<open>simp_all add: genNormalMovesForPiece_def\<close>)

lemma catapultRay_shape:
  "rawAt p f = makePiece us Catapult \<Longrightarrow> us = turn p \<Longrightarrow> m \<in> set (catapultRay p f us xs) \<Longrightarrow>
   mtype m = CatapultMove \<and> movesOwnPiece p m Catapult"
  by (induction xs)
     (auto simp: Let_def mkMove_def movesOwnPiece_def catapultVariants_def
        split: if_splits dest: colorOf_other empty_val)

lemma genCatapultExtras_shape:
  assumes "rawAt p f = makePiece (turn p) Catapult" "m \<in> set (genCatapultExtras p f (turn p))"
  shows "mtype m = CatapultRangedDemolish \<or> (mtype m = CatapultMove \<and> movesOwnPiece p m Catapult)"
  using assms
  by (auto simp: genCatapultExtras_def dest: rangedTarget_type catapultRay_shape)

lemma pairsOf_distinct: "distinct xs \<Longrightarrow> (a, b) \<in> set (pairsOf xs) \<Longrightarrow> a \<noteq> b"
  by (induction xs) (auto dest: pairsOf_set)

lemma genBastion_shape:
  assumes "rawAt p f = makePiece us Sovereign" "m \<in> set (genBastion p f us)"
  shows "mtype m = Bastion \<and> mfrom m = f \<and> rawAt p (mto m) = makePiece us Minister
         \<and> rawAt p (maux1 m) = 0 \<and> rawAt p (maux2 m) = 0 \<and> maux1 m \<noteq> maux2 m"
proof -
  obtain t where t: "m \<in> set (bastionFor p f us t)"
    using assms(2) by (auto simp: genBastion_def split: if_splits)
  have c: "isPieceVal (rawAt p t) \<and> colorOf (rawAt p t) = us \<and> pieceOf (rawAt p t) = Minister"
    using t by (auto simp: bastionFor_def Let_def split: if_splits)
  have mn: "rawAt p t = makePiece us Minister"
    using c piecePred_iff_makePiece [of Minister "board p" us t]
    by (simp add: piecePred_def rawAt_def)
  obtain a b where ab: "(a, b) \<in> set (pairsOf (bastionEmpties p f t))"
      and m: "m = mkMove Bastion f t a b"
    using t by (auto simp: bastionFor_def Let_def split: if_splits)
  have d: "distinct (bastionEmpties p f t)"
    by (simp add: bastionEmpties_def distinct_kingTargets)
  have "a \<noteq> b" using pairsOf_distinct [OF d ab] .
  moreover have "rawAt p a = 0" "rawAt p b = 0"
    using pairsOf_set [OF ab] by (auto simp: bastionEmpties_def)
  ultimately show ?thesis using mn by (simp add: m mkMove_def)
qed

definition shapeM :: "Position \<Rightarrow> Move \<Rightarrow> bool" where
  "shapeM p m =
     ((mtype m = MasonConstruct \<and> rawAt p (mto m) = 0)
      \<or> (mtype m = MasonCommand \<and> movesOwnPiece p m Mason
          \<and> (maux1 m \<noteq> SQ_NONE \<longrightarrow>
                maux1 m \<noteq> mto m \<and> (maux1 m = mfrom m \<or> rawAt p (maux1 m) = 0))))"

lemma considerCommandDest_shape:
  assumes len: "length (board p) = SQ_N" and ms: "ms < SQ_N" and ds: "ds < SQ_N"
    and own: "rawAt p ms = makePiece (turn p) Mason"
    and tgt: "rawAt p ds = 0
              \<or> (isPieceVal (rawAt p ds) \<and> colorOf (rawAt p ds) = other (turn p))"
    and m: "m \<in> set (fst (considerCommandDest ms us cb p ds))"
  shows "shapeM p m"
proof -
  let ?p2 = "setSquareRaw (setSquareRaw p ds (rawAt p ms)) ms 0"
  have ne: "ds \<noteq> ms"
    using own tgt makePiece_facts [of Mason "turn p"] by (cases "turn p") auto
  have nz: "rawAt p ms \<noteq> 0" using own makePiece_facts(5) [of Mason "turn p"] by simp
  have b2: "rawAt ?p2 w = (if w = ms then 0 else if w = ds then rawAt p ms else rawAt p w)"
    if "w < SQ_N" for w
    using that len ms ds by (simp add: rawAt_def setSquareRaw_board)
  have skip: "shapeM p (mkMove MasonCommand ms ds SQ_NONE SQ_NONE)"
    using own tgt by (simp add: shapeM_def mkMove_def movesOwnPiece_def)
  have build: "shapeM p (mkMove MasonCommand ms ds w SQ_NONE)"
    if "w \<in> set (orthEmpties ?p2 ds)" for w
  proof -
    have w: "w < SQ_N" using that by (rule orthEmpties_range)
    have "rawAt ?p2 w = 0" using that by (auto simp: orthEmpties_def)
    then have "w \<noteq> ds \<and> (w = ms \<or> rawAt p w = 0)"
      using b2 [OF w] ne nz by (auto split: if_splits)
    then show ?thesis using own tgt by (simp add: shapeM_def mkMove_def movesOwnPiece_def)
  qed
  show ?thesis
    using m skip build by (auto simp: considerCommandDest_def Let_def split: if_splits)
qed

lemma foldl_commandStep_shape:
  assumes "bbOk p" "length (board p) = SQ_N" "ms < SQ_N"
    and own: "rawAt p ms = makePiece (turn p) Mason"
    and g: "\<And>t. g p t \<Longrightarrow>
              rawAt p t = 0 \<or> (isPieceVal (rawAt p t) \<and> colorOf (rawAt p t) = other (turn p))"
    and out: "\<forall>m\<in>set out. shapeM p m"
  shows "snd (foldl (commandStep ms us cb g) (out, p) ds) = p
         \<and> (\<forall>m\<in>set (fst (foldl (commandStep ms us cb g) (out, p) ds)). shapeM p m)"
  using out
proof (induction ds arbitrary: out)
  case Nil
  then show ?case by simp
next
  case (Cons d ds)
  obtain dr dc where d: "d = (dr, dc)" by (cases d)
  let ?t = "sq (row ms + dr) (col ms + dc)"
  obtain out' p' where st: "commandStep ms us cb g (out, p) d = (out', p')"
    by (cases "commandStep ms us cb g (out, p) d")
  have r: "inBounds (row ms + dr) (col ms + dc) \<Longrightarrow> ?t < SQ_N" by (rule sq_inBounds)
  have p': "p' = p"
    using st considerCommandDest_ok(1) [OF assms(1-3) r, of us cb]
    by (auto simp: commandStep_def d Let_def split: prod.splits if_splits)
  have "\<forall>m\<in>set out'. shapeM p m"
    using st Cons.prems considerCommandDest_shape [OF assms(2,3) r own g, of _ us cb]
    by (auto simp: commandStep_def d Let_def split: prod.splits if_splits)
  then show ?case using Cons.IH [of out'] st p' by simp
qed

lemma genMasonExtras_shape:
  assumes "bbOk p" "length (board p) = SQ_N" "ms < SQ_N"
    and own: "rawAt p ms = makePiece (turn p) Mason"
  shows "\<forall>m\<in>set (fst (genMasonExtras p ms (turn p) ea)). shapeM p m"
proof -
  let ?us = "turn p"
  define cb where "cb = (\<not> pcGet ?us (wallBuiltLast p))"
  define construct where "construct = (if cb \<and> \<not> bb_test ea ms
     then map (\<lambda>tsq. mkMove MasonConstruct ms tsq SQ_NONE SQ_NONE) (orthEmpties p ms) else [])"
  define ds1 :: "(int \<times> int) list" where "ds1 = [(if ?us = White then -1 else 1, 0), (0, -1), (0, 1)]"
  define ds2 :: "(int \<times> int) list"
    where "ds2 = [(if ?us = White then -1 else 1, -1), (if ?us = White then -1 else 1, 1)]"
  define g1 where "g1 = (\<lambda>q t. rawAt q t = 0)"
  define g2 where "g2 = (\<lambda>q t. \<not> isWallVal (rawAt q t) \<and> isPieceVal (rawAt q t)
                                          \<and> colorOf (rawAt q t) = other ?us)"
  define acc1 where "acc1 = foldl (commandStep ms ?us cb g1) (construct, p) ds1"
  define acc2 where "acc2 = foldl (commandStep ms ?us cb g2) acc1 ds2"
  have c: "\<forall>m\<in>set construct. shapeM p m"
    by (auto simp: construct_def shapeM_def mkMove_def orthEmpties_def)
  have r1: "snd acc1 = p \<and> (\<forall>m\<in>set (fst acc1). shapeM p m)"
    unfolding acc1_def
    by (rule foldl_commandStep_shape [OF assms(1-3) own _ c]) (simp add: g1_def)
  then have acc1: "acc1 = (fst acc1, p)" by (simp add: prod_eq_iff)
  have o1: "\<forall>m\<in>set (fst acc1). shapeM p m" using r1 by simp
  have "snd (foldl (commandStep ms ?us cb g2) (fst acc1, p) ds2) = p
        \<and> (\<forall>m\<in>set (fst (foldl (commandStep ms ?us cb g2) (fst acc1, p) ds2)). shapeM p m)"
    by (rule foldl_commandStep_shape [OF assms(1-3) own _ o1]) (simp add: g2_def)
  then have r2: "\<forall>m\<in>set (fst acc2). shapeM p m"
    unfolding acc2_def using acc1 by simp
  have eq: "genMasonExtras p ms ?us ea
      = (if \<not> list_ex (\<lambda>adj. isPieceVal (rawAt p adj) \<and> colorOf (rawAt p adj) = ?us
                                \<and> pieceOf (rawAt p adj) = Minister) (kingTargets ms)
         then (construct, p) else acc2)"
    by (simp add: genMasonExtras_def Let_def acc2_def acc1_def construct_def cb_def ds1_def ds2_def
          g1_def g2_def del: foldl.simps)
  show ?thesis using r2 c by (simp add: eq)
qed

lemma pieceSquares_holds:
  "bbOk p \<Longrightarrow> pt \<noteq> Count \<Longrightarrow> s \<in> set (pieceSquares p c pt) \<Longrightarrow>
   s < SQ_N \<and> rawAt p s = makePiece c pt"
  by (simp add: pieceSquares_bbOk piecePred_iff_makePiece rawAt_def)

lemma generateMoves_shape:
  assumes ok: "bbOk p" and len: "length (board p) = SQ_N"
    and m: "m \<in> set (fst (generateMoves p))"
  shows "legalShape p m"
proof -
  have ng: "\<not> gameOver p" using m by (rule generated_not_gameOver)
  have sq: "squaresOk m" using generateMoves_ok(2) [OF ok len m] .
  note h = pieceSquares_holds [OF ok]
  have n: "legalShape p m" if "shapeN p f pt m" "pt \<noteq> Count" for f pt
    using that sq by (auto simp: legalShape_def shapeN_def)
  have e: "legalShape p m" if "shapeM p m"
    using that sq by (auto simp: legalShape_def shapeM_def)
  have c: "legalShape p m"
    if "mtype m = CatapultRangedDemolish \<or> (mtype m = CatapultMove \<and> movesOwnPiece p m Catapult)"
    using that sq by (auto simp: legalShape_def)
  have b: "legalShape p m"
    if "mtype m = Bastion \<and> mfrom m = f \<and> rawAt p (mto m) = makePiece (turn p) Minister
         \<and> rawAt p (maux1 m) = 0 \<and> rawAt p (maux2 m) = 0 \<and> maux1 m \<noteq> maux2 m"
       "rawAt p f = makePiece (turn p) Sovereign" for f
    using that sq by (auto simp: legalShape_def)
  have N: "legalShape p m"
    if "pt \<noteq> Count" "s \<in> set (pieceSquares p (turn p) pt)"
       "m \<in> set (genNormalMovesForPiece p s pt (turn p))" for s pt
    using n [OF genNormalMovesForPiece_shape [OF _ that(3)] that(1)] h [OF that(1,2)] by simp
  have M: "legalShape p m"
    if "s \<in> set (pieceSquares p (turn p) Mason)"
       "m \<in> set (fst (genMasonExtras p s (turn p) ea))" for s ea
  proof -
    have s: "s < SQ_N" "rawAt p s = makePiece (turn p) Mason" using h [OF _ that(1)] by simp_all
    show ?thesis using genMasonExtras_shape [OF ok len s, of ea] that(2) e by blast
  qed
  have C: "legalShape p m"
    if "s \<in> set (pieceSquares p (turn p) Catapult)"
       "m \<in> set (genCatapultExtras p s (turn p))" for s
    using c [OF genCatapultExtras_shape [OF _ that(2)]] h [OF _ that(1)] by simp
  have B: "legalShape p m"
    if "s \<in> set (pieceSquares p (turn p) Sovereign)" "m \<in> set (genBastion p s (turn p))" for s
    using b [OF genBastion_shape [OF _ that(2)]] h [OF _ that(1)] by simp
  note N' = N [of Mason, simplified] N [of Pegasus, simplified] N [of Lancer, simplified]
    N [of Minister, simplified] N [of Sovereign, simplified]
  show ?thesis
    using m unfolding generateMoves_list [OF ok len ng]
    by (auto intro: N' M C B)
qed

section \<open>The hash is maintained by every primitive\<close>

lemma foldl_xor_update:
  "k < n \<Longrightarrow>
   foldl (\<lambda>h s. h XOR (if s = k then x else f s)) 0 [0..<n]
     = foldl (\<lambda>h s. h XOR f s) 0 [0..<n] XOR f k XOR x"
  for x :: "64 word"
proof (induction n)
  case 0
  then show ?case by simp
next
  case (Suc n)
  show ?case
  proof (cases "k = n")
    case True
    have "foldl (\<lambda>h s. h XOR (if s = k then x else f s)) 0 [0..<n]
            = foldl (\<lambda>h s. h XOR f s) 0 [0..<n]"
      by (rule foldl_cong) (auto simp: True)
    then show ?thesis by (simp add: True xor.assoc xor_cancel_left)
  next
    case False
    then have "k < n" using Suc.prems by simp
    then show ?thesis using Suc.IH False by (simp add: ac_simps)
  qed
qed

lemma boardHash_update:
  assumes "k < SQ_N" "length b = SQ_N"
  shows "boardHash (b[k := v]) = boardHash b XOR squareKey k (b ! k) XOR squareKey k v"
proof -
  have "boardHash (b[k := v])
          = foldl (\<lambda>h s. h XOR (if s = k then squareKey k v else squareKey s (b ! s))) 0 [0..<SQ_N]"
    unfolding boardHash_def
    by (rule foldl_cong) (use assms in \<open>auto simp: nth_list_update\<close>)
  also have "\<dots> = boardHash b XOR squareKey k (b ! k) XOR squareKey k v"
    unfolding boardHash_def by (rule foldl_xor_update [OF assms(1)])
  finally show ?thesis .
qed

definition hashLen :: "Position \<Rightarrow> bool" where
  "hashLen p = (hashOk p \<and> length (board p) = SQ_N)"

lemma hashLen_setSquareRaw: "hashLen p \<Longrightarrow> s < SQ_N \<Longrightarrow> hashLen (setSquareRaw p s v)"
  by (simp add: hashLen_def hashOk_def setSquareRaw_hash setSquareRaw_board boardHash_update
        initialHash_cong [of "setSquareRaw p s v" p] setSquareRaw_frame ac_simps)

lemma hashLen_addWallTokens: "hashLen p \<Longrightarrow> hashLen (addWallTokens p c d)"
  by (simp add: hashLen_def hashOk_def addWallTokens_frame
        initialHash_cong [of "addWallTokens p c d" p])

lemma hashLen_halfmove: "hashLen p \<Longrightarrow> hashLen (p\<lparr> halfmove := h \<rparr>)"
  by (simp add: hashLen_def hashOk_def initialHash_def)

lemma hashLen_history: "hashLen (p\<lparr> history := h \<rparr>) = hashLen p"
  by (simp add: hashLen_def hashOk_def initialHash_def)

lemma hashLen_win:
  "hashLen p \<Longrightarrow>
   hashLen (p\<lparr> sovereignSq := s, winner := w, winReason := r, halfmove := h \<rparr>)"
  by (simp add: hashLen_def hashOk_def initialHash_def)

lemma hashLen_setWallBuiltLast: "hashLen p \<Longrightarrow> hashLen (setWallBuiltLast p c f)"
  by (cases c; cases "wallBuiltLast p")
     (auto simp: hashLen_def hashOk_def setWallBuiltLast_def initialHash_def Let_def  ac_simps)

lemma hashLen_sovereignMoved: "hashLen p \<Longrightarrow> hashLen (sovereignMoved p c s)"
  by (cases c; cases "bastionRight p")
     (auto simp: hashLen_def hashOk_def sovereignMoved_def initialHash_def Let_def  ac_simps)

lemma hashLen_hitWall: "hashLen p \<Longrightarrow> s < SQ_N \<Longrightarrow> hashLen (hitWall p s)"
  by (simp add: hitWall_def Let_def hashLen_setSquareRaw hashLen_addWallTokens)

lemma hashLen_finalizeTurn: "hashLen p \<Longrightarrow> hashLen (finalizeTurn p)"
  by (cases "turn p")
     (auto simp: hashLen_def hashOk_def finalizeTurn_def initialHash_def Let_def ac_simps)

lemmas hashLen_steps = hashLen_setSquareRaw hashLen_addWallTokens hashLen_halfmove
  hashLen_win hashLen_setWallBuiltLast hashLen_sovereignMoved hashLen_hitWall
  hashLen_finalizeTurn

lemma hashLen_movePiece:
  "movePiece p u m v = (p2, u2) \<Longrightarrow> hashLen p \<Longrightarrow> mfrom m < SQ_N \<Longrightarrow> mto m < SQ_N \<Longrightarrow>
   hashLen p2"
  by (auto simp: movePiece_def Let_def hashLen_steps)

lemma hashLen_captureSovereign:
  "hashLen p \<Longrightarrow> mfrom m < SQ_N \<Longrightarrow> t < SQ_N \<Longrightarrow> hashLen (fst (captureSovereign p u m t v))"
  by (simp add: captureSovereign_def Let_def hashLen_steps)

lemma hashLen_makeMove:
  assumes "hashLen p" "squaresOk m"
  shows "hashLen (fst (makeMove p m))"
proof -
  let ?p0 = "p\<lparr> history := history p @ [hash p] \<rparr>"
  have h0: "hashLen ?p0" using assms(1) by (simp add: hashLen_history)
  have f: "mfrom m < SQ_N" "mto m < SQ_N" using assms(2) by (simp_all add: squaresOk_def)
  note st = hashLen_steps hashLen_captureSovereign
  have n: "hashLen (fst (makeNormal q u m))" if "hashLen q" for q u
    using that f
    by (auto simp: makeNormal_def Let_def split: prod.splits intro!: st dest: hashLen_movePiece)
  have c: "hashLen (fst (makeMasonConstruct q u m))" if "hashLen q" for q u
    using that f by (auto simp: makeMasonConstruct_def Let_def intro!: st)
  have mc: "hashLen (fst (makeMasonCommand q u m))"
    if "hashLen q" "maux1 m = SQ_NONE \<or> maux1 m < SQ_N" for q u
    using that f
    by (auto simp: makeMasonCommand_def Let_def split: prod.splits intro!: st
          dest: hashLen_movePiece)
  have d: "hashLen (fst (makeCatapultRangedDemolish q u m))" if "hashLen q" for q u
    using that f by (auto simp: makeCatapultRangedDemolish_def Let_def intro!: st)
  have cm: "hashLen (fst (makeCatapultMove q u m))"
    if "hashLen q" "maux1 m = SQ_NONE \<or> maux1 m < SQ_N" for q u
    using that f
    by (auto simp: makeCatapultMove_def Let_def split: prod.splits intro!: st
          dest: hashLen_movePiece)
  have b: "hashLen (fst (makeBastion q u m))"
    if "hashLen q" "maux1 m < SQ_N" "maux2 m < SQ_N" for q u
    using that f by (auto simp: makeBastion_def Let_def intro!: st)
  show ?thesis
    using assms(2) h0 n [OF h0] c [OF h0] mc [OF h0] d [OF h0] cm [OF h0] b [OF h0]
    by (cases "mtype m") (auto simp: makeMove_def Let_def squaresOk_def)
qed

section \<open>Wall tokens and Sovereign squares under a square update\<close>

definition wallVal :: "int \<Rightarrow> Color \<Rightarrow> int" where
  "wallVal v c = (if isWallVal v \<and> colorOf v = c then wallHp v else 0)"

lemma foldl_cond_sum:
  "foldl (\<lambda>t s. if P s then t + f s else t) (0::int) [0..<n] = (\<Sum>s<n. if P s then f s else 0)"
  by (induction n) simp_all

lemma wallSum_sum: "wallSum b c = (\<Sum>s<SQ_N. wallVal (b ! s) c)"
  unfolding wallSum_def foldl_cond_sum by (simp add: wallVal_def wallPred_def)

lemma wallSum_update:
  assumes "k < SQ_N" "length b = SQ_N"
  shows "wallSum (b[k := v]) c = wallSum b c - wallVal (b ! k) c + wallVal v c"
proof -
  have fin: "finite {..<SQ_N}" and k: "k \<in> {..<SQ_N}" using assms(1) by simp_all
  have a: "(\<Sum>s<SQ_N. wallVal (b[k := v] ! s) c)
             = wallVal (b[k := v] ! k) c + (\<Sum>s\<in>{..<SQ_N} - {k}. wallVal (b[k := v] ! s) c)"
    by (rule sum.remove [OF fin k])
  have b: "(\<Sum>s<SQ_N. wallVal (b ! s) c)
             = wallVal (b ! k) c + (\<Sum>s\<in>{..<SQ_N} - {k}. wallVal (b ! s) c)"
    by (rule sum.remove [OF fin k])
  have c: "(\<Sum>s\<in>{..<SQ_N} - {k}. wallVal (b[k := v] ! s) c)
             = (\<Sum>s\<in>{..<SQ_N} - {k}. wallVal (b ! s) c)"
    by (rule sum.cong) auto
  show ?thesis using assms a b c by (simp add: wallSum_sum)
qed

definition sovSet :: "int list \<Rightarrow> Color \<Rightarrow> nat set" where
  "sovSet b c = {s. s < SQ_N \<and> b ! s = makePiece c Sovereign}"

lemma sovSet_update:
  assumes "k < SQ_N" "length b = SQ_N"
  shows "sovSet (b[k := v]) c
           = (if v = makePiece c Sovereign then insert k (sovSet b c) else sovSet b c - {k})"
  using assms by (auto simp: sovSet_def nth_list_update)

lemma foldl_last_index:
  "foldl (\<lambda>k s. if P s then s else k) d [0..<n]
     = (if \<exists>s<n. P s then Max {s. s < n \<and> P s} else d)"
proof (induction n)
  case 0
  then show ?case by simp
next
  case (Suc n)
  show ?case
  proof (cases "P n")
    case True
    have "Max {s. s < Suc n \<and> P s} = n"
      by (rule Max_eqI) (use True in auto)
    then show ?thesis using True by auto
  next
    case False
    then have e1: "{s. s < Suc n \<and> P s} = {s. s < n \<and> P s}"
      by (auto simp: less_Suc_eq)
    have e2: "(\<exists>s<Suc n. P s) = (\<exists>s<n. P s)"
      using False by (auto simp: less_Suc_eq)
    have "foldl (\<lambda>k s. if P s then s else k) d [0..<Suc n]
            = foldl (\<lambda>k s. if P s then s else k) d [0..<n]"
      using False by simp
    then show ?thesis unfolding e1 e2 using Suc.IH by (simp only:)
  qed
qed

lemma lastSovereign_sovSet:
  "lastSovereign b c = (if sovSet b c = {} then SQ_NONE else Max (sovSet b c))"
proof -
  have "{s. s < SQ_N \<and> piecePred b c 5 s} = sovSet b c"
    using piecePred_iff_makePiece [of Sovereign b c] by (auto simp: sovSet_def)
  moreover have "(\<exists>s<SQ_N. piecePred b c 5 s) = (sovSet b c \<noteq> {})"
    using piecePred_iff_makePiece [of Sovereign b c] by (auto simp: sovSet_def)
  ultimately show ?thesis by (simp add: lastSovereign_def foldl_last_index)
qed

text \<open>Each colour has at most one Sovereign, and \<open>sovereignSq\<close> names its square.\<close>

definition sovInv :: "Position \<Rightarrow> bool" where
  "sovInv p =
     (\<forall>c. sovSet (board p) c
            = (if pcGet c (sovereignSq p) = SQ_NONE then {} else {pcGet c (sovereignSq p)}))"

lemma sovInv_sovOk: "sovInv p \<Longrightarrow> sovOk p"
  by (auto simp: sovInv_def sovOk_def lastSovereign_sovSet)

definition validBoard :: "int list \<Rightarrow> bool" where
  "validBoard b = (\<forall>s<SQ_N. abs8 (b ! s) \<le> 8)"

definition coreOk :: "Position \<Rightarrow> bool" where
  "coreOk p = (tokensOk p \<and> sovInv p \<and> validBoard (board p) \<and> length (board p) = SQ_N)"

text \<open>A value that is neither a wall nor a Sovereign.\<close>

definition plain :: "int \<Rightarrow> bool" where
  "plain v = (abs8 v \<le> 5)"

lemma plain_facts:
  "plain v \<Longrightarrow> \<not> isWallVal v" "plain v \<Longrightarrow> v \<noteq> makePiece c Sovereign" "plain v \<Longrightarrow> abs8 v \<le> 8"
  "plain v \<Longrightarrow> wallVal v c = 0"
  by (cases c; auto simp: plain_def isWallVal_def makePiece_def abs8_def wallVal_def
        split: if_splits)+

lemma plain_simps [simp]: "plain 0" "pt \<noteq> Sovereign \<Longrightarrow> pt \<noteq> Count \<Longrightarrow> plain (makePiece c pt)"
  by (cases c; cases pt; simp add: plain_def makePiece_def abs8_def)+

lemma coreOk_cong:
  "board q = board p \<Longrightarrow> wallTokens q = wallTokens p \<Longrightarrow> sovereignSq q = sovereignSq p \<Longrightarrow>
   coreOk q = coreOk p"
  by (simp add: coreOk_def tokensOk_def sovInv_def)

lemma coreOk_setSquareRaw:
  assumes "coreOk p" "s < SQ_N" "plain (board p ! s)" "plain v"
  shows "coreOk (setSquareRaw p s v)"
proof -
  have len: "length (board p) = SQ_N" using assms(1) by (simp add: coreOk_def)
  have "tokensOk (setSquareRaw p s v)"
    using assms len
    by (simp add: coreOk_def tokensOk_def setSquareRaw_frame setSquareRaw_board wallSum_update
          plain_facts)
  moreover have "sovInv (setSquareRaw p s v)"
  proof -
    have "s \<notin> sovSet (board p) c" for c
      using assms(3) plain_facts(2) by (auto simp: sovSet_def)
    then show ?thesis
      using assms len
      by (simp add: coreOk_def sovInv_def setSquareRaw_frame setSquareRaw_board sovSet_update
            plain_facts)
  qed
  moreover have "validBoard (board (setSquareRaw p s v))"
    using assms len
    by (auto simp: coreOk_def validBoard_def setSquareRaw_board nth_list_update plain_facts)
  ultimately show ?thesis using len by (simp add: coreOk_def setSquareRaw_board)
qed

lemma wall_facts:
  assumes "hp = 1 \<or> hp = 2"
  shows "makeWall c hp \<noteq> makePiece c' Sovereign" "abs8 (makeWall c hp) \<le> 8"
    "wallVal (makeWall c hp) c' = (if c' = c then hp else 0)"
  using assms
  by (cases c; cases c';
      auto simp: makeWall_def makePiece_def abs8_def wallVal_def isWallVal_def colorOf_def
        wallHp_def)+

lemma coreOk_wall:
  assumes "coreOk p" "s < SQ_N" "plain (board p ! s)" "hp = 1 \<or> hp = 2"
  shows "coreOk (addWallTokens (setSquareRaw p s (makeWall c hp)) c hp)"
proof -
  let ?q = "addWallTokens (setSquareRaw p s (makeWall c hp)) c hp"
  have len: "length (board p) = SQ_N" using assms(1) by (simp add: coreOk_def)
  have bq: "board ?q = (board p)[s := makeWall c hp]"
    by (simp add: addWallTokens_frame setSquareRaw_board)
  have tq: "wallTokens ?q = pcSet c (pcGet c (wallTokens p) + hp) (wallTokens p)"
    by (simp add: addWallTokens_def setSquareRaw_frame)
  have "tokensOk ?q"
    using assms len
    by (simp add: coreOk_def tokensOk_def bq tq wallSum_update plain_facts wall_facts)
  moreover have "sovInv ?q"
  proof -
    have "s \<notin> sovSet (board p) c'" for c'
      using assms(3) plain_facts(2) by (auto simp: sovSet_def)
    then show ?thesis
      using assms len
      by (simp add: coreOk_def sovInv_def sovSet_update wall_facts addWallTokens_frame
            setSquareRaw_frame setSquareRaw_board)
  qed
  moreover have "validBoard (board ?q)"
    using assms len by (auto simp: coreOk_def validBoard_def bq nth_list_update wall_facts)
  ultimately show ?thesis using len by (simp add: coreOk_def bq)
qed

lemma coreOk_hitWall:
  assumes "coreOk p" "s < SQ_N"
  shows "coreOk (hitWall p s)"
proof (cases "isWallVal (board p ! s)")
  case False
  then show ?thesis using assms(1) by (simp add: hitWall_def rawAt_def)
next
  case True
  define v where "v = board p ! s"
  define w where "w = (if wallHp v = 2 then makeWall (colorOf v) 1 else 0)"
  define q where "q = addWallTokens (setSquareRaw p s w) (colorOf v) (- 1)"
  have len: "length (board p) = SQ_N" using assms(1) by (simp add: coreOk_def)
  have v8: "abs8 v \<le> 8" using assms by (simp add: coreOk_def validBoard_def v_def)
  have hq: "hitWall p s = q"
    using True by (simp add: hitWall_def rawAt_def Let_def q_def w_def v_def)
  have bq: "board q = (board p)[s := w]"
    by (simp add: q_def addWallTokens_frame setSquareRaw_board)
  have tq: "wallTokens q = pcSet (colorOf v) (pcGet (colorOf v) (wallTokens p) - 1) (wallTokens p)"
    by (simp add: q_def addWallTokens_def setSquareRaw_frame)
  have sq: "sovereignSq q = sovereignSq p"
    by (simp add: q_def addWallTokens_frame setSquareRaw_frame)
  have wv: "wallVal w c = wallVal v c - (if c = colorOf v then 1 else 0)" for c
  proof -
    have z: "wallVal 0 c = 0" by (simp add: wallVal_def isWallVal_def abs8_def)
    have o: "wallVal (makeWall (colorOf v) 1) c = (if c = colorOf v then 1 else 0)"
      by (rule wall_facts(3)) simp
    have "wallVal v c = (if c = colorOf v then wallHp v else 0)"
      using True by (auto simp: wallVal_def v_def)
    moreover have "wallHp v = 1 \<or> wallHp v = 2"
      using True v8 by (auto simp: isWallVal_def wallHp_def v_def)
    ultimately show ?thesis using z o by (auto simp: w_def)
  qed
  have ns: "v \<noteq> makePiece c Sovereign" "w \<noteq> makePiece c Sovereign" for c
    using True makePiece_facts(2,5) [of Sovereign c] wall_facts(1) [of 1 "colorOf v" c]
    by (auto simp: v_def w_def)
  have w8: "abs8 w \<le> 8"
    using wall_facts(2) [of 1 "colorOf v"] by (auto simp: w_def abs8_def)
  have "tokensOk q"
    unfolding tokensOk_def
  proof
    fix c
    have "wallSum (board q) c = wallSum (board p) c - wallVal v c + wallVal w c"
      unfolding bq v_def by (rule wallSum_update [OF assms(2) len])
    then show "pcGet c (wallTokens q) = wallSum (board q) c"
      using assms(1) by (simp add: coreOk_def tokensOk_def tq wv)
  qed
  moreover have "sovInv q"
  proof -
    have "s \<notin> sovSet (board p) c" for c using ns(1) by (auto simp: sovSet_def v_def)
    then show ?thesis
      using assms len ns(2) by (simp add: coreOk_def sovInv_def bq sq sovSet_update)
  qed
  moreover have "validBoard (board q)"
    using assms len w8 by (auto simp: coreOk_def validBoard_def bq nth_list_update)
  ultimately show ?thesis using len unfolding hq by (simp add: coreOk_def bq)
qed

lemma makePiece_inj: "makePiece c pt = makePiece c' pt' \<longleftrightarrow> c = c' \<and> pt = pt'"
  by (cases c; cases c'; cases pt; cases pt'; simp add: makePiece_def)

lemma sovSet_cases:
  "sovInv p \<Longrightarrow> k \<in> sovSet (board p) c \<Longrightarrow>
   sovSet (board p) c = {k} \<and> pcGet c (sovereignSq p) = k"
  by (auto simp: sovInv_def split: if_splits)

text \<open>A piece of the mover goes from \<open>f\<close> to \<open>t\<close> (taking what stands there) and the
  plain value \<open>w\<close> is left on \<open>f\<close>; the Sovereign squares are updated as \<open>makeMove\<close> does.\<close>

lemma coreOk_relocate:
  assumes core: "coreOk p" and f: "f < SQ_N" and t: "t < SQ_N"
    and src: "board p ! f = makePiece us pt" "pt \<noteq> Count"
    and dst: "\<not> isWallVal (board p ! t)" "board p ! t \<noteq> makePiece us Sovereign"
    and ne: "f \<noteq> t" and w: "plain w"
    and bq: "board q = (board p)[t := board p ! f, f := w]"
    and tq: "wallTokens q = wallTokens p"
    and us: "pcGet us (sovereignSq q) = (if pt = Sovereign then t else pcGet us (sovereignSq p))"
    and them: "pcGet (other us) (sovereignSq q)
                 = (if board p ! t = makePiece (other us) Sovereign then SQ_NONE
                    else pcGet (other us) (sovereignSq p))"
  shows "coreOk q"
proof -
  let ?b = "board p"
  have len: "length ?b = SQ_N" and si: "sovInv p" using core by (simp_all add: coreOk_def)
  have wf: "wallVal (?b ! f) c = 0" "wallVal (?b ! t) c = 0" for c
    using src dst(1) makePiece_facts(2) [of pt us] by (simp_all add: wallVal_def)
  have "tokensOk q"
    using core len f t ne wf w
    by (simp add: coreOk_def tokensOk_def bq tq wallSum_update plain_facts)
  moreover have "sovInv q"
    unfolding sovInv_def
  proof
    fix c
    have s: "sovSet (board q) c'
               = (if ?b ! f = makePiece c' Sovereign then insert t (sovSet ?b c')
                  else sovSet ?b c' - {t}) - {f}" for c'
      using len f t w by (simp add: bq sovSet_update plain_facts)
    have tn: "t \<noteq> SQ_NONE" using t by (simp add: SQ_NONE_def SQ_N_def)
    show "sovSet (board q) c
            = (if pcGet c (sovereignSq q) = SQ_NONE then {} else {pcGet c (sovereignSq q)})"
    proof (cases "c = us")
      case True
      show ?thesis
      proof (cases "pt = Sovereign")
        case sv: True
        have "f \<in> sovSet ?b us" using f src sv by (simp add: sovSet_def)
        then have "sovSet ?b us = {f}" using sovSet_cases [OF si] by blast
        then show ?thesis using True sv src us ne tn by (auto simp: s)
      next
        case False
        have "t \<notin> sovSet ?b us" "f \<notin> sovSet ?b us"
          using dst(2) src False by (auto simp: sovSet_def makePiece_inj)
        then show ?thesis
          using True False src us si by (simp add: s makePiece_inj sovInv_def)
      qed
    next
      case False
      then have c: "c = other us" by (cases c; cases us) simp_all
      have nf: "f \<notin> sovSet ?b c" "?b ! f \<noteq> makePiece c Sovereign"
        using src False by (auto simp: sovSet_def makePiece_inj)
      show ?thesis
      proof (cases "?b ! t = makePiece c Sovereign")
        case True
        have "t \<in> sovSet ?b c" using t True by (simp add: sovSet_def)
        then have "sovSet ?b c = {t}" using sovSet_cases [OF si] by blast
        then show ?thesis using True nf them c by (simp add: s)
      next
        case False
        have "t \<notin> sovSet ?b c" using False by (simp add: sovSet_def)
        then show ?thesis using False nf them c si by (simp add: s sovInv_def)
      qed
    qed
  qed
  moreover have "validBoard (board q)"
    using core len f t w plain_facts(3) [of w]
    by (auto simp: coreOk_def validBoard_def bq nth_list_update)
  ultimately show ?thesis using len by (simp add: coreOk_def bq)
qed

lemma coreOk_tail:
  "coreOk (finalizeTurn (setWallBuiltLast (x\<lparr> halfmove := h \<rparr>) c f)) = coreOk x"
  by (rule coreOk_cong) (simp_all add: finalizeTurn_frame setWallBuiltLast_frame)

lemma coreOk_history: "coreOk (p\<lparr> history := h \<rparr>) = coreOk p"
  by (rule coreOk_cong) simp_all

lemma sovereign_value:
  "(isPieceVal v \<and> colorOf v = c \<and> pieceOf v = Sovereign) = (v = makePiece c Sovereign)"
  by (cases c)
     (auto simp: isPieceVal_def abs8_def colorOf_def pieceOf_def ptOfInt_def makePiece_def
        split: if_splits)

lemma movesOwnPiece_facts:
  assumes "movesOwnPiece q m pt" "pt \<noteq> Count"
  shows "board q ! mfrom m = makePiece (turn q) pt"
    and "\<not> isWallVal (board q ! mto m)"
    and "board q ! mto m \<noteq> makePiece (turn q) Sovereign"
    and "mfrom m \<noteq> mto m"
    and "isSovereignCapture q m = (board q ! mto m = makePiece (other (turn q)) Sovereign)"
    and "(isPieceVal (board q ! mfrom m) \<and> pieceOf (board q ! mfrom m) = Sovereign)
           = (pt = Sovereign)"
proof -
  let ?t = "board q ! mto m"
  have t: "?t = 0 \<or> (isPieceVal ?t \<and> colorOf ?t = other (turn q))"
    and f: "board q ! mfrom m = makePiece (turn q) pt"
    using assms(1) by (simp_all add: movesOwnPiece_def rawAt_def)
  note mp = makePiece_facts [OF assms(2), of "turn q"]
  show "board q ! mfrom m = makePiece (turn q) pt" by (rule f)
  show "\<not> isWallVal ?t" using t by (auto simp: isWallVal_def isPieceVal_def abs8_def)
  show "?t \<noteq> makePiece (turn q) Sovereign"
    using t makePiece_facts(3,5) [of Sovereign "turn q"] by auto
  show "mfrom m \<noteq> mto m" using t f mp by auto
  show "isSovereignCapture q m = (?t = makePiece (other (turn q)) Sovereign)"
    using sovereign_value [of ?t "other (turn q)"]
    by (auto simp: isSovereignCapture_def Let_def rawAt_def)
  show "(isPieceVal (board q ! mfrom m) \<and> pieceOf (board q ! mfrom m) = Sovereign)
           = (pt = Sovereign)"
    using f mp by simp
qed

lemma coreOk_captureSovereign:
  assumes "coreOk q" "mfrom m < SQ_N" "mto m < SQ_N" "movesOwnPiece q m pt" "pt \<noteq> Count"
    "isSovereignCapture q m"
  shows "coreOk (fst (captureSovereign q u m (mto m) (rawAt q (mfrom m))))"
proof -
  note mf = movesOwnPiece_facts [OF assms(4,5)]
  have cap: "board q ! mto m = makePiece (other (turn q)) Sovereign"
    using assms(6) mf(5) by simp
  show ?thesis
    by (rule coreOk_relocate [OF assms(1-3) mf(1) assms(5) mf(2,3,4), where w = 0])
       (simp_all add: captureSovereign_def Let_def setWallBuiltLast_frame sovereignMoved_frame
          setSquareRaw_frame setSquareRaw_board mf(6) cap rawAt_def)
qed

lemma coreOk_moved:
  assumes "coreOk q" "mfrom m < SQ_N" "mto m < SQ_N" "movesOwnPiece q m pt" "pt \<noteq> Count"
    "\<not> isSovereignCapture q m"
  shows "coreOk (if pt = Sovereign
                 then sovereignMoved (fst (movePiece q u m (rawAt q (mfrom m)))) (turn q) (mto m)
                 else fst (movePiece q u m (rawAt q (mfrom m))))"
proof -
  note mf = movesOwnPiece_facts [OF assms(4,5)]
  have cap: "board q ! mto m \<noteq> makePiece (other (turn q)) Sovereign"
    using assms(6) mf(5) by simp
  show ?thesis
    by (rule coreOk_relocate [OF assms(1-3) mf(1) assms(5) mf(2,3,4), where w = 0])
       (simp_all add: sovereignMoved_frame movePiece_frame cap rawAt_def)
qed

lemma coreOk_makeNormal:
  assumes "coreOk q" "mfrom m < SQ_N" "mto m < SQ_N" "movesOwnPiece q m pt" "pt \<noteq> Count"
  shows "coreOk (fst (makeNormal q u m))"
proof (cases "isSovereignCapture q m")
  case True
  then show ?thesis
    using coreOk_captureSovereign [OF assms True] by (simp add: makeNormal_def Let_def)
next
  case False
  note mf = movesOwnPiece_facts [OF assms(4,5)]
  show ?thesis
    using coreOk_moved [OF assms False, of u] False
    by (simp add: makeNormal_def Let_def case_prod_beta coreOk_tail mf(6) rawAt_def
          split: if_splits)
qed

lemma coreOk_makeMasonConstruct:
  assumes "coreOk q" "mto m < SQ_N" "rawAt q (mto m) = 0"
  shows "coreOk (fst (makeMasonConstruct q u m))"
  using coreOk_wall [OF assms(1,2), of "if isKeepSq (mfrom m) then 2 else 1" "turn q"] assms(3)
  by (simp add: makeMasonConstruct_def Let_def coreOk_tail rawAt_def)

lemma coreOk_makeCatapultRangedDemolish:
  assumes "coreOk q" "mto m < SQ_N"
  shows "coreOk (fst (makeCatapultRangedDemolish q u m))"
  using coreOk_hitWall [OF assms]
  by (simp add: makeCatapultRangedDemolish_def Let_def coreOk_tail)

lemma coreOk_makeCatapultMove:
  assumes "coreOk q" "mfrom m < SQ_N" "mto m < SQ_N" "movesOwnPiece q m Catapult"
    "maux1 m = SQ_NONE \<or> maux1 m < SQ_N"
  shows "coreOk (fst (makeCatapultMove q u m))"
proof (cases "isSovereignCapture q m")
  case True
  then show ?thesis
    using coreOk_captureSovereign [OF assms(1-4) _ True] by (simp add: makeCatapultMove_def Let_def)
next
  case False
  have c2: "coreOk (fst (movePiece q u m (rawAt q (mfrom m))))"
    using coreOk_moved [OF assms(1-4) _ False, of u] by simp
  show ?thesis
    using c2 coreOk_hitWall [OF c2, of "maux1 m"] assms(5) False
    by (auto simp: makeCatapultMove_def Let_def case_prod_beta coreOk_tail)
qed

lemma coreOk_makeMasonCommand:
  assumes "coreOk q" "mfrom m < SQ_N" "mto m < SQ_N" "movesOwnPiece q m Mason"
    "maux1 m = SQ_NONE \<or> maux1 m < SQ_N"
    "maux1 m \<noteq> SQ_NONE \<longrightarrow>
       maux1 m \<noteq> mto m \<and> (maux1 m = mfrom m \<or> rawAt q (maux1 m) = 0)"
  shows "coreOk (fst (makeMasonCommand q u m))"
proof (cases "isSovereignCapture q m")
  case True
  then show ?thesis
    using coreOk_captureSovereign [OF assms(1-4) _ True] by (simp add: makeMasonCommand_def Let_def)
next
  case False
  let ?p2 = "fst (movePiece q u m (rawAt q (mfrom m)))"
  have len: "length (board q) = SQ_N" using assms(1) by (simp add: coreOk_def)
  have c2: "coreOk ?p2"
    using coreOk_moved [OF assms(1-4) _ False, of u] by simp
  have pl: "plain (board ?p2 ! maux1 m)" if "maux1 m \<noteq> SQ_NONE"
    using that assms(2,3,5,6) len by (auto simp: movePiece_frame nth_list_update rawAt_def)
  have "coreOk (addWallTokens (setSquareRaw ?p2 (maux1 m)
                  (makeWall (turn q) (if isKeepSq (mto m) then 2 else 1)))
                  (turn q) (if isKeepSq (mto m) then 2 else 1))"
    if "maux1 m \<noteq> SQ_NONE"
    using that assms(5) by (intro coreOk_wall [OF c2 _ pl]) auto
  then show ?thesis
    using c2 False
    by (auto simp: makeMasonCommand_def Let_def case_prod_beta coreOk_tail)
qed

lemma coreOk_makeBastion:
  assumes core: "coreOk q" and sqs: "mfrom m < SQ_N" "mto m < SQ_N" "maux1 m < SQ_N" "maux2 m < SQ_N"
    and sv: "rawAt q (mfrom m) = makePiece (turn q) Sovereign"
    and mn: "rawAt q (mto m) = makePiece (turn q) Minister"
    and em: "rawAt q (maux1 m) = 0" "rawAt q (maux2 m) = 0" "maux1 m \<noteq> maux2 m"
  shows "coreOk (fst (makeBastion q u m))"
proof -
  let ?us = "turn q"
  let ?p3 = "sovereignMoved (setSquareRaw (setSquareRaw q (mto m) (rawAt q (mfrom m)))
                              (mfrom m) (rawAt q (mto m))) ?us (mto m)"
  let ?p4 = "addWallTokens (setSquareRaw ?p3 (maux1 m) (makeWall ?us 1)) ?us 1"
  let ?p5 = "addWallTokens (setSquareRaw ?p4 (maux2 m) (makeWall ?us 1)) ?us 1"
  have len: "length (board q) = SQ_N" using core by (simp add: coreOk_def)
  note sf = makePiece_facts [of Sovereign ?us, simplified]
  note nf = makePiece_facts [of Minister ?us, simplified]
  have ne: "mfrom m \<noteq> mto m" using sv mn by (auto simp: makePiece_inj)
  have d1: "maux1 m \<noteq> mfrom m" "maux1 m \<noteq> mto m" "maux2 m \<noteq> mfrom m" "maux2 m \<noteq> mto m"
    using sv mn em sf(5) nf(5) by auto
  have b3: "board ?p3 = (board q)[mto m := board q ! mfrom m, mfrom m := rawAt q (mto m)]"
    by (simp add: sovereignMoved_frame setSquareRaw_board rawAt_def)
  have c3: "coreOk ?p3"
  proof (rule coreOk_relocate [OF core sqs(1,2), where us = ?us and pt = Sovereign
        and w = "rawAt q (mto m)"])
    show "board q ! mfrom m = makePiece ?us Sovereign" using sv by (simp add: rawAt_def)
    show "\<not> isWallVal (board q ! mto m)" using mn nf by (simp add: rawAt_def)
    show "board q ! mto m \<noteq> makePiece ?us Sovereign"
      using mn by (simp add: rawAt_def makePiece_inj)
    show "plain (rawAt q (mto m))" using mn by simp
    show "pcGet (other ?us) (sovereignSq ?p3)
            = (if board q ! mto m = makePiece (other ?us) Sovereign then SQ_NONE
               else pcGet (other ?us) (sovereignSq q))"
      using mn by (simp add: sovereignMoved_frame setSquareRaw_frame rawAt_def makePiece_inj)
  qed (simp_all add: ne sovereignMoved_frame setSquareRaw_frame setSquareRaw_board rawAt_def)
  have pl3: "plain (board ?p3 ! maux1 m)"
    unfolding b3 using d1 em by (simp add: rawAt_def)
  have c4: "coreOk ?p4" by (rule coreOk_wall [OF c3 sqs(3) pl3]) simp
  have b4: "board ?p4 = (board ?p3)[maux1 m := makeWall ?us 1]"
    by (simp add: addWallTokens_frame setSquareRaw_board)
  have pl4: "plain (board ?p4 ! maux2 m)"
    unfolding b4 b3 using d1 em by (simp add: rawAt_def)
  have c5: "coreOk ?p5" by (rule coreOk_wall [OF c4 sqs(4) pl4]) simp
  show ?thesis
    using c5 by (simp add: makeBastion_def Let_def coreOk_tail)
qed

lemma legalShape_history: "legalShape (p\<lparr> history := h \<rparr>) m = legalShape p m"
  by (cases "mtype m") (simp_all add: legalShape_def movesOwnPiece_def rawAt_def)

lemma coreOk_makeMove:
  assumes "coreOk p" "legalShape p m"
  shows "coreOk (fst (makeMove p m))"
proof -
  let ?p0 = "p\<lparr> history := history p @ [hash p] \<rparr>"
  have c0: "coreOk ?p0" using assms(1) by (simp add: coreOk_history)
  have l0: "legalShape ?p0 m" using assms(2) by (simp add: legalShape_history)
  have sq: "mfrom m < SQ_N" "mto m < SQ_N" using assms(2) by (simp_all add: legalShape_def squaresOk_def)
  show ?thesis
  proof (cases "gameOver ?p0")
    case True
    then show ?thesis using c0 by (simp add: makeMove_def Let_def)
  next
    case False
    show ?thesis
    proof (cases "mtype m")
      case Normal
      then obtain pt where "pt \<noteq> Count" "movesOwnPiece ?p0 m pt"
        using l0 by (auto simp: legalShape_def)
      then show ?thesis
        using coreOk_makeNormal [OF c0 sq] False Normal by (simp add: makeMove_def Let_def)
    next
      case MasonConstruct
      then show ?thesis
        using coreOk_makeMasonConstruct [OF c0 sq(2)] l0 False
        by (simp add: makeMove_def Let_def legalShape_def)
    next
      case MasonCommand
      then show ?thesis
        using coreOk_makeMasonCommand [OF c0 sq] l0 False
        by (simp add: makeMove_def Let_def legalShape_def squaresOk_def)
    next
      case CatapultRangedDemolish
      then show ?thesis
        using coreOk_makeCatapultRangedDemolish [OF c0 sq(2)] False
        by (simp add: makeMove_def Let_def)
    next
      case CatapultMove
      then show ?thesis
        using coreOk_makeCatapultMove [OF c0 sq] l0 False
        by (simp add: makeMove_def Let_def legalShape_def squaresOk_def)
    next
      case Bastion
      then show ?thesis
        using coreOk_makeBastion [OF c0 sq] l0 False
        by (simp add: makeMove_def Let_def legalShape_def squaresOk_def)
    qed
  qed
qed

section \<open>Positions reachable from the initial position\<close>

text \<open>The invariant carried along a game: the bitboards, the hash, the wall tokens and the
  Sovereign squares agree with the raw squares, every square holds a legal value, and each
  side has at most one Sovereign.\<close>

definition wellFormed :: "Position \<Rightarrow> bool" where
  "wellFormed p = (bbOk p \<and> hashOk p \<and> coreOk p)"

lemma wellFormed_consistent: "wellFormed p \<Longrightarrow> consistent p"
  by (simp add: wellFormed_def coreOk_def consistent_iff sovInv_sovOk)

lemma validBoard_list_all:
  "length b = SQ_N \<Longrightarrow> validBoard b = list_all (\<lambda>v. abs8 v \<le> 8) b"
  by (auto simp: validBoard_def list_all_length)

lemma sovSet_filter: "sovSet b c = set (filter (\<lambda>s. b ! s = makePiece c Sovereign) [0..<SQ_N])"
  by (auto simp: sovSet_def)

lemma initial_sovereigns:
  "filter (\<lambda>s. initialBoard ! s = makePiece White Sovereign) [0..<SQ_N] = [76]"
  "filter (\<lambda>s. initialBoard ! s = makePiece Black Sovereign) [0..<SQ_N] = [4]"
  "lastSovereign initialBoard White = 76" "lastSovereign initialBoard Black = 4"
  "list_all (\<lambda>v. abs8 v \<le> 8) initialBoard"
  by code_simp+

lemma wellFormed_initial: "wellFormed initial"
proof -
  have c: "bbOk initial" "hashOk initial" "tokensOk initial" "sovOk initial"
    using initial_ok(1) by (simp_all add: consistent_iff)
  have len: "length (board initial) = SQ_N" by (rule initial_ok(2))
  have "sovInv initial"
    unfolding sovInv_def
  proof
    fix c
    have "pcGet c (sovereignSq initial) = lastSovereign initialBoard c"
      using c(4) by (simp add: sovOk_def initial_fields)
    then show "sovSet (board initial) c
            = (if pcGet c (sovereignSq initial) = SQ_NONE then {}
               else {pcGet c (sovereignSq initial)})"
      by (cases c) (simp_all add: initial_fields sovSet_filter initial_sovereigns SQ_NONE_def)
  qed
  moreover have "validBoard (board initial)"
    using len validBoard_list_all [of initialBoard] by (simp add: initial_fields initial_sovereigns)
  ultimately show ?thesis using c len by (simp add: wellFormed_def coreOk_def)
qed

lemma wellFormed_makeMove:
  assumes "wellFormed p" "m \<in> set (fst (generateMoves p))"
  shows "wellFormed (fst (makeMove p m))"
    and "undoMove (fst (makeMove p m)) (snd (makeMove p m)) = p"
proof -
  have ok: "bbOk p" and hl: "hashLen p" and core: "coreOk p" and len: "length (board p) = SQ_N"
    using assms(1) by (simp_all add: wellFormed_def coreOk_def hashLen_def)
  have shape: "legalShape p m" using generateMoves_shape [OF ok len assms(2)] .
  then have sq: "squaresOk m" by (simp add: legalShape_def)
  obtain p' u where mk: "makeMove p m = (p', u)" by (cases "makeMove p m")
  have tr: "tracks p p' u" "keepsGlobals p u" "history p' = history p @ [hash p]"
    using makeMove_tracks [OF ok len sq] mk by simp_all
  have "bbOk p'" using tr(1) by (simp add: tracks_def)
  moreover have "hashOk p'" using hashLen_makeMove [OF hl sq] mk by (simp add: hashLen_def)
  moreover have "coreOk p'" using coreOk_makeMove [OF core shape] mk by simp
  ultimately show "wellFormed (fst (makeMove p m))" by (simp add: wellFormed_def mk)
  show "undoMove (fst (makeMove p m)) (snd (makeMove p m)) = p"
    using undoMove_restores [OF tr ok len] by (simp add: mk)
qed

lemma wellFormed_makeNullMove:
  assumes "wellFormed p"
  shows "wellFormed (fst (makeNullMove p))"
    and "undoNullMove (fst (makeNullMove p)) (snd (makeNullMove p)) = p"
proof -
  let ?q = "fst (makeNullMove p)"
  have f: "board ?q = board p" "wallTokens ?q = wallTokens p" "sovereignSq ?q = sovereignSq p"
    "pieceBB ?q = pieceBB p" "piecesBB ?q = piecesBB p" "wallsBB ?q = wallsBB p"
    "wallsReinfBB ?q = wallsReinfBB p"
    by (simp_all add: makeNullMove_def Let_def)
  have "bbOk ?q" using assms by (simp add: wellFormed_def bbOk_def f)
  moreover have "hashOk ?q"
    using assms
    by (cases "turn p")
       (auto simp: wellFormed_def hashOk_def makeNullMove_def Let_def initialHash_def ac_simps)
  moreover have "coreOk ?q" using assms coreOk_cong [OF f(1-3)] by (simp add: wellFormed_def)
  ultimately show "wellFormed ?q" by (simp add: wellFormed_def)
  show "undoNullMove ?q (snd (makeNullMove p)) = p"
    by (cases "turn p")
       (simp_all add: makeNullMove_def undoNullMove_def Let_def xor_twice_word)
qed

text \<open>The positions that a sequence of \<open>makeMove\<close>, \<open>undoMove\<close>, \<open>makeNullMove\<close> and
  \<open>undoNullMove\<close> calls produces from the initial position: a move is made when the
  generator lists it, and what is undone is the last move made, with its own undo record.\<close>

inductive reachable :: "Position \<Rightarrow> bool" where
  start: "reachable initial"
| made: "reachable p \<Longrightarrow> m \<in> set (fst (generateMoves p)) \<Longrightarrow> reachable (fst (makeMove p m))"
| undone: "reachable p \<Longrightarrow> m \<in> set (fst (generateMoves p)) \<Longrightarrow>
           reachable (undoMove (fst (makeMove p m)) (snd (makeMove p m)))"
| nullMade: "reachable p \<Longrightarrow> reachable (fst (makeNullMove p))"
| nullUndone: "reachable p \<Longrightarrow>
               reachable (undoNullMove (fst (makeNullMove p)) (snd (makeNullMove p)))"

lemma reachable_wellFormed: "reachable p \<Longrightarrow> wellFormed p"
proof (induction rule: reachable.induct)
  case start
  show ?case by (rule wellFormed_initial)
next
  case (made p m)
  then show ?case by (simp add: wellFormed_makeMove(1))
next
  case (undone p m)
  then show ?case by (simp add: wellFormed_makeMove(2))
next
  case (nullMade p)
  then show ?case by (simp add: wellFormed_makeNullMove(1))
next
  case (nullUndone p)
  then show ?case by (simp add: wellFormed_makeNullMove(2))
qed

lemma initialHash_keys:
  "initialHash p =
     (if turn p = Black then turnKey else 0)
     XOR (if pcGet White (bastionRight p) then bastionKeys 0 else 0)
     XOR (if pcGet Black (bastionRight p) then bastionKeys 1 else 0)
     XOR (if pcGet White (wallBuiltLast p) then wallBuiltLastKeys 0 else 0)
     XOR (if pcGet Black (wallBuiltLast p) then wallBuiltLastKeys 1 else 0)"
  by (simp add: initialHash_def Let_def ac_simps)

text \<open>C2. In every position reachable from the initial position by making generated moves,
  undoing them, and making and undoing null moves, a rebuild from the raw squares changes
  nothing: the per-piece and per-colour bitboards, the wall tokens, the Sovereign squares
  and the hash are what \<open>rebuildDerived\<close> computes. Concretely the hash is the XOR of one
  key per occupied square and content, the turn key when Black is to move, each side's
  Bastion-right key when held, and each side's wallBuiltLast key when set.\<close>

theorem reachable_derived_consistent:
  assumes "reachable p"
  shows "rebuildDerived p = p
         \<and> hash p = boardHash (board p)
              XOR (if turn p = Black then turnKey else 0)
              XOR (if pcGet White (bastionRight p) then bastionKeys 0 else 0)
              XOR (if pcGet Black (bastionRight p) then bastionKeys 1 else 0)
              XOR (if pcGet White (wallBuiltLast p) then wallBuiltLastKeys 0 else 0)
              XOR (if pcGet Black (wallBuiltLast p) then wallBuiltLastKeys 1 else 0)"
proof -
  have w: "wellFormed p" using assms by (rule reachable_wellFormed)
  have "rebuildDerived p = p" using wellFormed_consistent [OF w] by (simp add: consistent_def)
  moreover have "hash p = initialHash p XOR boardHash (board p)"
    using w by (simp add: wellFormed_def hashOk_def)
  ultimately show ?thesis by (simp add: initialHash_keys ac_simps)
qed

theorem reachable_derived_consistent_witness:
  "reachable (fst (makeMove initial (normalMove 63 54)))
   \<and> rebuildDerived (fst (makeMove initial (normalMove 63 54)))
       = fst (makeMove initial (normalMove 63 54))"
  using reachable_derived_consistent [OF made [OF start initial_mason_move]]
    made [OF start initial_mason_move]
  by simp

section \<open>The position string (fen.cpp)\<close>

subsection \<open>Characters and numbers of the C++ streams\<close>

text \<open>\<open>std::isspace\<close>, \<open>std::isupper\<close>, \<open>std::tolower\<close> and \<open>std::toupper\<close> in the C locale, and
  the digit test \<open>'0' <= ch && ch <= '9'\<close>; characters are compared by their codes.\<close>

definition code :: "char \<Rightarrow> nat" where
  "code ch = of_char ch"

definition isSpace :: "char \<Rightarrow> bool" where
  "isSpace ch = (code ch = 32 \<or> (9 \<le> code ch \<and> code ch \<le> 13))"

definition isDigit :: "char \<Rightarrow> bool" where
  "isDigit ch = (48 \<le> code ch \<and> code ch \<le> 57)"

definition isUpper :: "char \<Rightarrow> bool" where
  "isUpper ch = (65 \<le> code ch \<and> code ch \<le> 90)"

definition toLower :: "char \<Rightarrow> char" where
  "toLower ch = (if 65 \<le> code ch \<and> code ch \<le> 90 then char_of (code ch + 32) else ch)"

definition toUpper :: "char \<Rightarrow> char" where
  "toUpper ch = (if 97 \<le> code ch \<and> code ch \<le> 122 then char_of (code ch - 32) else ch)"

text \<open>\<open>oss << n\<close> for an \<open>int\<close>: the decimal digits, with a minus sign when negative.\<close>

function showNat :: "nat \<Rightarrow> string" where
  "showNat n = (if n < 10 then [char_of (48 + n)]
                else showNat (n div 10) @ [char_of (48 + n mod 10)])"
  by pat_completeness auto
termination
  by (relation "measure id") auto

declare showNat.simps [simp del]

definition showInt :: "int \<Rightarrow> string" where
  "showInt n = (if n < 0 then CHR ''-'' # showNat (nat (- n)) else showNat (nat n))"

text \<open>The value of a digit string, as \<open>atoi\<close> and the stream extraction accumulate it
  (\<open>atoi\<close> is called on digit strings only and keeps the low 32 bits of the value, which
  \<open>readTail\<close> applies).\<close>

definition digitsVal :: "string \<Rightarrow> int" where
  "digitsVal ds = foldl (\<lambda>a ch. a * 10 + (int (code ch) - 48)) 0 ds"

text \<open>\<open>iss >> tok\<close> for a string: white space is skipped, the token runs to the next white
  space; the extraction fails when nothing is left. The rest of the stream is returned.\<close>

definition nextToken :: "string \<Rightarrow> (string \<times> string) option" where
  "nextToken s =
     (let s1 = dropWhile isSpace s in
      if s1 = [] then None
      else Some (takeWhile (\<lambda>ch. \<not> isSpace ch) s1, dropWhile (\<lambda>ch. \<not> isSpace ch) s1))"

text \<open>\<open>iss >> n\<close> for an \<open>int\<close>: white space is skipped, an optional sign and the longest run
  of digits are read; the extraction fails when there is no digit or the value does not
  fit a 32-bit \<open>int\<close>.\<close>

definition readInt :: "string \<Rightarrow> (int \<times> string) option" where
  "readInt s =
     (let s1 = dropWhile isSpace s;
          neg = (s1 \<noteq> [] \<and> hd s1 = CHR ''-'');
          s2 = (if s1 \<noteq> [] \<and> (hd s1 = CHR ''-'' \<or> hd s1 = CHR ''+'') then tl s1 else s1);
          ds = takeWhile isDigit s2;
          v = (if neg then - digitsVal ds else digitsVal ds)
      in if ds = [] \<or> v < - 2147483648 \<or> v > 2147483647 then None
         else Some (v, dropWhile isDigit s2))"

definition isDigits :: "string \<Rightarrow> bool" where
  "isDigits s = (s \<noteq> [] \<and> list_all isDigit s)"

subsection \<open>\<open>toFEN\<close>\<close>

text \<open>The letter of a square's content; \<open>?\<close> for a value that is neither piece nor wall.\<close>

definition cellChar :: "int \<Rightarrow> char" where
  "cellChar v =
     (let ch = (if isPieceVal v then
                  (case pieceOf v of
                     Mason \<Rightarrow> CHR ''M'' | Catapult \<Rightarrow> CHR ''C'' | Lancer \<Rightarrow> CHR ''L''
                   | Pegasus \<Rightarrow> CHR ''P'' | Minister \<Rightarrow> CHR ''I'' | Sovereign \<Rightarrow> CHR ''S''
                   | Count \<Rightarrow> CHR ''?'')
                else if isWallVal v then (if wallHp v = 2 then CHR ''R'' else CHR ''W'')
                else CHR ''?'')
      in if v < 0 then toLower ch else ch)"

text \<open>The body of the column loop: what it writes, and the new count of pending empty
  squares.\<close>

definition fenCell :: "Position \<Rightarrow> int \<Rightarrow> string \<times> int \<Rightarrow> int \<Rightarrow> string \<times> int" where
  "fenCell p r acc c =
     (case acc of (out, pend) \<Rightarrow>
        (let v = rawAt p (sq r c) in
         if v = 0 then (out, pend + 1)
         else (let out1 = (if pend \<noteq> 0 then out @ showInt pend else out)
               in (out1 @ [cellChar v], 0))))"

definition fenRank :: "Position \<Rightarrow> int \<Rightarrow> string" where
  "fenRank p r =
     (case foldl (fenCell p r) ([], 0) (map int [0..<9]) of (out, pend) \<Rightarrow>
        (let out1 = (if pend \<noteq> 0 then out @ showInt pend else out)
         in if r \<noteq> N - 1 then out1 @ [CHR ''/''] else out1))"

definition toFEN :: "Position \<Rightarrow> string" where
  "toFEN p =
     (let ranks = concat (map (\<lambda>r. fenRank p (int r)) [0..<9]);
          turnCh = (if turn p = White then CHR ''w'' else CHR ''b'');
          rights0 = (if pcGet White (bastionRight p) then [CHR ''B''] else [])
                    @ (if pcGet Black (bastionRight p) then [CHR ''b''] else []);
          rights = (if rights0 = [] then [CHR ''-''] else rights0);
          wallSeq0 = (if pcGet White (wallBuiltLast p) then [CHR ''w''] else [])
                     @ (if pcGet Black (wallBuiltLast p) then [CHR ''b''] else []);
          wallSeq = (if wallSeq0 = [] then [CHR ''-''] else wallSeq0)
      in ranks @ [CHR '' '', turnCh, CHR '' ''] @ rights @ [CHR '' ''] @ wallSeq @ [CHR '' '']
         @ showInt (halfmove p) @ [CHR '' ''] @ showInt (fullmove p))"

subsection \<open>\<open>fromFEN\<close>\<close>

datatype FenError =
    ExpectedBoardAndTurn | EmptyTurn | BadTurn | RankNotNine | TooManyRanks | FileOverflow
  | TooManyFiles | UnknownPiece char | BadShape

text \<open>The \<open>switch\<close> on the upper-cased letter.\<close>

definition letterValue :: "Color \<Rightarrow> char \<Rightarrow> int option" where
  "letterValue c ch =
     (if ch = CHR ''M'' then Some (makePiece c Mason)
      else if ch = CHR ''C'' then Some (makePiece c Catapult)
      else if ch = CHR ''L'' then Some (makePiece c Lancer)
      else if ch = CHR ''P'' then Some (makePiece c Pegasus)
      else if ch = CHR ''I'' then Some (makePiece c Minister)
      else if ch = CHR ''S'' then Some (makePiece c Sovereign)
      else if ch = CHR ''W'' then Some (makeWall c 1)
      else if ch = CHR ''R'' then Some (makeWall c 2)
      else None)"

text \<open>The body of the loop over the board field; the state is the rank, the file and the
  square array.\<close>

definition boardStep :: "int \<times> int \<times> int list \<Rightarrow> char \<Rightarrow> FenError + int \<times> int \<times> int list" where
  "boardStep st raw =
     (case st of (r, c, b) \<Rightarrow>
        if raw = CHR ''/'' then (if c \<noteq> N then Inl RankNotNine else Inr (r + 1, 0, b))
        else if r \<ge> N then Inl TooManyRanks
        else if 49 \<le> code raw \<and> code raw \<le> 57 then
          (let c' = c + (int (code raw) - 48) in
           if c' > N then Inl FileOverflow else Inr (r, c', b))
        else (let isWhite = isUpper raw; ch = toUpper raw in
              if c \<ge> N then Inl TooManyFiles
              else (case letterValue (if isWhite then White else Black) ch of
                      None \<Rightarrow> Inl (UnknownPiece raw)
                    | Some v \<Rightarrow> Inr (r, c + 1, b[sq r c := v]))))"

fun boardLoop :: "int \<times> int \<times> int list \<Rightarrow> string \<Rightarrow> FenError + int \<times> int \<times> int list" where
  "boardLoop st [] = Inr st"
| "boardLoop st (raw # rest) =
     (case boardStep st raw of Inl e \<Rightarrow> Inl e | Inr st' \<Rightarrow> boardLoop st' rest)"

text \<open>The optional fields after the turn: rights, wall flags, halfmove, fullmove, with the
  defaults of the source. A failed extraction leaves the stream failed, so the fullmove
  number is not read after a halfmove clock that could not be.\<close>

definition readTail :: "string \<Rightarrow> string \<times> string \<times> int \<times> int" where
  "readTail s2 =
     (case nextToken s2 of
        None \<Rightarrow> (''Bb'', ''-'', 0, 1)
      | Some (tok, s3) \<Rightarrow>
          (case nextToken s3 of
             None \<Rightarrow> (tok, ''-'', 0, 1)
           | Some (tok2, s4) \<Rightarrow>
               if isDigits tok2 then
                 (tok, ''-'', int32 (digitsVal tok2),
                  (case readInt s4 of None \<Rightarrow> 1 | Some (f, s5) \<Rightarrow> f))
               else
                 (case readInt s4 of
                    None \<Rightarrow> (tok, tok2, 0, 1)
                  | Some (h, s5) \<Rightarrow>
                      (tok, tok2, h, (case readInt s5 of None \<Rightarrow> 1 | Some (f, s6) \<Rightarrow> f)))))"

definition fromFEN :: "string \<Rightarrow> FenError + Position" where
  "fromFEN fen =
     (case nextToken fen of
        None \<Rightarrow> Inl ExpectedBoardAndTurn
      | Some (boardStr, s1) \<Rightarrow>
          (case nextToken s1 of
             None \<Rightarrow> Inl ExpectedBoardAndTurn
           | Some (turnStr, s2) \<Rightarrow>
               (case readTail s2 of (rightsStr, wallStr, hm, fm) \<Rightarrow>
                  if turnStr = [] then Inl EmptyTurn
                  else (let t = toLower (hd turnStr) in
                        if t \<noteq> CHR ''w'' \<and> t \<noteq> CHR ''b'' then Inl BadTurn
                        else (let p1 = emptyPosition\<lparr> board := replicate 81 0, winner := SQ_NONE,
                                         winReason := NoReason,
                                         turn := (if t = CHR ''w'' then White else Black) \<rparr>;
                                  br = (if rightsStr \<noteq> ''-''
                                        then (CHR ''B'' \<in> set rightsStr, CHR ''b'' \<in> set rightsStr)
                                        else (False, False));
                                  wb = (if wallStr \<noteq> ''-''
                                        then (CHR ''w'' \<in> set (map toLower wallStr),
                                              CHR ''b'' \<in> set (map toLower wallStr))
                                        else (False, False));
                                  p2 = p1\<lparr> bastionRight := br, wallBuiltLast := wb,
                                           halfmove := hm, fullmove := fm \<rparr>
                              in (case boardLoop (0, 0, board p2) boardStr of
                                    Inl e \<Rightarrow> Inl e
                                  | Inr (r, c, b) \<Rightarrow>
                                      if r \<noteq> N - 1 \<or> c \<noteq> N then Inl BadShape
                                      else Inr (rebuildDerived (p2\<lparr> board := b \<rparr>))))))))"

section \<open>Numbers written and read back\<close>

lemma code_digit: "n < 10 \<Longrightarrow> code (char_of (48 + n)) = 48 + n"
  by (simp add: code_def)

lemma showNat_digits: "showNat n \<noteq> [] \<and> list_all isDigit (showNat n)"
proof (induction n rule: showNat.induct)
  case (1 n)
  show ?case
  proof (cases "n < 10")
    case True
    then show ?thesis by (simp add: showNat.simps [of n] isDigit_def code_digit)
  next
    case False
    have "n mod 10 < 10" by simp
    then show ?thesis
      using False 1 by (simp add: showNat.simps [of n] isDigit_def code_digit)
  qed
qed

lemma digitsVal_snoc: "digitsVal (ds @ [ch]) = digitsVal ds * 10 + (int (code ch) - 48)"
  by (simp add: digitsVal_def)

lemma digitsVal_showNat: "digitsVal (showNat n) = int n"
proof (induction n rule: showNat.induct)
  case (1 n)
  show ?case
  proof (cases "n < 10")
    case True
    then show ?thesis by (simp add: showNat.simps [of n] digitsVal_def code_digit)
  next
    case False
    have m: "n mod 10 < 10" by simp
    have "digitsVal (showNat n) = digitsVal (showNat (n div 10)) * 10 + int (n mod 10)"
      using False by (simp add: showNat.simps [of n] digitsVal_snoc code_digit [OF m])
    then show ?thesis using 1 False by (simp add: zmod_int zdiv_int)
  qed
qed

lemma showInt_nonneg: "0 \<le> n \<Longrightarrow> showInt n = showNat (nat n)"
  by (simp add: showInt_def)

lemma showInt_digit:
  "1 \<le> e \<Longrightarrow> e \<le> 9 \<Longrightarrow> showInt e = [char_of (48 + nat e)] \<and> code (char_of (48 + nat e)) = 48 + nat e"
proof -
  assume "1 \<le> e" "e \<le> 9"
  then have "nat e < 10" by simp
  then show ?thesis using \<open>1 \<le> e\<close> by (simp add: showInt_def showNat.simps [of "nat e"] code_digit)
qed

lemma digit_not_space: "isDigit ch \<Longrightarrow> \<not> isSpace ch"
  by (auto simp: isDigit_def isSpace_def)

lemma digit_not_sign: "isDigit ch \<Longrightarrow> ch \<noteq> CHR ''-'' \<and> ch \<noteq> CHR ''+''"
  by (auto simp: isDigit_def code_def)

lemma readInt_digits:
  assumes ds: "ds \<noteq> []" "list_all isDigit ds" and rest: "rest = [] \<or> \<not> isDigit (hd rest)"
    and rng: "digitsVal ds \<le> 2147483647" "0 \<le> digitsVal ds"
  shows "readInt (CHR '' '' # ds @ rest) = Some (digitsVal ds, rest)"
proof -
  obtain d ds' where d: "ds = d # ds'" using ds(1) by (cases ds) auto
  have dd: "isDigit d" using ds(2) d by simp
  have sp: "isSpace (CHR '' '')" by (simp add: isSpace_def code_def)
  have s1: "dropWhile isSpace (CHR '' '' # ds @ rest) = ds @ rest"
    using sp dd digit_not_space d by simp
  have tk: "takeWhile isDigit (ds @ rest) = ds"
    using ds(2) rest by (cases rest) (auto simp: list_all_iff takeWhile_append2 takeWhile_eq_all_conv [THEN iffD2])
  have dr: "dropWhile isDigit (ds @ rest) = rest"
    using ds(2) rest by (cases rest) (auto simp: list_all_iff dropWhile_append2)
  show ?thesis
    unfolding readInt_def s1 Let_def
    using digit_not_sign [OF dd] ds(1) rng by (simp add: d [symmetric] tk dr) (simp add: d)
qed

lemma readInt_showInt:
  assumes "0 \<le> n" "n \<le> 2147483647" "rest = [] \<or> \<not> isDigit (hd rest)"
  shows "readInt (CHR '' '' # showInt n @ rest) = Some (n, rest)"
  using readInt_digits [of "showNat (nat n)" rest] showNat_digits [of "nat n"] assms
  by (simp add: showInt_nonneg digitsVal_showNat)

section \<open>Tokens\<close>

lemma nextToken_field:
  assumes "tok \<noteq> []" "\<forall>ch\<in>set tok. \<not> isSpace ch"
  shows "nextToken (tok @ CHR '' '' # rest) = Some (tok, CHR '' '' # rest)"
    and "nextToken (CHR '' '' # tok @ CHR '' '' # rest) = Some (tok, CHR '' '' # rest)"
proof -
  obtain t ts where t: "tok = t # ts" using assms(1) by (cases tok) auto
  have sp: "isSpace (CHR '' '')" by (simp add: isSpace_def code_def)
  have d: "dropWhile isSpace (tok @ CHR '' '' # rest) = tok @ CHR '' '' # rest"
    using assms(2) t by simp
  have tk: "takeWhile (\<lambda>ch. \<not> isSpace ch) (tok @ CHR '' '' # rest) = tok"
    using assms(2) sp by (simp add: takeWhile_append2)
  have dr: "dropWhile (\<lambda>ch. \<not> isSpace ch) (tok @ CHR '' '' # rest) = CHR '' '' # rest"
    using assms(2) sp by (simp add: dropWhile_append2)
  show "nextToken (tok @ CHR '' '' # rest) = Some (tok, CHR '' '' # rest)"
    unfolding nextToken_def d Let_def tk dr using assms(1) by simp
  then show "nextToken (CHR '' '' # tok @ CHR '' '' # rest) = Some (tok, CHR '' '' # rest)"
    using sp by (simp add: nextToken_def)
qed

section \<open>The board field read back\<close>

lemma boardLoop_append:
  "boardLoop st (s1 @ s2)
     = (case boardLoop st s1 of Inl e \<Rightarrow> Inl e | Inr st' \<Rightarrow> boardLoop st' s2)"
  by (induction s1 arbitrary: st) (auto split: sum.splits)

lemma cellChar_values:
  "map cellChar [1, 2, 3, 4, 5, 6, 7, 8, -1, -2, -3, -4, -5, -6, -7, -8] = ''MCLPISWRmclpiswr''"
  by code_simp

lemma letter_facts:
  "map toUpper ''MCLPISWRmclpiswr'' = ''MCLPISWRMCLPISWR''"
  "map isUpper ''MCLPISWRmclpiswr''
     = [True, True, True, True, True, True, True, True,
        False, False, False, False, False, False, False, False]"
  "map code ''MCLPISWRmclpiswr/''
     = [77, 67, 76, 80, 73, 83, 87, 82, 109, 99, 108, 112, 105, 115, 119, 114, 47]"
  by code_simp+

lemma values_made:
  "[makePiece White Mason, makePiece White Catapult, makePiece White Lancer,
    makePiece White Pegasus, makePiece White Minister, makePiece White Sovereign,
    makeWall White 1, makeWall White 2,
    makePiece Black Mason, makePiece Black Catapult, makePiece Black Lancer,
    makePiece Black Pegasus, makePiece Black Minister, makePiece Black Sovereign,
    makeWall Black 1, makeWall Black 2]
   = [1, 2, 3, 4, 5, 6, 7, 8, -1, -2, -3, -4, -5, -6, -7, -8]"
  by (simp add: makePiece_def makeWall_def)

text \<open>A legal square value: empty, one of the six pieces, or a wall of 1 or 2 HP.\<close>

lemma legal_value_cases:
  assumes "v \<noteq> 0" "abs8 v \<le> 8"
  shows "v \<in> {1, 2, 3, 4, 5, 6, 7, 8, -1, -2, -3, -4, -5, -6, -7, -8}"
  using assms by (auto simp: abs8_def split: if_splits)

lemma boardStep_cellChar:
  assumes "v \<noteq> 0" "abs8 v \<le> 8" "r < N" "c < N"
  shows "boardStep (r, c, b) (cellChar v) = Inr (r, c + 1, b[sq r c := v])"
    and "\<not> isSpace (cellChar v)"
proof -
  note cv = cellChar_values [simplified]
  note mv = values_made [simplified]
  note lf = letter_facts [simplified]
  have "boardStep (r, c, b) (cellChar v) = Inr (r, c + 1, b[sq r c := v]) \<and> \<not> isSpace (cellChar v)"
    using legal_value_cases [OF assms(1,2)] assms(3,4)
    by (auto simp: boardStep_def letterValue_def isSpace_def cv mv lf)
  then show "boardStep (r, c, b) (cellChar v) = Inr (r, c + 1, b[sq r c := v])"
    and "\<not> isSpace (cellChar v)" by simp_all
qed

lemma boardStep_digit:
  assumes "1 \<le> e" "e \<le> 9" "r < N" "c + e \<le> N"
  shows "boardLoop (r, c, b) (showInt e) = Inr (r, c + e, b)"
proof -
  let ?d = "char_of (48 + nat e) :: char"
  have s: "showInt e = [?d]" and cd: "code ?d = 48 + nat e"
    using showInt_digit [OF assms(1,2)] by simp_all
  have "code (CHR ''/'') = 47" by (simp add: code_def)
  then have ns: "?d \<noteq> CHR ''/''" using cd by force
  have ne: "1 \<le> nat e" "nat e \<le> 9" using assms(1,2) by simp_all
  show ?thesis
    using assms ns ne by (simp add: s boardStep_def cd)
qed

lemma showInt_digit_not_space:
  assumes "1 \<le> e" "e \<le> 9"
  shows "\<forall>ch\<in>set (showInt e). \<not> isSpace ch"
  using showInt_digit [OF assms] assms by (simp add: isSpace_def)

text \<open>The squares read so far, the rest still empty.\<close>

definition readSoFar :: "int list \<Rightarrow> nat \<Rightarrow> int list" where
  "readSoFar b n = take n b @ replicate (81 - n) 0"

lemma readSoFar_step:
  assumes "n < 81" "length b = 81"
  shows "readSoFar b (Suc n) = (readSoFar b n)[n := b ! n]"
proof -
  have "take (Suc n) b = take n b @ [b ! n]" using assms by (simp add: take_Suc_conv_app_nth)
  moreover have "replicate (81 - n) (0::int) = 0 # replicate (81 - Suc n) 0"
    using assms(1) by (cases "81 - n") (auto simp: Suc_diff_Suc)
  ultimately show ?thesis using assms by (simp add: readSoFar_def list_update_append)
qed

lemma readSoFar_zero:
  assumes "n < 81" "length b = 81" "b ! n = 0"
  shows "readSoFar b (Suc n) = readSoFar b n"
proof -
  have "readSoFar b n ! n = 0" using assms by (simp add: readSoFar_def nth_append)
  then show ?thesis using readSoFar_step [OF assms(1,2)] assms(3) by (metis list_update_id)
qed

lemma readSoFar_ends: "readSoFar b 0 = replicate 81 0" "length b = 81 \<Longrightarrow> readSoFar b 81 = b"
  by (simp_all add: readSoFar_def)

lemma sq_flat: "sq (int r) (int k) = 9 * r + k"
  by (simp add: sq_def N_def nat_add_distrib nat_mult_distrib)

text \<open>The column loop of \<open>toFEN\<close> against the loop of \<open>fromFEN\<close>: after \<open>k\<close> columns of rank
  \<open>r\<close>, reading what was written leaves the reader \<open>pend\<close> files behind the writer.\<close>

lemma fenCell_inv:
  assumes len: "length (board p) = 81" and val: "validBoard (board p)" and r: "r < 9"
  shows "k \<le> 9 \<Longrightarrow>
    (case foldl (fenCell p (int r)) ([], 0) (map int [0..<k]) of (out, pend) \<Rightarrow>
       0 \<le> pend \<and> pend \<le> int k \<and> (\<forall>ch\<in>set out. \<not> isSpace ch)
       \<and> boardLoop (int r, 0, readSoFar (board p) (9 * r)) out
           = Inr (int r, int k - pend, readSoFar (board p) (9 * r + k)))"
proof (induction k)
  case 0
  show ?case by simp
next
  case (Suc k)
  obtain out pend where st: "foldl (fenCell p (int r)) ([], 0) (map int [0..<k]) = (out, pend)"
    by (cases "foldl (fenCell p (int r)) ([], 0) (map int [0..<k])")
  have k: "k < 9" using Suc.prems by simp
  have ih: "0 \<le> pend" "pend \<le> int k" "\<forall>ch\<in>set out. \<not> isSpace ch"
    "boardLoop (int r, 0, readSoFar (board p) (9 * r)) out
       = Inr (int r, int k - pend, readSoFar (board p) (9 * r + k))"
    using Suc.IH st k by simp_all
  let ?n = "9 * r + k"
  let ?v = "board p ! ?n"
  have n: "?n < 81" using r k by simp
  have v8: "abs8 ?v \<le> 8" using val n by (simp add: validBoard_def SQ_N_def)
  have rN: "int r < N" using r by (simp add: N_def)
  have step: "foldl (fenCell p (int r)) ([], 0) (map int [0..<Suc k])
                = fenCell p (int r) (out, pend) (int k)"
    by (simp add: st)
  show ?case
  proof (cases "?v = 0")
    case True
    have "fenCell p (int r) (out, pend) (int k) = (out, pend + 1)"
      using True by (simp add: fenCell_def rawAt_def sq_flat)
    then show ?thesis
      unfolding step using ih readSoFar_zero [OF n len True] by simp
  next
    case False
    let ?ds = "if pend \<noteq> 0 then showInt pend else []"
    have fc: "fenCell p (int r) (out, pend) (int k) = (out @ ?ds @ [cellChar ?v], 0)"
      using False by (simp add: fenCell_def rawAt_def sq_flat)
    have d: "boardLoop (int r, int k - pend, b) ?ds = Inr (int r, int k, b)"
      "\<forall>ch\<in>set ?ds. \<not> isSpace ch" for b
      using boardStep_digit [of pend "int r" "int k - pend" b] showInt_digit_not_space [of pend]
        ih(1,2) rN k
      by (auto simp: N_def)
    have c: "boardStep (int r, int k, b) (cellChar ?v) = Inr (int r, int k + 1, b[?n := ?v])"
      "\<not> isSpace (cellChar ?v)" for b
      using boardStep_cellChar(1) [OF False v8 rN, of "int k" b]
        boardStep_cellChar(2) [OF False v8 rN, of "int k"] k
      by (simp_all add: N_def sq_flat)
    have "boardLoop (int r, 0, readSoFar (board p) (9 * r)) (out @ ?ds @ [cellChar ?v])
            = Inr (int r, int k + 1, (readSoFar (board p) ?n)[?n := ?v])"
      by (simp only: boardLoop_append ih(4) d(1) sum.case boardLoop.simps c(1))
    then show ?thesis
      unfolding step fc using ih(3) d(2) c(2) readSoFar_step [OF n len]
      by (auto simp del: boardLoop.simps)
  qed
qed

lemma fenRank_read:
  assumes len: "length (board p) = 81" and val: "validBoard (board p)" and r: "r < 9"
  shows "boardLoop (int r, 0, readSoFar (board p) (9 * r)) (fenRank p (int r))
           = Inr (if r = 8 then (8, 9, readSoFar (board p) 81)
                  else (int r + 1, 0, readSoFar (board p) (9 * (r + 1))))"
    and "\<forall>ch\<in>set (fenRank p (int r)). \<not> isSpace ch"
proof -
  obtain out pend where st: "foldl (fenCell p (int r)) ([], 0) (map int [0..<9]) = (out, pend)"
    by (cases "foldl (fenCell p (int r)) ([], 0) (map int [0..<9])")
  have ih: "0 \<le> pend" "pend \<le> 9" "\<forall>ch\<in>set out. \<not> isSpace ch"
    "boardLoop (int r, 0, readSoFar (board p) (9 * r)) out
       = Inr (int r, 9 - pend, readSoFar (board p) (9 * r + 9))"
    using fenCell_inv [OF assms, of 9] st by simp_all
  have rN: "int r < N" using r by (simp add: N_def)
  let ?ds = "if pend \<noteq> 0 then showInt pend else []"
  let ?sl = "if int r \<noteq> N - 1 then [CHR ''/''] else []"
  have fr: "fenRank p (int r) = out @ ?ds @ ?sl"
    by (simp add: fenRank_def st Let_def)
  have d: "boardLoop (int r, 9 - pend, b) ?ds = Inr (int r, 9, b)"
    "\<forall>ch\<in>set ?ds. \<not> isSpace ch" for b
    using boardStep_digit [of pend "int r" "9 - pend" b] showInt_digit_not_space [of pend]
      ih(1,2) rN
    by (auto simp: N_def)
  have s: "boardLoop (int r, 9, b) ?sl
             = Inr (if r = 8 then (8, 9, b) else (int r + 1, 0, b))" for b
    using r by (auto simp: N_def boardStep_def)
  have e: "readSoFar (board p) (9 * r + 9) = readSoFar (board p) (9 * (r + 1))"
    "r = 8 \<Longrightarrow> readSoFar (board p) (9 * r + 9) = readSoFar (board p) 81"
    by (simp_all add: add.commute)
  show "boardLoop (int r, 0, readSoFar (board p) (9 * r)) (fenRank p (int r))
           = Inr (if r = 8 then (8, 9, readSoFar (board p) 81)
                  else (int r + 1, 0, readSoFar (board p) (9 * (r + 1))))"
    unfolding fr by (simp only: boardLoop_append ih(4) d(1) sum.case s) (use e in auto)
  show "\<forall>ch\<in>set (fenRank p (int r)). \<not> isSpace ch"
    unfolding fr using ih(3) d(2) by (auto simp: isSpace_def code_def)
qed

lemma ranks_read:
  assumes len: "length (board p) = 81" and val: "validBoard (board p)"
  shows "j \<le> 8 \<Longrightarrow>
         boardLoop (0, 0, replicate 81 0) (concat (map (\<lambda>r. fenRank p (int r)) [0..<j]))
           = Inr (int j, 0, readSoFar (board p) (9 * j))"
proof (induction j)
  case 0
  show ?case by (simp add: readSoFar_ends)
next
  case (Suc j)
  have j: "j < 9" "j \<noteq> 8" "j \<le> 8" using Suc.prems by simp_all
  show ?case
    using Suc.IH [OF j(3)] fenRank_read(1) [OF len val j(1)] j(2)
    by (simp add: boardLoop_append)
qed

lemma board_read:
  assumes len: "length (board p) = 81" and val: "validBoard (board p)"
  shows "boardLoop (0, 0, replicate 81 0) (concat (map (\<lambda>r. fenRank p (int r)) [0..<9]))
           = Inr (8, 9, board p)"
    and "\<forall>ch\<in>set (concat (map (\<lambda>r. fenRank p (int r)) [0..<9])). \<not> isSpace ch"
    and "concat (map (\<lambda>r. fenRank p (int r)) [0..<9]) \<noteq> []"
proof -
  have nine: "[0..<9] = [0..<8] @ [8]" by (simp add: upt_rec)
  show a: "boardLoop (0, 0, replicate 81 0) (concat (map (\<lambda>r. fenRank p (int r)) [0..<9]))
           = Inr (8, 9, board p)"
    using ranks_read [OF len val, of 8] fenRank_read(1) [OF len val, of 8] len
    by (simp add: nine boardLoop_append readSoFar_ends del: upt_Suc)
  show "\<forall>ch\<in>set (concat (map (\<lambda>r. fenRank p (int r)) [0..<9])). \<not> isSpace ch"
    using fenRank_read(2) [OF len val] by auto
  show "concat (map (\<lambda>r. fenRank p (int r)) [0..<9]) \<noteq> []"
  proof
    assume e: "concat (map (\<lambda>r. fenRank p (int r)) [0..<9]) = []"
    have "boardLoop (0, 0, replicate 81 0) [] = Inr (8, 9, board p)"
      using a unfolding e .
    then show False by simp
  qed
qed

section \<open>The round trip\<close>

lemma rebuildDerived_cong:
  assumes "board q = board q'" "turn q = turn q'" "bastionRight q = bastionRight q'"
    "wallBuiltLast q = wallBuiltLast q'" "halfmove q = halfmove q'" "fullmove q = fullmove q'"
    "winner q = winner q'" "winReason q = winReason q'" "history q = history q'"
  shows "rebuildDerived q = rebuildDerived q'"
proof -
  have "q\<lparr> pieceBB := a, piecesBB := b, wallsBB := c, wallsReinfBB := d, wallTokens := e,
           sovereignSq := f, hash := g \<rparr>
        = q'\<lparr> pieceBB := a, piecesBB := b, wallsBB := c, wallsReinfBB := d, wallTokens := e,
           sovereignSq := f, hash := g \<rparr>" for a b c d e f g
    using assms by (cases q; cases q') simp
  then show ?thesis
    using initialHash_cong [OF assms(2-4)] by (simp add: rebuildDerived_def)
qed

lemma consistent_reset:
  "consistent p \<Longrightarrow> consistent (p\<lparr> winner := w, winReason := wr, history := h \<rparr>)"
  by (simp add: consistent_iff bbOk_def hashOk_def tokensOk_def sovOk_def initialHash_def)

lemma field_chars:
  "toLower (CHR ''w'') = CHR ''w''" "toLower (CHR ''b'') = CHR ''b''"
  "toLower (CHR ''-'') = CHR ''-''"
  "\<not> isSpace (CHR ''w'')" "\<not> isSpace (CHR ''b'')" "\<not> isSpace (CHR ''B'')"
  "\<not> isSpace (CHR ''-'')" "\<not> isDigit (CHR ''w'')" "\<not> isDigit (CHR ''b'')"
  "\<not> isDigit (CHR ''-'')" "\<not> isDigit (CHR '' '')"
  by code_simp+

lemma readTail_fields:
  assumes rs: "rights \<in> {''B'', ''b'', ''Bb'', ''-''}" and ws: "walls \<in> {''w'', ''b'', ''wb'', ''-''}"
    and h: "0 \<le> h" "h \<le> 2147483647" and f: "0 \<le> f" "f \<le> 2147483647"
  shows "readTail (CHR '' '' # rights @ CHR '' '' # walls @ CHR '' '' # showInt h
                     @ CHR '' '' # showInt f)
           = (rights, walls, h, f)"
proof -
  let ?s5 = "CHR '' '' # showInt f"
  let ?s4 = "CHR '' '' # showInt h @ ?s5"
  let ?s3 = "CHR '' '' # walls @ ?s4"
  have r1: "rights \<noteq> []" "\<forall>ch\<in>set rights. \<not> isSpace ch"
    using rs by (auto simp: field_chars)
  have w1: "walls \<noteq> []" "\<forall>ch\<in>set walls. \<not> isSpace ch" "\<not> isDigits walls"
    using ws by (auto simp: field_chars isDigits_def)
  have t1: "nextToken (CHR '' '' # rights @ ?s3) = Some (rights, ?s3)"
    by (rule nextToken_field(2) [OF r1])
  have t2: "nextToken ?s3 = Some (walls, ?s4)"
    by (rule nextToken_field(2) [OF w1(1,2)])
  have i1: "readInt ?s4 = Some (h, ?s5)"
    by (rule readInt_showInt [OF h]) (simp add: field_chars)
  have i2: "readInt ?s5 = Some (f, [])"
    using readInt_showInt [OF f, of "[]"] by simp
  show ?thesis
    by (simp only: readTail_def t1 t2 i1 i2 option.case prod.case w1(3) if_False)
qed

text \<open>C9. For a consistent position whose squares hold legal values and whose move
  counters are non-negative 32-bit numbers, parsing the position string gives the position
  back: the same board, side to move, Bastion rights, wallBuiltLast flags, halfmove and
  fullmove counters, and all the derived state (bitboards, wall tokens, Sovereign squares,
  hash). The string does not carry the winner, the win reason or the hash history:
  \<open>fromFEN\<close> returns them as none, none and empty.\<close>

theorem fen_round_trip:
  assumes "consistent p" "length (board p) = SQ_N" "validBoard (board p)"
    "0 \<le> halfmove p" "halfmove p \<le> 2147483647" "0 \<le> fullmove p" "fullmove p \<le> 2147483647"
  shows "fromFEN (toFEN p)
           = Inr (p\<lparr> winner := SQ_NONE, winReason := NoReason, history := [] \<rparr>)"
proof -
  define ranks where "ranks = concat (map (\<lambda>r. fenRank p (int r)) [0..<9])"
  define turnCh where "turnCh = (if turn p = White then CHR ''w'' else CHR ''b'')"
  define rights where "rights =
    (if pcGet White (bastionRight p) then (if pcGet Black (bastionRight p) then ''Bb'' else ''B'')
     else (if pcGet Black (bastionRight p) then ''b'' else ''-''))"
  define walls where "walls =
    (if pcGet White (wallBuiltLast p) then (if pcGet Black (wallBuiltLast p) then ''wb'' else ''w'')
     else (if pcGet Black (wallBuiltLast p) then ''b'' else ''-''))"
  define tail where "tail = CHR '' '' # rights @ CHR '' '' # walls @ CHR '' '' # showInt (halfmove p)
                     @ CHR '' '' # showInt (fullmove p)"
  have len: "length (board p) = 81" using assms(2) by (simp add: SQ_N_def)
  have fen: "toFEN p = ranks @ CHR '' '' # [turnCh] @ tail"
    by (simp add: toFEN_def Let_def ranks_def turnCh_def rights_def walls_def tail_def)
  note br = board_read [OF len assms(3), folded ranks_def]
  have tsp: "tail = CHR '' '' # (rights @ CHR '' '' # walls @ CHR '' '' # showInt (halfmove p)
                     @ CHR '' '' # showInt (fullmove p))"
    by (simp add: tail_def)
  have t1: "nextToken (toFEN p) = Some (ranks, CHR '' '' # [turnCh] @ tail)"
    unfolding fen by (rule nextToken_field(1) [OF br(3,2)])
  have t2: "nextToken (CHR '' '' # [turnCh] @ tail) = Some ([turnCh], tail)"
    unfolding tsp by (rule nextToken_field(2)) (simp_all add: turnCh_def field_chars)
  have t3: "readTail tail = (rights, walls, halfmove p, fullmove p)"
    unfolding tail_def
    by (rule readTail_fields [OF _ _ assms(4-7)]) (simp_all add: rights_def walls_def)
  have tc: "toLower turnCh = turnCh" "turnCh = CHR ''w'' \<longleftrightarrow> turn p = White"
    "turnCh = CHR ''w'' \<or> turnCh = CHR ''b''"
    by (simp_all add: turnCh_def field_chars)
  have rb: "(if rights \<noteq> ''-'' then (CHR ''B'' \<in> set rights, CHR ''b'' \<in> set rights)
             else (False, False)) = bastionRight p"
    by (cases "bastionRight p") (auto simp: rights_def)
  have wb: "(if walls \<noteq> ''-'' then (CHR ''w'' \<in> set (map toLower walls),
                                        CHR ''b'' \<in> set (map toLower walls))
             else (False, False)) = wallBuiltLast p"
    by (cases "wallBuiltLast p") (auto simp: walls_def field_chars)
  let ?p2 = "emptyPosition\<lparr> board := replicate 81 0, winner := SQ_NONE, winReason := NoReason,
               turn := turn p, bastionRight := bastionRight p, wallBuiltLast := wallBuiltLast p,
               halfmove := halfmove p, fullmove := fullmove p \<rparr>"
  let ?p' = "p\<lparr> winner := SQ_NONE, winReason := NoReason, history := [] \<rparr>"
  have hist: "history emptyPosition = []"
    by (simp add: emptyPosition_def rebuildDerived_frame)
  have "rebuildDerived (?p2\<lparr> board := board p \<rparr>) = rebuildDerived ?p'"
    by (rule rebuildDerived_cong) (simp_all add: hist)
  also have "\<dots> = ?p'"
    using consistent_reset [OF assms(1), where w = SQ_NONE and wr = NoReason and h = "[]"] by (simp add: consistent_def)
  finally have res: "rebuildDerived (?p2\<lparr> board := board p \<rparr>) = ?p'" .
  have tw: "(if turnCh = CHR ''w'' then White else Black) = turn p"
    using tc(2) by (cases "turn p") auto
  have nn: "\<not> (turnCh \<noteq> CHR ''w'' \<and> turnCh \<noteq> CHR ''b'')" using tc(3) by auto
  show ?thesis
    unfolding fromFEN_def t1 t2 t3 option.case prod.case Let_def list.sel tc(1)
    using nn br(1) res by (simp add: rb wb tw N_def)
qed

lemma reset_same:
  "winner p = w \<Longrightarrow> winReason p = r \<Longrightarrow> history p = h \<Longrightarrow>
   p\<lparr> winner := w, winReason := r, history := h \<rparr> = p"
  by (cases p) simp

theorem fen_round_trip_witness: "fromFEN (toFEN initial) = Inr initial"
proof -
  have v: "validBoard (board initial)" using wellFormed_initial by (simp add: wellFormed_def coreOk_def)
  have "fromFEN (toFEN initial)
          = Inr (initial\<lparr> winner := SQ_NONE, winReason := NoReason, history := [] \<rparr>)"
    using fen_round_trip [OF initial_ok v] by (simp add: initial_fields)
  then show ?thesis by (simp add: reset_same initial_fields)
qed

end
